theory Spec2Isabelle
  imports Main "HOL-Library.Word" "HOL-Library.Monad_Syntax"
begin

unbundle bit_operations_syntax

section \<open>Symbol tables (symbol-table.h)\<close>

text \<open>
  Keys and indices are \<open>int64\<close> in the source; no arithmetic on them can overflow in
  the functions embedded here, so they are HOL integers. \<open>SymbolTable::kNoSymbol\<close> is
  declared in the header as \<open>-1\<close>.
\<close>

definition kNoSymbol :: int where
  "kNoSymbol = -1"

text \<open>
  \<open>internal::DenseSymbolMap\<close>: the list of symbols, in index order. The header only
  declares \<open>DenseSymbolMap::Find\<close>; \<open>size\<close> and \<open>GetSymbol\<close> are defined in it.
\<close>

type_synonym DenseSymbolMap = "string list"

definition dsm_size :: "DenseSymbolMap \<Rightarrow> int" where
  "dsm_size symbols = int (length symbols)"

definition GetSymbol :: "DenseSymbolMap \<Rightarrow> int \<Rightarrow> string" where
  "GetSymbol symbols idx = symbols ! nat idx"

text \<open>
  Modelled from the spec: \<open>DenseSymbolMap::Find\<close>, the hash lookup whose body is in
  symbol-table.cc, which is not among the sources. It returns the index at which the
  symbol is stored and the map's empty marker \<open>-1\<close> when the symbol is not stored
  (the value \<open>SymbolTableImpl::Find\<close> tests for).
\<close>

fun dsm_Find_from :: "int \<Rightarrow> DenseSymbolMap \<Rightarrow> string \<Rightarrow> int" where
  "dsm_Find_from i [] key = -1"
| "dsm_Find_from i (x # xs) key = (if x = key then i else dsm_Find_from (i + 1) xs key)"

definition dsm_Find :: "DenseSymbolMap \<Rightarrow> string \<Rightarrow> int" where
  "dsm_Find symbols key = dsm_Find_from 0 symbols key"

record SymbolTableImpl =
  name :: string
  available_key :: int
  dense_key_limit :: int
  symbols :: DenseSymbolMap
  idx_key :: "int list"
  key_map :: "int \<rightharpoonup> int"
  check_sum_finalized :: bool
  check_sum_string :: string
  labeled_check_sum_string :: string

text \<open>\<open>string SymbolTableImpl::Find(int64 key) const\<close>.\<close>

definition Find_key :: "SymbolTableImpl \<Rightarrow> int \<Rightarrow> string" where
  "Find_key t key =
     (case (if key < 0 \<or> key \<ge> dense_key_limit t then key_map t key else Some key) of
        None \<Rightarrow> ''''
      | Some idx \<Rightarrow>
          if idx < 0 \<or> idx \<ge> dsm_size (symbols t) then ''''
          else GetSymbol (symbols t) idx)"

text \<open>
  \<open>int64 SymbolTableImpl::Find(const string &symbol) const\<close>. The read
  \<open>idx_key_[idx - dense_key_limit_]\<close> is unchecked in the source; an index outside the
  vector is undefined behaviour there and \<open>None\<close> here.
\<close>

definition Find_symbol :: "SymbolTableImpl \<Rightarrow> string \<Rightarrow> int option" where
  "Find_symbol t symbol =
     (let idx = dsm_Find (symbols t) symbol in
      if idx = -1 \<or> idx < dense_key_limit t then Some idx
      else if idx - dense_key_limit t < int (length (idx_key t))
        then Some (idx_key t ! nat (idx - dense_key_limit t))
        else None)"

text \<open>
  The public class holds a shared pointer to the implementation; its \<open>Find\<close> members
  are \<open>const\<close> and forward to the implementation.
\<close>

record SymbolTable =
  impl :: SymbolTableImpl

definition SymbolTable_Find_key :: "SymbolTable \<Rightarrow> int \<Rightarrow> string" where
  "SymbolTable_Find_key t key = Find_key (impl t) key"

definition SymbolTable_Find_symbol :: "SymbolTable \<Rightarrow> string \<Rightarrow> int option" where
  "SymbolTable_Find_symbol t symbol = Find_symbol (impl t) symbol"

text \<open>
  \<open>LabeledCheckSum\<close> first calls \<open>MaybeRecomputeCheckSum\<close>, which is declared in the
  header and defined elsewhere: it is the parameter \<open>recompute\<close>.
\<close>

definition LabeledCheckSum ::
  "(SymbolTableImpl \<Rightarrow> SymbolTableImpl) \<Rightarrow> SymbolTable \<Rightarrow> string" where
  "LabeledCheckSum recompute t = labeled_check_sum_string (recompute (impl t))"

text \<open>
  \<open>CompatSymbols\<close>; a null pointer is \<open>None\<close>, and \<open>FLAGS_fst_compat_symbols\<close> is
  the first argument.
\<close>

definition CompatSymbols ::
  "bool \<Rightarrow> (SymbolTableImpl \<Rightarrow> SymbolTableImpl) \<Rightarrow>
   SymbolTable option \<Rightarrow> SymbolTable option \<Rightarrow> bool" where
  "CompatSymbols FLAGS_fst_compat_symbols recompute syms1 syms2 =
     (if \<not> FLAGS_fst_compat_symbols then True
      else (case (syms1, syms2) of
              (Some t1, Some t2) \<Rightarrow>
                if LabeledCheckSum recompute t1 \<noteq> LabeledCheckSum recompute t2 then False
                else True
            | _ \<Rightarrow> True))"

section \<open>Arcs, automata, matchers and filters as composition sees them\<close>

text \<open>
  Labels and state ids are signed integers in the source (\<open>int\<close>); the weight type is a
  template parameter and a type variable here. The static members of the weight class
  that composition uses are the fields of \<open>Semiring\<close>.
\<close>

record 'w Arc =
  ilabel :: int
  olabel :: int
  weight :: 'w
  nextstate :: int

record 'w Semiring =
  Times :: "'w \<Rightarrow> 'w \<Rightarrow> 'w"
  One :: 'w
  Zero :: 'w
  WeightProperties :: "64 word"

text \<open>
  Constants that the sources use and that are declared in headers which are not among
  them (fst.h, properties.h, matcher.h, weight.h). Every function below that needs one
  takes this record as its first argument, and the theorems hold for every choice of
  the values.
\<close>

record LibConstants =
  kNoLabel :: int
  kNoStateId :: int
  kRequirePriority :: int
  kRequireMatch :: "32 word"
  kError :: "64 word"
  kUnweighted :: "64 word"
  kCommutative :: "64 word"
  kFstProperties :: "64 word"
  kCopyProperties :: "64 word"
  kAccessible :: "64 word"
  kCoAccessible :: "64 word"

datatype MatchType = MATCH_INPUT | MATCH_OUTPUT | MATCH_BOTH | MATCH_NONE | MATCH_UNKNOWN

text \<open>
  The query interface \<open>Fst<Arc>\<close>: its virtual members are the fields. \<open>ArcIterator\<close>
  gives the arcs of a state in iteration order.
\<close>

record 'w Fst =
  Start :: int
  Final :: "int \<Rightarrow> 'w"
  ArcIterator :: "int \<Rightarrow> 'w Arc list"
  InputSymbols :: "SymbolTable option"
  OutputSymbols :: "SymbolTable option"
  Properties :: "64 word \<Rightarrow> bool \<Rightarrow> 64 word"

text \<open>
  A matcher (matcher.h is not among the sources; these are the members composition
  calls). \<open>SetState\<close> stores the state in \<open>mstate\<close>; \<open>MFind m s l\<close> is the result of
  \<open>Find(l)\<close> on a matcher positioned at \<open>s\<close>, and \<open>MValues m s l\<close> the arcs that
  \<open>Value()\<close> yields from then on until \<open>Done()\<close>, in that order.
\<close>

record 'w Matcher =
  mstate :: int
  MFind :: "int \<Rightarrow> int \<Rightarrow> bool"
  MValues :: "int \<Rightarrow> int \<Rightarrow> 'w Arc list"
  Priority :: "int \<Rightarrow> int"
  MFinal :: "int \<Rightarrow> 'w"
  MType :: "bool \<Rightarrow> MatchType"
  MFlags :: "32 word"
  MProperties :: "64 word \<Rightarrow> 64 word"

definition SetState :: "'w Matcher \<Rightarrow> int \<Rightarrow> 'w Matcher" where
  "SetState m s = m\<lparr>mstate := s\<rparr>"

text \<open>
  A composition filter (compose-filter.h is not among the sources). \<open>SetState(s1, s2, fs)\<close>
  positions the filter; the position is the first argument of \<open>FilterArc\<close> and
  \<open>FilterFinal\<close>, which return what the source writes through their pointer arguments
  together with, for \<open>FilterArc\<close>, the filter state it returns.
\<close>

record ('w, 'f) ComposeFilter =
  FilterStart :: 'f
  NoState :: 'f
  FilterArc :: "int \<times> int \<times> 'f \<Rightarrow> 'w Arc \<Rightarrow> 'w Arc \<Rightarrow> 'w Arc \<times> 'w Arc \<times> 'f"
  FilterFinal :: "int \<times> int \<times> 'f \<Rightarrow> 'w \<Rightarrow> 'w \<Rightarrow> 'w \<times> 'w"
  FilterProperties :: "64 word \<Rightarrow> 64 word"

subsection \<open>The composition state table\<close>

text \<open>
  Modelled from the spec: the composition state table of state-table.h, which is not
  among the sources. It interns tuples \<open>(s1, s2, filter state)\<close>: ids are issued in
  insertion order starting at 0, \<open>FindState\<close> finds or inserts, \<open>Tuple\<close> recovers the
  tuple of an id. An id that was never issued has no tuple (\<open>None\<close>).
\<close>

type_synonym 'f StateTuple = "int \<times> int \<times> 'f"

fun tuple_index :: "nat \<Rightarrow> 'a list \<Rightarrow> 'a \<Rightarrow> nat option" where
  "tuple_index i [] t = None"
| "tuple_index i (x # xs) t = (if x = t then Some i else tuple_index (Suc i) xs t)"

definition FindState :: "'a list \<Rightarrow> 'a \<Rightarrow> int \<times> 'a list" where
  "FindState table t =
     (case tuple_index 0 table t of
        Some i \<Rightarrow> (int i, table)
      | None \<Rightarrow> (int (length table), table @ [t]))"

definition Tuple :: "'a list \<Rightarrow> int \<Rightarrow> 'a option" where
  "Tuple table s = (if 0 \<le> s \<and> s < int (length table) then Some (table ! nat s) else None)"

subsection \<open>The cache\<close>

text \<open>
  Modelled from the spec: the cache store of cache.h, which is not among the sources.
  A cache entry holds the final weight, the arc list and the flags "final computed" and
  "arcs expanded". \<open>PushArc\<close> appends an arc to the entry of a state, \<open>SetArcs\<close> marks
  the entry "arcs expanded", \<open>SetFinal\<close> records the final weight.
\<close>

record 'w CacheState =
  cs_final :: 'w
  cs_arcs :: "'w Arc list"
  cs_has_final :: bool
  cs_has_arcs :: bool

section \<open>Delayed composition (compose.h)\<close>

text \<open>
  \<open>ComposeFstImplBase\<close> with what it inherits from \<open>FstImpl\<close> and \<open>CacheBaseImpl\<close>,
  and \<open>ComposeFstImpl\<close>, which extends it. The filter's position is the field
  \<open>filter_pos\<close>; the state table's sticky error bit is \<open>state_table_error\<close>.
\<close>

record 'w ComposeFstImplBase =
  fst_type :: string
  properties :: "64 word"
  isymbols :: "SymbolTable option"
  osymbols :: "SymbolTable option"
  cache_start :: "int option"
  cache :: "int \<Rightarrow> 'w CacheState"

record ('w, 'f) ComposeFstImpl = "'w ComposeFstImplBase" +
  cfilter :: "('w, 'f) ComposeFilter"
  filter_pos :: "'f StateTuple"
  matcher1 :: "'w Matcher"
  matcher2 :: "'w Matcher"
  fst1 :: "'w Fst"
  fst2 :: "'w Fst"
  state_table :: "'f StateTuple list"
  state_table_error :: bool
  match_type :: MatchType

text \<open>
  Modelled from the spec: \<open>FstImpl::SetProperties(props, mask)\<close> of fst.h, which is not
  among the sources. It overwrites the bits of the mask with those of \<open>props\<close>, except
  that the error bit is sticky: once set it is never cleared.
\<close>

definition SetProperties ::
  "LibConstants \<Rightarrow> 64 word \<Rightarrow> 64 word \<Rightarrow>
   ('w, 'z) ComposeFstImplBase_scheme \<Rightarrow> ('w, 'z) ComposeFstImplBase_scheme" where
  "SetProperties K props msk i =
     i\<lparr>properties := (properties i AND (NOT msk OR kError K)) OR (props AND msk)\<rparr>"

definition PushArc ::
  "int \<Rightarrow> 'w Arc \<Rightarrow> ('w, 'z) ComposeFstImplBase_scheme \<Rightarrow> ('w, 'z) ComposeFstImplBase_scheme" where
  "PushArc s arc i =
     i\<lparr>cache := (cache i)(s := (cache i s)\<lparr>cs_arcs := cs_arcs (cache i s) @ [arc]\<rparr>)\<rparr>"

definition SetArcs ::
  "int \<Rightarrow> ('w, 'z) ComposeFstImplBase_scheme \<Rightarrow> ('w, 'z) ComposeFstImplBase_scheme" where
  "SetArcs s i = i\<lparr>cache := (cache i)(s := (cache i s)\<lparr>cs_has_arcs := True\<rparr>)\<rparr>"

definition HasArcs :: "('w, 'z) ComposeFstImplBase_scheme \<Rightarrow> int \<Rightarrow> bool" where
  "HasArcs i s = cs_has_arcs (cache i s)"

definition HasFinal :: "('w, 'z) ComposeFstImplBase_scheme \<Rightarrow> int \<Rightarrow> bool" where
  "HasFinal i s = cs_has_final (cache i s)"

definition SetFinal ::
  "int \<Rightarrow> 'w \<Rightarrow> ('w, 'z) ComposeFstImplBase_scheme \<Rightarrow> ('w, 'z) ComposeFstImplBase_scheme" where
  "SetFinal s w i =
     i\<lparr>cache := (cache i)(s := (cache i s)\<lparr>cs_final := w, cs_has_final := True\<rparr>)\<rparr>"

text \<open>\<open>ComposeFstImplBase::InitBase\<close>.\<close>

definition InitBase ::
  "LibConstants \<Rightarrow> bool \<Rightarrow> (SymbolTableImpl \<Rightarrow> SymbolTableImpl) \<Rightarrow> 'w Fst \<Rightarrow> 'w Fst \<Rightarrow>
   ('w, 'z) ComposeFstImplBase_scheme \<Rightarrow> ('w, 'z) ComposeFstImplBase_scheme" where
  "InitBase K FLAGS_fst_compat_symbols recompute f1 f2 i =
     (let i1 = i\<lparr>fst_type := ''compose''\<rparr>;
          i2 = (if \<not> CompatSymbols FLAGS_fst_compat_symbols recompute
                        (InputSymbols f2) (OutputSymbols f1)
                then SetProperties K (kError K) (kError K) i1 else i1)
      in i2\<lparr>isymbols := InputSymbols f1, osymbols := OutputSymbols f2\<rparr>)"

text \<open>\<open>ComposeFstImpl::SetMatchType\<close>.\<close>

definition SetMatchType ::
  "LibConstants \<Rightarrow> ('w, 'f) ComposeFstImpl \<Rightarrow> ('w, 'f) ComposeFstImpl" where
  "SetMatchType K i =
     (if MFlags (matcher1 i) AND kRequireMatch K \<noteq> 0 \<and> MType (matcher1 i) True \<noteq> MATCH_OUTPUT
        then i\<lparr>match_type := MATCH_NONE\<rparr>
      else if MFlags (matcher2 i) AND kRequireMatch K \<noteq> 0 \<and> MType (matcher2 i) True \<noteq> MATCH_INPUT
        then i\<lparr>match_type := MATCH_NONE\<rparr>
      else
        (let type1 = MType (matcher1 i) False;
             type2 = MType (matcher2 i) False
         in if type1 = MATCH_OUTPUT \<and> type2 = MATCH_INPUT then i\<lparr>match_type := MATCH_BOTH\<rparr>
            else if type1 = MATCH_OUTPUT then i\<lparr>match_type := MATCH_OUTPUT\<rparr>
            else if type2 = MATCH_INPUT then i\<lparr>match_type := MATCH_INPUT\<rparr>
            else if MType (matcher1 i) True = MATCH_OUTPUT then i\<lparr>match_type := MATCH_OUTPUT\<rparr>
            else if MType (matcher2 i) True = MATCH_INPUT then i\<lparr>match_type := MATCH_INPUT\<rparr>
            else i\<lparr>match_type := MATCH_NONE\<rparr>))"

text \<open>
  The constructor \<open>ComposeFstImpl(fst1, fst2, opts)\<close>. Its argument \<open>i\<close> is the object
  after the member initialisers: the cache built from the options, and the filter, the
  matchers, their automata and the state table, taken from the options or built by
  default. \<open>ComposeProperties\<close> (properties.h) is a parameter.
\<close>

definition ComposeFstImpl_ctor ::
  "LibConstants \<Rightarrow> (64 word \<Rightarrow> 64 word \<Rightarrow> 64 word) \<Rightarrow> bool \<Rightarrow>
   (SymbolTableImpl \<Rightarrow> SymbolTableImpl) \<Rightarrow> 'w Fst \<Rightarrow> 'w Fst \<Rightarrow>
   ('w, 'f) ComposeFstImpl \<Rightarrow> ('w, 'f) ComposeFstImpl" where
  "ComposeFstImpl_ctor K ComposeProperties FLAGS_fst_compat_symbols recompute f1 f2 i =
     (let i1 = InitBase K FLAGS_fst_compat_symbols recompute f1 f2 i;
          i2 = SetMatchType K i1;
          i3 = (if match_type i2 = MATCH_NONE then SetProperties K (kError K) (kError K) i2 else i2);
          fprops1 = Properties f1 (kFstProperties K) False;
          fprops2 = Properties f2 (kFstProperties K) False;
          mprops1 = MProperties (matcher1 i3) fprops1;
          mprops2 = MProperties (matcher2 i3) fprops2;
          cprops = ComposeProperties mprops1 mprops2;
          i4 = SetProperties K (FilterProperties (cfilter i3) cprops) (kCopyProperties K) i3
      in if state_table_error i4 then SetProperties K (kError K) (kError K) i4 else i4)"

text \<open>\<open>ComposeFst::CreateBase2\<close>.\<close>

definition CreateBase2 ::
  "LibConstants \<Rightarrow> 'w Semiring \<Rightarrow> (64 word \<Rightarrow> 64 word \<Rightarrow> 64 word) \<Rightarrow> bool \<Rightarrow>
   (SymbolTableImpl \<Rightarrow> SymbolTableImpl) \<Rightarrow> 'w Fst \<Rightarrow> 'w Fst \<Rightarrow>
   ('w, 'f) ComposeFstImpl \<Rightarrow> ('w, 'f) ComposeFstImpl" where
  "CreateBase2 K W ComposeProperties FLAGS_fst_compat_symbols recompute f1 f2 opts =
     (let i = ComposeFstImpl_ctor K ComposeProperties FLAGS_fst_compat_symbols recompute f1 f2 opts
      in if WeightProperties W AND kCommutative K = 0 then
           (let props1 = Properties f1 (kUnweighted K) True;
                props2 = Properties f2 (kUnweighted K) True
            in if props1 AND kUnweighted K = 0 \<and> props2 AND kUnweighted K = 0
               then SetProperties K (kError K) (kError K) i
               else i)
         else i)"

text \<open>\<open>ComposeFstImpl::AddArc\<close>.\<close>

definition AddArc ::
  "'w Semiring \<Rightarrow> int \<Rightarrow> 'w Arc \<Rightarrow> 'w Arc \<Rightarrow> 'f \<Rightarrow>
   ('w, 'f) ComposeFstImpl \<Rightarrow> ('w, 'f) ComposeFstImpl" where
  "AddArc W s arc1 arc2 f i =
     (let tuple = (nextstate arc1, nextstate arc2, f);
          (id, table) = FindState (state_table i) tuple;
          oarc = \<lparr>ilabel = ilabel arc1, olabel = olabel arc2,
                  weight = Times W (weight arc1) (weight arc2), nextstate = id\<rparr>
      in PushArc s oarc (i\<lparr>state_table := table\<rparr>))"

text \<open>
  \<open>ComposeFstImpl::MatchArc\<close>: \<open>MatchArc_loop\<close> is the body of its \<open>for\<close> loop over the
  matcher's values.
\<close>

fun MatchArc_loop ::
  "'w Semiring \<Rightarrow> int \<Rightarrow> 'w Arc \<Rightarrow> bool \<Rightarrow> 'w Arc list \<Rightarrow>
   ('w, 'f) ComposeFstImpl \<Rightarrow> ('w, 'f) ComposeFstImpl" where
  "MatchArc_loop W s arc match_input [] i = i"
| "MatchArc_loop W s arc match_input (arca # rest) i =
     (let arcb = arc in
      if match_input then
        (let (arcb', arca', f) = FilterArc (cfilter i) (filter_pos i) arcb arca
         in MatchArc_loop W s arc match_input rest
              (if f \<noteq> NoState (cfilter i) then AddArc W s arcb' arca' f i else i))
      else
        (let (arca', arcb', f) = FilterArc (cfilter i) (filter_pos i) arca arcb
         in MatchArc_loop W s arc match_input rest
              (if f \<noteq> NoState (cfilter i) then AddArc W s arca' arcb' f i else i)))"

definition MatchArc ::
  "'w Semiring \<Rightarrow> int \<Rightarrow> 'w Matcher \<Rightarrow> 'w Arc \<Rightarrow> bool \<Rightarrow>
   ('w, 'f) ComposeFstImpl \<Rightarrow> ('w, 'f) ComposeFstImpl" where
  "MatchArc W s matchera arc match_input i =
     (let label = (if match_input then olabel arc else ilabel arc) in
      if MFind matchera (mstate matchera) label
      then MatchArc_loop W s arc match_input (MValues matchera (mstate matchera) label) i
      else i)"

text \<open>
  \<open>ComposeFstImpl::OrderedExpand\<close>: \<open>loop_arc\<close> is its local arc \<open>loop\<close>, the
  non-consuming self-loop at \<open>sb\<close>, and \<open>OrderedExpand_loop\<close> is its \<open>for\<close> loop over
  the arcs of \<open>fstb\<close> at \<open>sb\<close>.
\<close>

definition loop_arc :: "LibConstants \<Rightarrow> 'w Semiring \<Rightarrow> bool \<Rightarrow> int \<Rightarrow> 'w Arc" where
  "loop_arc K W match_input sb =
     \<lparr>ilabel = (if match_input then 0 else kNoLabel K),
      olabel = (if match_input then kNoLabel K else 0),
      weight = One W, nextstate = sb\<rparr>"

fun OrderedExpand_loop ::
  "'w Semiring \<Rightarrow> int \<Rightarrow> 'w Matcher \<Rightarrow> bool \<Rightarrow> 'w Arc list \<Rightarrow>
   ('w, 'f) ComposeFstImpl \<Rightarrow> ('w, 'f) ComposeFstImpl" where
  "OrderedExpand_loop W s matchera match_input [] i = i"
| "OrderedExpand_loop W s matchera match_input (arc # iterb) i =
     OrderedExpand_loop W s matchera match_input iterb (MatchArc W s matchera arc match_input i)"

definition OrderedExpand ::
  "LibConstants \<Rightarrow> 'w Semiring \<Rightarrow> int \<Rightarrow> 'w Fst \<Rightarrow> int \<Rightarrow> 'w Fst \<Rightarrow> int \<Rightarrow> 'w Matcher \<Rightarrow> bool \<Rightarrow>
   ('w, 'f) ComposeFstImpl \<Rightarrow> ('w, 'f) ComposeFstImpl" where
  "OrderedExpand K W s fsta sa fstb sb matchera0 match_input i =
     (let matchera = SetState matchera0 sa;
          loop = loop_arc K W match_input sb;
          i1 = MatchArc W s matchera loop match_input i;
          i2 = OrderedExpand_loop W s matchera match_input (ArcIterator fstb sb) i1
      in SetArcs s i2)"

text \<open>\<open>ComposeFstImpl::MatchInput\<close>; it returns its result and the object, whose error
  property it may set.\<close>

definition MatchInput ::
  "LibConstants \<Rightarrow> int \<Rightarrow> int \<Rightarrow> ('w, 'f) ComposeFstImpl \<Rightarrow> bool \<times> ('w, 'f) ComposeFstImpl" where
  "MatchInput K s1 s2 i =
     (case match_type i of
        MATCH_INPUT \<Rightarrow> (True, i)
      | MATCH_OUTPUT \<Rightarrow> (False, i)
      | _ \<Rightarrow>
          (let priority1 = Priority (matcher1 i) s1;
               priority2 = Priority (matcher2 i) s2
           in if priority1 = kRequirePriority K \<and> priority2 = kRequirePriority K
                then (True, SetProperties K (kError K) (kError K) i)
              else if priority1 = kRequirePriority K then (False, i)
              else if priority2 = kRequirePriority K then (True, i)
              else (priority1 \<le> priority2, i)))"

text \<open>
  \<open>ComposeFstImpl::Expand\<close>. The source reads the tuple of \<open>s\<close> unchecked; for an id
  that the state table never issued the result is \<open>None\<close>.
\<close>

definition Expand ::
  "LibConstants \<Rightarrow> 'w Semiring \<Rightarrow> int \<Rightarrow> ('w, 'f) ComposeFstImpl \<Rightarrow> ('w, 'f) ComposeFstImpl option" where
  "Expand K W s i =
     (case Tuple (state_table i) s of
        None \<Rightarrow> None
      | Some (s1, s2, fs) \<Rightarrow>
          (let i1 = i\<lparr>filter_pos := (s1, s2, fs)\<rparr>;
               (mi, i2) = MatchInput K s1 s2 i1
           in if mi
              then Some (OrderedExpand K W s (fst2 i2) s2 (fst1 i2) s1 (matcher2 i2) True i2)
              else Some (OrderedExpand K W s (fst1 i2) s1 (fst2 i2) s2 (matcher1 i2) False i2)))"

text \<open>\<open>ComposeFstImpl::ComputeFinal\<close>; it returns the weight and the object, whose filter
  it may position.\<close>

definition ComputeFinal ::
  "'w Semiring \<Rightarrow> int \<Rightarrow> ('w, 'f) ComposeFstImpl \<Rightarrow> ('w \<times> ('w, 'f) ComposeFstImpl) option" where
  "ComputeFinal W s i =
     (case Tuple (state_table i) s of
        None \<Rightarrow> None
      | Some (s1, s2, fs) \<Rightarrow>
          (let final1 = MFinal (matcher1 i) s1 in
           if final1 = Zero W then Some (final1, i)
           else
             (let final2 = MFinal (matcher2 i) s2 in
              if final2 = Zero W then Some (final2, i)
              else
                (let i1 = i\<lparr>filter_pos := (s1, s2, fs)\<rparr>;
                     (final1', final2') = FilterFinal (cfilter i1) (filter_pos i1) final1 final2
                 in Some (Times W final1' final2', i1)))))"

text \<open>\<open>ComposeFstImplBase::Final\<close>.\<close>

definition ComposeFinal ::
  "'w Semiring \<Rightarrow> int \<Rightarrow> ('w, 'f) ComposeFstImpl \<Rightarrow> ('w \<times> ('w, 'f) ComposeFstImpl) option" where
  "ComposeFinal W s i =
     (if \<not> HasFinal i s then
        (case ComputeFinal W s i of
           None \<Rightarrow> None
         | Some (w, i1) \<Rightarrow> let i2 = SetFinal s w i1 in Some (cs_final (cache i2 s), i2))
      else Some (cs_final (cache i s), i))"

text \<open>
  \<open>ComposeFstImplBase::InitArcIterator\<close> and \<open>NumArcs\<close>: the state is expanded on
  first access, and the arcs are then read from the cache.
\<close>

definition InitArcIterator ::
  "LibConstants \<Rightarrow> 'w Semiring \<Rightarrow> int \<Rightarrow> ('w, 'f) ComposeFstImpl \<Rightarrow>
   ('w Arc list \<times> ('w, 'f) ComposeFstImpl) option" where
  "InitArcIterator K W s i =
     (case (if \<not> HasArcs i s then Expand K W s i else Some i) of
        None \<Rightarrow> None
      | Some i1 \<Rightarrow> Some (cs_arcs (cache i1 s), i1))"

definition NumArcs ::
  "LibConstants \<Rightarrow> 'w Semiring \<Rightarrow> int \<Rightarrow> ('w, 'f) ComposeFstImpl \<Rightarrow>
   (nat \<times> ('w, 'f) ComposeFstImpl) option" where
  "NumArcs K W s i =
     (case (if \<not> HasArcs i s then Expand K W s i else Some i) of
        None \<Rightarrow> None
      | Some i1 \<Rightarrow> Some (length (cs_arcs (cache i1 s)), i1))"

section \<open>Mutable automata\<close>

text \<open>
  The mutable automaton that \<open>Invert\<close> and \<open>Connect\<close> modify: a vector of states, each
  with its final weight and its arcs in order, the start state, the two symbol tables
  and the property bits. State ids are the positions in the vector.
\<close>

record 'w VectorState =
  st_final :: 'w
  st_arcs :: "'w Arc list"

record 'w MutableFst =
  mstart :: int
  mstates :: "'w VectorState list"
  m_isymbols :: "SymbolTable option"
  m_osymbols :: "SymbolTable option"
  m_properties :: "64 word"

text \<open>
  Modelled from the spec: the members of the mutable store that set the symbol tables and
  the property bits (mutable-fst.h and fst.h are not among the sources). Setting a symbol
  table stores a copy of the table or clears it; setting properties overwrites the bits of
  the mask, the error bit being sticky.
\<close>

definition Copy :: "SymbolTable \<Rightarrow> SymbolTable" where
  "Copy t = t"

definition SetInputSymbols :: "SymbolTable option \<Rightarrow> 'w MutableFst \<Rightarrow> 'w MutableFst" where
  "SetInputSymbols syms f = f\<lparr>m_isymbols := map_option Copy syms\<rparr>"

definition SetOutputSymbols :: "SymbolTable option \<Rightarrow> 'w MutableFst \<Rightarrow> 'w MutableFst" where
  "SetOutputSymbols syms f = f\<lparr>m_osymbols := map_option Copy syms\<rparr>"

definition MSetProperties ::
  "LibConstants \<Rightarrow> 64 word \<Rightarrow> 64 word \<Rightarrow> 'w MutableFst \<Rightarrow> 'w MutableFst" where
  "MSetProperties K props msk f =
     f\<lparr>m_properties := (m_properties f AND (NOT msk OR kError K)) OR (props AND msk)\<rparr>"

section \<open>Inversion (invert.h)\<close>

datatype MapFinalAction = MAP_NO_SUPERFINAL | MAP_ALLOW_SUPERFINAL | MAP_REQUIRE_SUPERFINAL

datatype MapSymbolsAction = MAP_CLEAR_SYMBOLS | MAP_COPY_SYMBOLS | MAP_NOOP_SYMBOLS

text \<open>An arc mapper: its call operator and the members that \<open>ArcMap\<close> consults.\<close>

record 'w ArcMapper =
  map_arc :: "'w Arc \<Rightarrow> 'w Arc"
  FinalAction :: MapFinalAction
  InputSymbolsAction :: MapSymbolsAction
  OutputSymbolsAction :: MapSymbolsAction
  MapperProperties :: "64 word \<Rightarrow> 64 word"

text \<open>
  \<open>InvertMapper\<close>; \<open>InvertProperties\<close> (properties.h) is a parameter.
\<close>

definition InvertMapper :: "(64 word \<Rightarrow> 64 word) \<Rightarrow> 'w ArcMapper" where
  "InvertMapper InvertProperties =
     \<lparr>map_arc = (\<lambda>arc. \<lparr>ilabel = olabel arc, olabel = ilabel arc, weight = weight arc,
                          nextstate = nextstate arc\<rparr>),
      FinalAction = MAP_NO_SUPERFINAL,
      InputSymbolsAction = MAP_CLEAR_SYMBOLS,
      OutputSymbolsAction = MAP_CLEAR_SYMBOLS,
      MapperProperties = InvertProperties\<rparr>"

text \<open>
  Modelled from the spec: \<open>ArcMap(fst, mapper)\<close> of arc-map.h, which is not among the
  sources. It maps the automaton in place: a symbol table is cleared when the mapper asks
  for it, every arc of every state is replaced by its image, and, for a mapper that
  introduces no superfinal state, the final weight of a state becomes the weight of the
  image of the arc \<open>(0, 0, final, kNoStateId)\<close>, with the error property set if that image
  has a non-zero label; the properties become those the mapper derives. The superfinal
  actions, which \<open>InvertMapper\<close> does not use, leave the final weights as they are here.
\<close>

definition map_final ::
  "LibConstants \<Rightarrow> 'w ArcMapper \<Rightarrow> 'w \<Rightarrow> 'w Arc" where
  "map_final K mapper w =
     map_arc mapper \<lparr>ilabel = 0, olabel = 0, weight = w, nextstate = kNoStateId K\<rparr>"

definition ArcMap_state :: "LibConstants \<Rightarrow> 'w ArcMapper \<Rightarrow> 'w VectorState \<Rightarrow> 'w VectorState" where
  "ArcMap_state K mapper st =
     \<lparr>st_final = (if FinalAction mapper = MAP_NO_SUPERFINAL
                   then weight (map_final K mapper (st_final st)) else st_final st),
      st_arcs = map (map_arc mapper) (st_arcs st)\<rparr>"

definition ArcMap :: "LibConstants \<Rightarrow> 'w ArcMapper \<Rightarrow> 'w MutableFst \<Rightarrow> 'w MutableFst" where
  "ArcMap K mapper f =
     (let f1 = (if InputSymbolsAction mapper = MAP_CLEAR_SYMBOLS then SetInputSymbols None f else f);
          f2 = (if OutputSymbolsAction mapper = MAP_CLEAR_SYMBOLS then SetOutputSymbols None f1 else f1);
          props = m_properties f2;
          bad = (FinalAction mapper = MAP_NO_SUPERFINAL \<and>
                 (\<exists>st \<in> set (mstates f2).
                    ilabel (map_final K mapper (st_final st)) \<noteq> 0 \<or>
                    olabel (map_final K mapper (st_final st)) \<noteq> 0));
          f3 = f2\<lparr>mstates := map (ArcMap_state K mapper) (mstates f2)\<rparr>;
          f4 = (if bad then MSetProperties K (kError K) (kError K) f3 else f3)
      in MSetProperties K (MapperProperties mapper props) (kFstProperties K) f4)"

text \<open>\<open>Invert\<close>, the version that modifies its argument.\<close>

definition Invert ::
  "LibConstants \<Rightarrow> (64 word \<Rightarrow> 64 word) \<Rightarrow> 'w MutableFst \<Rightarrow> 'w MutableFst" where
  "Invert K InvertProperties f =
     (let input = map_option Copy (m_isymbols f);
          output = map_option Copy (m_osymbols f);
          f1 = ArcMap K (InvertMapper InvertProperties) f;
          f2 = SetInputSymbols output f1
      in SetOutputSymbols input f2)"


section \<open>Connect (connect.h)\<close>

text \<open>
  The vectors of the visitor are indexed by state ids without a check. A read or a write
  outside a vector is undefined behaviour in the source and \<open>None\<close> here.
\<close>

definition vget :: "'a list \<Rightarrow> int \<Rightarrow> 'a option" where
  "vget xs i = (if 0 \<le> i \<and> i < int (length xs) then Some (xs ! nat i) else None)"

definition vset :: "'a list \<Rightarrow> int \<Rightarrow> 'a \<Rightarrow> 'a list option" where
  "vset xs i x = (if 0 \<le> i \<and> i < int (length xs) then Some (xs[nat i := x]) else None)"

text \<open>
  The property bits that the visitor sets and clears, declared in properties.h, which is
  not among the sources.
\<close>

record SccConstants =
  kCyclic :: "64 word"
  kAcyclic :: "64 word"
  kInitialCyclic :: "64 word"
  kInitialAcyclic :: "64 word"
  kNotAccessible :: "64 word"
  kNotCoAccessible :: "64 word"

text \<open>
  \<open>SccVisitor\<close>. The three result vectors are pointers that may be null (\<open>None\<close>); the
  automaton it points to is an argument of the members that read it. \<open>scc_stack\<close> is
  kept with its back first, so that \<open>push_back\<close> is \<open>#\<close> and \<open>back\<close> the head.
\<close>

record SccVisitor =
  scc :: "int list option"
  access :: "bool list option"
  coaccess :: "bool list option"
  props :: "64 word"
  vstart :: int
  nstates :: int
  nscc :: int
  coaccess_internal :: bool
  dfnumber :: "int list"
  lowlink :: "int list"
  onstack :: "bool list"
  scc_stack :: "int list"

text \<open>The visitor as \<open>Connect\<close> constructs it: no \<open>scc\<close> vector, and two empty vectors.\<close>

definition SccVisitor_ctor ::
  "int list option \<Rightarrow> bool list option \<Rightarrow> bool list option \<Rightarrow> 64 word \<Rightarrow> SccVisitor" where
  "SccVisitor_ctor sc ac co pr =
     \<lparr>scc = sc, access = ac, coaccess = co, props = pr, vstart = 0, nstates = 0, nscc = 0,
      coaccess_internal = False, dfnumber = [], lowlink = [], onstack = [], scc_stack = []\<rparr>"

text \<open>\<open>SccVisitor::InitVisit\<close>.\<close>

definition InitVisit ::
  "LibConstants \<Rightarrow> SccConstants \<Rightarrow> 'w MutableFst \<Rightarrow> SccVisitor \<Rightarrow> SccVisitor" where
  "InitVisit K C f v =
     v\<lparr>scc := map_option (\<lambda>x. []) (scc v),
       access := map_option (\<lambda>x. []) (access v),
       coaccess := Some [],
       coaccess_internal := (coaccess v = None),
       props := (props v OR (kAcyclic C OR kInitialAcyclic C OR kAccessible K OR kCoAccessible K))
                AND NOT (kCyclic C OR kInitialCyclic C OR kNotAccessible C OR kNotCoAccessible C),
       vstart := mstart f, nstates := 0, nscc := 0,
       dfnumber := [], lowlink := [], onstack := [], scc_stack := []\<rparr>"

text \<open>\<open>SccVisitor::InitState\<close>; \<open>InitState_grow\<close> is its \<open>while\<close> loop.\<close>

function InitState_grow :: "int \<Rightarrow> SccVisitor \<Rightarrow> SccVisitor option" where
  "InitState_grow s v =
     (if int (length (dfnumber v)) \<le> s then
        (case coaccess v of
           None \<Rightarrow> None
         | Some co \<Rightarrow>
             InitState_grow s
               (v\<lparr>scc := map_option (\<lambda>x. x @ [-1]) (scc v),
                  access := map_option (\<lambda>x. x @ [False]) (access v),
                  coaccess := Some (co @ [False]),
                  dfnumber := dfnumber v @ [-1],
                  lowlink := lowlink v @ [-1],
                  onstack := onstack v @ [False]\<rparr>))
      else Some v)"
  by pat_completeness auto
termination
  by (relation "measure (\<lambda>(s, v). nat (s + 1 - int (length (dfnumber v))))") auto

definition InitState ::
  "LibConstants \<Rightarrow> SccConstants \<Rightarrow> int \<Rightarrow> int \<Rightarrow> SccVisitor \<Rightarrow> SccVisitor option" where
  "InitState K C s root v0 =
     do {
       v1 \<leftarrow> InitState_grow s (v0\<lparr>scc_stack := s # scc_stack v0\<rparr>);
       dn \<leftarrow> vset (dfnumber v1) s (nstates v1);
       ll \<leftarrow> vset (lowlink v1) s (nstates v1);
       os \<leftarrow> vset (onstack v1) s True;
       let v2 = v1\<lparr>dfnumber := dn, lowlink := ll, onstack := os\<rparr>;
       v3 \<leftarrow> (if root = vstart v2 then
                (case access v2 of
                   None \<Rightarrow> Some v2
                 | Some ac \<Rightarrow> do { ac' \<leftarrow> vset ac s True; Some (v2\<lparr>access := Some ac'\<rparr>) })
              else
                do {
                  v' \<leftarrow> (case access v2 of
                           None \<Rightarrow> Some v2
                         | Some ac \<Rightarrow> do { ac' \<leftarrow> vset ac s False; Some (v2\<lparr>access := Some ac'\<rparr>) });
                  Some (v'\<lparr>props := (props v' OR kNotAccessible C) AND NOT (kAccessible K)\<rparr>)
                });
       Some (v3\<lparr>nstates := nstates v3 + 1\<rparr>)
     }"

text \<open>
  \<open>SccVisitor::BackArc\<close> and \<open>SccVisitor::ForwardOrCrossArc\<close>. Like \<open>InitState\<close> and
  \<open>TreeArc\<close> they always return \<open>true\<close>, so the result here is the visitor alone.
\<close>

definition BackArc ::
  "SccConstants \<Rightarrow> int \<Rightarrow> 'w Arc \<Rightarrow> SccVisitor \<Rightarrow> SccVisitor option" where
  "BackArc C s arc v =
     do {
       let t = nextstate arc;
       dt \<leftarrow> vget (dfnumber v) t;
       ls \<leftarrow> vget (lowlink v) s;
       ll \<leftarrow> (if dt < ls then vset (lowlink v) s dt else Some (lowlink v));
       co \<leftarrow> coaccess v;
       ct \<leftarrow> vget co t;
       co' \<leftarrow> (if ct then vset co s True else Some co);
       let pr = (props v OR kCyclic C) AND NOT (kAcyclic C);
       let pr' = (if nextstate arc = vstart v
                  then (pr OR kInitialCyclic C) AND NOT (kInitialAcyclic C) else pr);
       Some (v\<lparr>lowlink := ll, coaccess := Some co', props := pr'\<rparr>)
     }"

definition ForwardOrCrossArc :: "int \<Rightarrow> 'w Arc \<Rightarrow> SccVisitor \<Rightarrow> SccVisitor option" where
  "ForwardOrCrossArc s arc v =
     do {
       let t = nextstate arc;
       dt \<leftarrow> vget (dfnumber v) t;
       ds \<leftarrow> vget (dfnumber v) s;
       ll \<leftarrow> (if dt < ds then
                do {
                  ot \<leftarrow> vget (onstack v) t;
                  if ot then
                    do {
                      ls \<leftarrow> vget (lowlink v) s;
                      if dt < ls then vset (lowlink v) s dt else Some (lowlink v)
                    }
                  else Some (lowlink v)
                }
              else Some (lowlink v));
       co \<leftarrow> coaccess v;
       ct \<leftarrow> vget co t;
       co' \<leftarrow> (if ct then vset co s True else Some co);
       Some (v\<lparr>lowlink := ll, coaccess := Some co'\<rparr>)
     }"

definition TreeArc :: "int \<Rightarrow> 'w Arc \<Rightarrow> SccVisitor \<Rightarrow> SccVisitor" where
  "TreeArc s arc v = v"

text \<open>
  \<open>SccVisitor::FinishState\<close>. \<open>FinishState_scan\<close> is its first \<open>do\<close> loop, which walks
  down the stack to \<open>s\<close> and collects the co-accessibility of the component, and
  \<open>FinishState_pop\<close> its second, which pops the component. Walking past the bottom of
  the stack is undefined behaviour in the source.
\<close>

fun FinishState_scan :: "int \<Rightarrow> bool list \<Rightarrow> int list \<Rightarrow> bool \<Rightarrow> bool option" where
  "FinishState_scan s co [] scc_coaccess = None"
| "FinishState_scan s co (t # stack) scc_coaccess =
     do {
       ct \<leftarrow> vget co t;
       let scc_coaccess' = (if ct then True else scc_coaccess);
       if s \<noteq> t then FinishState_scan s co stack scc_coaccess' else Some scc_coaccess'
     }"

fun FinishState_pop :: "int \<Rightarrow> bool \<Rightarrow> int list \<Rightarrow> SccVisitor \<Rightarrow> SccVisitor option" where
  "FinishState_pop s scc_coaccess [] v = None"
| "FinishState_pop s scc_coaccess (t # stack) v =
     do {
       sc \<leftarrow> (case scc v of
                None \<Rightarrow> Some None
              | Some x \<Rightarrow> do { x' \<leftarrow> vset x t (nscc v); Some (Some x') });
       co \<leftarrow> coaccess v;
       co' \<leftarrow> (if scc_coaccess then vset co t True else Some co);
       os \<leftarrow> vset (onstack v) t False;
       let v' = v\<lparr>scc := sc, coaccess := Some co', onstack := os, scc_stack := stack\<rparr>;
       if s \<noteq> t then FinishState_pop s scc_coaccess stack v' else Some v'
     }"

text \<open>The reads of the automaton that the visitor and the traversal make.\<close>

definition FstFinal :: "'w MutableFst \<Rightarrow> int \<Rightarrow> 'w option" where
  "FstFinal f s = map_option st_final (vget (mstates f) s)"

definition FstArcs :: "'w MutableFst \<Rightarrow> int \<Rightarrow> 'w Arc list option" where
  "FstArcs f s = map_option st_arcs (vget (mstates f) s)"

text \<open>
  The two blocks of \<open>FinishState\<close>: \<open>FinishState_scc\<close> is the body of
  \<open>if (dfnumber[s] == lowlink[s])\<close>, for the root of a new component, and
  \<open>FinishState_parent\<close> the body of \<open>if (p != kNoStateId)\<close>.
\<close>

definition FinishState_scc ::
  "LibConstants \<Rightarrow> SccConstants \<Rightarrow> int \<Rightarrow> SccVisitor \<Rightarrow> SccVisitor option" where
  "FinishState_scc K C s v =
     do {
       co \<leftarrow> coaccess v;
       scc_coaccess \<leftarrow> FinishState_scan s co (scc_stack v) False;
       v' \<leftarrow> FinishState_pop s scc_coaccess (scc_stack v) v;
       let v'' = (if \<not> scc_coaccess
                  then v'\<lparr>props := (props v' OR kNotCoAccessible C) AND NOT (kCoAccessible K)\<rparr>
                  else v');
       Some (v''\<lparr>nscc := nscc v'' + 1\<rparr>)
     }"

definition FinishState_parent :: "int \<Rightarrow> int \<Rightarrow> SccVisitor \<Rightarrow> SccVisitor option" where
  "FinishState_parent s p v =
     do {
       co \<leftarrow> coaccess v;
       cs \<leftarrow> vget co s;
       co' \<leftarrow> (if cs then vset co p True else Some co);
       ls \<leftarrow> vget (lowlink v) s;
       lp \<leftarrow> vget (lowlink v) p;
       ll \<leftarrow> (if ls < lp then vset (lowlink v) p ls else Some (lowlink v));
       Some (v\<lparr>coaccess := Some co', lowlink := ll\<rparr>)
     }"

definition FinishState ::
  "LibConstants \<Rightarrow> SccConstants \<Rightarrow> 'w Semiring \<Rightarrow> 'w MutableFst \<Rightarrow> int \<Rightarrow> int \<Rightarrow>
   SccVisitor \<Rightarrow> SccVisitor option" where
  "FinishState K C W f s p v0 =
     do {
       final \<leftarrow> FstFinal f s;
       co0 \<leftarrow> coaccess v0;
       co1 \<leftarrow> (if final \<noteq> Zero W then vset co0 s True else Some co0);
       let v1 = v0\<lparr>coaccess := Some co1\<rparr>;
       ds \<leftarrow> vget (dfnumber v1) s;
       ls \<leftarrow> vget (lowlink v1) s;
       v2 \<leftarrow> (if ds = ls then FinishState_scc K C s v1 else Some v1);
       if p \<noteq> kNoStateId K then FinishState_parent s p v2 else Some v2
     }"

text \<open>\<open>SccVisitor::FinishVisit\<close>.\<close>

definition FinishVisit :: "SccVisitor \<Rightarrow> SccVisitor" where
  "FinishVisit v =
     v\<lparr>scc := map_option (map (\<lambda>x. nscc v - 1 - x)) (scc v),
       coaccess := (if coaccess_internal v then None else coaccess v),
       dfnumber := [], lowlink := [], onstack := [], scc_stack := []\<rparr>"

subsection \<open>The depth-first traversal\<close>

datatype DfsColor = kDfsWhite | kDfsGrey | kDfsBlack

text \<open>
  Modelled from the spec: \<open>DfsVisit\<close> of dfs-visit.h, which is not among the sources: a
  single depth-first search of the whole automaton that calls the visitor. A state is
  white until it is discovered, grey while its arcs are examined and black from then
  on. The search starts at the start state, if there is one, and then restarts at every
  state that is still white, in the order of the state ids. On discovering a state it
  calls \<open>InitState\<close> with the root of the current tree; for each arc of a grey state it
  calls \<open>TreeArc\<close> and descends if the target is white, \<open>BackArc\<close> if it is grey and
  \<open>ForwardOrCrossArc\<close> if it is black; when the arcs of a state are exhausted it calls
  \<open>FinishState\<close> with the parent of the state in the tree (\<open>kNoStateId\<close> for a root).
  The recursion is bounded by a depth, the number of states, which is never exhausted on
  an automaton whose arcs lead to existing states.
\<close>

type_synonym DfsData = "DfsColor list \<times> SccVisitor"

fun DfsArcs ::
  "(int \<Rightarrow> DfsData \<Rightarrow> DfsData option) \<Rightarrow> SccConstants \<Rightarrow> int \<Rightarrow> 'w Arc list \<Rightarrow>
   DfsData \<Rightarrow> DfsData option" where
  "DfsArcs visit C s [] cv = Some cv"
| "DfsArcs visit C s (arc # arcs) cv =
     do {
       color \<leftarrow> vget (fst cv) (nextstate arc);
       cv' \<leftarrow> (case color of
                 kDfsWhite \<Rightarrow> visit (nextstate arc) (fst cv, TreeArc s arc (snd cv))
               | kDfsGrey \<Rightarrow> do { v' \<leftarrow> BackArc C s arc (snd cv); Some (fst cv, v') }
               | kDfsBlack \<Rightarrow> do { v' \<leftarrow> ForwardOrCrossArc s arc (snd cv); Some (fst cv, v') });
       DfsArcs visit C s arcs cv'
     }"

primrec DfsState ::
  "nat \<Rightarrow> LibConstants \<Rightarrow> SccConstants \<Rightarrow> 'w Semiring \<Rightarrow> 'w MutableFst \<Rightarrow> int \<Rightarrow> int \<Rightarrow>
   int \<Rightarrow> DfsData \<Rightarrow> DfsData option" where
  "DfsState 0 K C W f root p s cv = None"
| "DfsState (Suc depth) K C W f root p s cv =
     do {
       col1 \<leftarrow> vset (fst cv) s kDfsGrey;
       v1 \<leftarrow> InitState K C s root (snd cv);
       arcs \<leftarrow> FstArcs f s;
       cv2 \<leftarrow> DfsArcs (DfsState depth K C W f root s) C s arcs (col1, v1);
       col3 \<leftarrow> vset (fst cv2) s kDfsBlack;
       v3 \<leftarrow> FinishState K C W f s p (snd cv2);
       Some (col3, v3)
     }"

fun DfsRoots ::
  "LibConstants \<Rightarrow> SccConstants \<Rightarrow> 'w Semiring \<Rightarrow> 'w MutableFst \<Rightarrow> int list \<Rightarrow>
   DfsData \<Rightarrow> DfsData option" where
  "DfsRoots K C W f [] cv = Some cv"
| "DfsRoots K C W f (root # roots) cv =
     do {
       color \<leftarrow> vget (fst cv) root;
       cv' \<leftarrow> (if color = kDfsWhite
               then DfsState (length (mstates f)) K C W f root (kNoStateId K) root cv
               else Some cv);
       DfsRoots K C W f roots cv'
     }"

definition DfsVisit ::
  "LibConstants \<Rightarrow> SccConstants \<Rightarrow> 'w Semiring \<Rightarrow> 'w MutableFst \<Rightarrow> SccVisitor \<Rightarrow>
   SccVisitor option" where
  "DfsVisit K C W f v =
     (let v0 = InitVisit K C f v;
          n = length (mstates f);
          roots = (if 0 \<le> mstart f \<and> mstart f < int n then [mstart f] else []) @ map int [0..<n]
      in do {
           cv \<leftarrow> DfsRoots K C W f roots (replicate n kDfsWhite, v0);
           Some (FinishVisit (snd cv))
         })"

subsection \<open>Deleting states\<close>

text \<open>
  Modelled from the spec: \<open>DeleteStates\<close> of the mutable store (vector-fst.h is not among
  the sources). The states listed are deleted, the remaining states keep their order and
  are renumbered densely from 0, the arcs that led to a deleted state are dropped and the
  others are redirected to the new ids; the start state is renumbered, or becomes
  \<open>kNoStateId\<close> if it was deleted.
\<close>

definition kept :: "int list \<Rightarrow> 'w MutableFst \<Rightarrow> int \<Rightarrow> bool" where
  "kept dstates f s \<longleftrightarrow> 0 \<le> s \<and> s < int (length (mstates f)) \<and> s \<notin> set dstates"

definition newid :: "int list \<Rightarrow> 'w MutableFst \<Rightarrow> int \<Rightarrow> int" where
  "newid dstates f s = int (length (filter (kept dstates f) (map int [0..<nat s])))"

definition DeleteStates_state ::
  "int list \<Rightarrow> 'w MutableFst \<Rightarrow> 'w VectorState \<Rightarrow> 'w VectorState" where
  "DeleteStates_state dstates f st =
     st\<lparr>st_arcs := map (\<lambda>a. a\<lparr>nextstate := newid dstates f (nextstate a)\<rparr>)
                       (filter (\<lambda>a. kept dstates f (nextstate a)) (st_arcs st))\<rparr>"

definition DeleteStates :: "LibConstants \<Rightarrow> int list \<Rightarrow> 'w MutableFst \<Rightarrow> 'w MutableFst" where
  "DeleteStates K dstates f =
     f\<lparr>mstates := map (\<lambda>s. DeleteStates_state dstates f (mstates f ! nat s))
                      (filter (kept dstates f) (map int [0..<length (mstates f)])),
       mstart := (if kept dstates f (mstart f) then newid dstates f (mstart f)
                  else kNoStateId K)\<rparr>"

subsection \<open>Connect\<close>

text \<open>
  \<open>Connect\<close>: \<open>Connect_dstates\<close> is its loop over the state ids below \<open>access.size()\<close>.
\<close>

fun Connect_dstates :: "bool list \<Rightarrow> bool list \<Rightarrow> int list \<Rightarrow> int list option" where
  "Connect_dstates ac co [] = Some []"
| "Connect_dstates ac co (s # ss) =
     do {
       a \<leftarrow> vget ac s;
       dstates \<leftarrow> (if \<not> a then Some [s]
                   else do { c \<leftarrow> vget co s; Some (if \<not> c then [s] else []) });
       rest \<leftarrow> Connect_dstates ac co ss;
       Some (dstates @ rest)
     }"

definition Connect ::
  "LibConstants \<Rightarrow> SccConstants \<Rightarrow> 'w Semiring \<Rightarrow> 'w MutableFst \<Rightarrow> 'w MutableFst option" where
  "Connect K C W f =
     do {
       v \<leftarrow> DfsVisit K C W f (SccVisitor_ctor None (Some []) (Some []) 0);
       ac \<leftarrow> access v;
       co \<leftarrow> coaccess v;
       dstates \<leftarrow> Connect_dstates ac co (map int [0..<length ac]);
       Some (MSetProperties K (kAccessible K OR kCoAccessible K) (kAccessible K OR kCoAccessible K)
               (DeleteStates K dstates f))
     }"


section \<open>Notions used in the statements\<close>

text \<open>
  The arc that composition emits for an accepted pair: \<open>a\<close> is the arc of the left
  operand and \<open>b\<close> the arc of the right operand, as the filter left them, and \<open>f\<close> the
  filter state it returned. The identifier is the one the state table holds for the tuple.
\<close>

definition compose_arc ::
  "'w Semiring \<Rightarrow> 'f StateTuple list \<Rightarrow> 'w Arc \<Rightarrow> 'w Arc \<Rightarrow> 'f \<Rightarrow> 'w Arc" where
  "compose_arc W table a b f =
     \<lparr>ilabel = ilabel a, olabel = olabel b, weight = Times W (weight a) (weight b),
      nextstate = fst (FindState table (nextstate a, nextstate b, f))\<rparr>"

text \<open>
  What one candidate pair \<open>(a, b)\<close> contributes: the composed arc if the filter accepts the
  pair, nothing otherwise.
\<close>

definition filtered_pair ::
  "'w Semiring \<Rightarrow> ('w, 'f) ComposeFilter \<Rightarrow> 'f StateTuple \<Rightarrow> 'f StateTuple list \<Rightarrow>
   'w Arc \<times> 'w Arc \<Rightarrow> 'w Arc list" where
  "filtered_pair W flt pos table ab =
     (case FilterArc flt pos (fst ab) (snd ab) of
        (a, b, f) \<Rightarrow> if f \<noteq> NoState flt then [compose_arc W table a b f] else [])"

text \<open>
  The pair handed to the filter, left operand first: \<open>arc\<close> is the iterated arc and
  \<open>arca\<close> the matcher's value.
\<close>

definition orient :: "bool \<Rightarrow> 'w Arc \<Rightarrow> 'w Arc \<Rightarrow> 'w Arc \<times> 'w Arc" where
  "orient match_input arc arca = (if match_input then (arc, arca) else (arca, arc))"

text \<open>
  The values of the matcher for the label of \<open>arc\<close> that is matched on, in the
  matcher's iteration order; none if \<open>Find\<close> fails.
\<close>

definition matches :: "'w Matcher \<Rightarrow> bool \<Rightarrow> 'w Arc \<Rightarrow> 'w Arc list" where
  "matches matchera match_input arc =
     (let label = (if match_input then olabel arc else ilabel arc) in
      if MFind matchera (mstate matchera) label
      then MValues matchera (mstate matchera) label else [])"

text \<open>
  The arcs emitted for one iterated arc: its matches in matcher order, each through the filter.
\<close>

definition match_group ::
  "'w Semiring \<Rightarrow> ('w, 'f) ComposeFilter \<Rightarrow> 'f StateTuple \<Rightarrow> 'f StateTuple list \<Rightarrow>
   bool \<Rightarrow> 'w Matcher \<Rightarrow> 'w Arc \<Rightarrow> 'w Arc list" where
  "match_group W flt pos table match_input matchera arc =
     concat (map (\<lambda>arca. filtered_pair W flt pos table (orient match_input arc arca))
                 (matches matchera match_input arc))"

text \<open>
  What pushing arcs at \<open>s\<close> leaves alone; the state table only grows.
\<close>

definition arcs_frame ::
  "int \<Rightarrow> ('w, 'f) ComposeFstImpl \<Rightarrow> ('w, 'f) ComposeFstImpl \<Rightarrow> bool" where
  "arcs_frame s i i' \<longleftrightarrow>
     cfilter i' = cfilter i \<and> filter_pos i' = filter_pos i \<and>
     matcher1 i' = matcher1 i \<and> matcher2 i' = matcher2 i \<and>
     fst1 i' = fst1 i \<and> fst2 i' = fst2 i \<and> match_type i' = match_type i \<and>
     properties i' = properties i \<and>
     cs_has_arcs (cache i' s) = cs_has_arcs (cache i s) \<and>
     cs_has_final (cache i' s) = cs_has_final (cache i s) \<and>
     cs_final (cache i' s) = cs_final (cache i s) \<and>
     (\<forall>s'. s' \<noteq> s \<longrightarrow> cache i' s' = cache i s') \<and>
     (\<exists>e. state_table i' = state_table i @ e)"

text \<open>One iteration of the loop of \<open>MatchArc\<close>.\<close>

definition MatchArc_step ::
  "'w Semiring \<Rightarrow> int \<Rightarrow> 'w Arc \<Rightarrow> bool \<Rightarrow> 'w Arc \<Rightarrow>
   ('w, 'f) ComposeFstImpl \<Rightarrow> ('w, 'f) ComposeFstImpl" where
  "MatchArc_step W s arc match_input arca i =
     (case FilterArc (cfilter i) (filter_pos i) (fst (orient match_input arc arca))
             (snd (orient match_input arc arca)) of
        (a, b, f) \<Rightarrow> if f \<noteq> NoState (cfilter i) then AddArc W s a b f i else i)"

text \<open>
  The arcs that \<open>Expand\<close> iterates (the driven side, with the synthetic loop first) and
  the matcher it queries, positioned.
\<close>

definition driven_arcs ::
  "LibConstants \<Rightarrow> 'w Semiring \<Rightarrow> bool \<Rightarrow> ('w, 'f) ComposeFstImpl \<Rightarrow> int \<Rightarrow> int \<Rightarrow> 'w Arc list" where
  "driven_arcs K W match_input i s1 s2 =
     (if match_input then loop_arc K W True s1 # ArcIterator (fst1 i) s1
      else loop_arc K W False s2 # ArcIterator (fst2 i) s2)"

definition queried_matcher ::
  "bool \<Rightarrow> ('w, 'f) ComposeFstImpl \<Rightarrow> int \<Rightarrow> int \<Rightarrow> 'w Matcher" where
  "queried_matcher match_input i s1 s2 =
     (if match_input then SetState (matcher2 i) s2 else SetState (matcher1 i) s1)"

text \<open>
  The pairs the filter accepts, as it rewrote them, with the filter state returned.
\<close>

definition accepted ::
  "('w, 'f) ComposeFilter \<Rightarrow> 'f StateTuple \<Rightarrow> ('w Arc \<times> 'w Arc) list \<Rightarrow>
   ('w Arc \<times> 'w Arc \<times> 'f) list" where
  "accepted flt pos pairs =
     concat (map (\<lambda>ab. case FilterArc flt pos (fst ab) (snd ab) of
                          (a, b, f) \<Rightarrow> if f \<noteq> NoState flt then [(a, b, f)] else []) pairs)"

text \<open>
  The tuple of the destination of an accepted pair.
\<close>

definition next_tuple :: "'w Arc \<times> 'w Arc \<times> 'f \<Rightarrow> 'f StateTuple" where
  "next_tuple x = (nextstate (fst x), nextstate (fst (snd x)), snd (snd x))"

text \<open>
  All candidate pairs of an expansion, left operand first, in the order they are examined.
\<close>

definition arc_pairs ::
  "LibConstants \<Rightarrow> 'w Semiring \<Rightarrow> bool \<Rightarrow> ('w, 'f) ComposeFstImpl \<Rightarrow> int \<Rightarrow> int \<Rightarrow>
   ('w Arc \<times> 'w Arc) list" where
  "arc_pairs K W match_input i s1 s2 =
     concat (map (\<lambda>arc. map (orient match_input arc)
                           (matches (queried_matcher match_input i s1 s2) match_input arc))
                 (driven_arcs K W match_input i s1 s2))"

text \<open>
  The first component of a pair comes from the left operand at \<open>s1\<close> and the second from
  the right operand at \<open>s2\<close>: one is an iterated arc (or the synthetic loop) and the other a
  value of the other operand's matcher for its label.
\<close>

definition left_right ::
  "LibConstants \<Rightarrow> 'w Semiring \<Rightarrow> ('w, 'f) ComposeFstImpl \<Rightarrow> int \<Rightarrow> int \<Rightarrow>
   'w Arc \<times> 'w Arc \<Rightarrow> bool" where
  "left_right K W i s1 s2 ab \<longleftrightarrow>
     (fst ab \<in> set (loop_arc K W True s1 # ArcIterator (fst1 i) s1) \<and>
      snd ab \<in> set (MValues (matcher2 i) s2 (olabel (fst ab)))) \<or>
     (snd ab \<in> set (loop_arc K W False s2 # ArcIterator (fst2 i) s2) \<and>
      fst ab \<in> set (MValues (matcher1 i) s1 (ilabel (snd ab))))"

text \<open>
  The final weight of a composition state with tuple \<open>(s1, s2, fs)\<close> in the words of the
  specification: \<open>Times\<close> of the final weights of \<open>s1\<close> and \<open>s2\<close> as the filter rewrote
  them, and \<open>Zero\<close> as soon as one of the two is \<open>Zero\<close>.
\<close>

definition final_weight ::
  "'w Semiring \<Rightarrow> ('w, 'f) ComposeFstImpl \<Rightarrow> int \<Rightarrow> int \<Rightarrow> 'f \<Rightarrow> 'w" where
  "final_weight W i s1 s2 fs =
     (if MFinal (matcher1 i) s1 = Zero W then Zero W
      else if MFinal (matcher2 i) s2 = Zero W then Zero W
      else (case FilterFinal (cfilter i) (s1, s2, fs)
                   (MFinal (matcher1 i) s1) (MFinal (matcher2 i) s2) of
              (final1, final2) \<Rightarrow> Times W final1 final2))"

section \<open>Notions used in the statement about Connect\<close>

subsection \<open>Paths of an automaton\<close>

text \<open>
  The arcs of a mutable automaton as a relation on state ids (the source of an arc is an
  existing state), paths as its reflexive transitive closure, and the two notions of the
  specification: a state is accessible if it exists and is reached from the start state,
  and co-accessible if it reaches a state whose final weight is not \<open>Zero\<close>.
\<close>

definition arc_rel :: "'w MutableFst \<Rightarrow> (int \<times> int) set" where
  "arc_rel f = {(s, t). 0 \<le> s \<and> s < int (length (mstates f)) \<and>
                        t \<in> nextstate ` set (st_arcs (mstates f ! nat s))}"

definition reach :: "'w MutableFst \<Rightarrow> int \<Rightarrow> int \<Rightarrow> bool" where
  "reach f x y \<longleftrightarrow> (x, y) \<in> (arc_rel f)\<^sup>*"

definition is_final :: "'w Semiring \<Rightarrow> 'w MutableFst \<Rightarrow> int \<Rightarrow> bool" where
  "is_final W f s \<longleftrightarrow>
     0 \<le> s \<and> s < int (length (mstates f)) \<and> st_final (mstates f ! nat s) \<noteq> Zero W"

definition accessible :: "'w MutableFst \<Rightarrow> int \<Rightarrow> bool" where
  "accessible f s \<longleftrightarrow> 0 \<le> s \<and> s < int (length (mstates f)) \<and> reach f (mstart f) s"

definition coaccessible :: "'w Semiring \<Rightarrow> 'w MutableFst \<Rightarrow> int \<Rightarrow> bool" where
  "coaccessible W f s \<longleftrightarrow> (\<exists>t. reach f s t \<and> is_final W f t)"

text \<open>
  A state is useful if it is both; \<open>dead_states\<close> lists the states that are not, in the
  order of their ids, and \<open>live_states\<close> those that are.
\<close>

definition useful :: "'w Semiring \<Rightarrow> 'w MutableFst \<Rightarrow> int \<Rightarrow> bool" where
  "useful W f s \<longleftrightarrow> accessible f s \<and> coaccessible W f s"

definition dead_states :: "'w Semiring \<Rightarrow> 'w MutableFst \<Rightarrow> int list" where
  "dead_states W f = filter (\<lambda>s. \<not> useful W f s) (map int [0..<length (mstates f)])"

definition live_states :: "'w Semiring \<Rightarrow> 'w MutableFst \<Rightarrow> int list" where
  "live_states W f = filter (useful W f) (map int [0..<length (mstates f)])"

text \<open>
  The invariant of the specification on the automaton handed to \<open>Connect\<close>: every arc
  leads to an existing state; and \<open>kNoStateId\<close> is not the id of a state.
\<close>

definition wf_fst :: "LibConstants \<Rightarrow> 'w MutableFst \<Rightarrow> bool" where
  "wf_fst K f \<longleftrightarrow>
     (\<forall>st \<in> set (mstates f). \<forall>a \<in> set (st_arcs st).
        0 \<le> nextstate a \<and> nextstate a < int (length (mstates f))) \<and>
     \<not> (0 \<le> kNoStateId K \<and> kNoStateId K < int (length (mstates f)))"

subsection \<open>The vectors of the visitor read as functions\<close>

text \<open>
  A vector read at any index, with a default outside it, and the vectors of the visitor
  and the colours of the traversal read in this way. \<open>vs_ok\<close> says that the visitor is
  the one \<open>Connect\<close> uses (no \<open>scc\<close> vector, both result vectors present) and that its
  vectors have one length; \<open>same_rest\<close> relates two visitors that differ at most in the
  low links, the stack and the co-accessibility vector.
\<close>

definition vec_at :: "'a \<Rightarrow> 'a list \<Rightarrow> int \<Rightarrow> 'a" where
  "vec_at d xs i = (case vget xs i of Some x \<Rightarrow> x | None \<Rightarrow> d)"

definition df_num :: "SccVisitor \<Rightarrow> int \<Rightarrow> int" where
  "df_num v = vec_at (-1) (dfnumber v)"

definition low_link :: "SccVisitor \<Rightarrow> int \<Rightarrow> int" where
  "low_link v = vec_at (-1) (lowlink v)"

definition on_stack :: "SccVisitor \<Rightarrow> int \<Rightarrow> bool" where
  "on_stack v = vec_at False (onstack v)"

definition is_coacc :: "SccVisitor \<Rightarrow> int \<Rightarrow> bool" where
  "is_coacc v = vec_at False (case coaccess v of Some c \<Rightarrow> c | None \<Rightarrow> [])"

definition is_acc :: "SccVisitor \<Rightarrow> int \<Rightarrow> bool" where
  "is_acc v = vec_at False (case access v of Some a \<Rightarrow> a | None \<Rightarrow> [])"

definition colour :: "DfsColor list \<Rightarrow> int \<Rightarrow> DfsColor" where
  "colour col = vec_at kDfsWhite col"

definition vsize :: "SccVisitor \<Rightarrow> int" where
  "vsize v = int (length (dfnumber v))"

definition vs_ok :: "SccVisitor \<Rightarrow> bool" where
  "vs_ok v \<longleftrightarrow>
     scc v = None \<and>
     (\<exists>a c. access v = Some a \<and> coaccess v = Some c \<and>
            length a = length (dfnumber v) \<and> length c = length (dfnumber v)) \<and>
     length (lowlink v) = length (dfnumber v) \<and>
     length (onstack v) = length (dfnumber v)"

definition same_rest :: "SccVisitor \<Rightarrow> SccVisitor \<Rightarrow> bool" where
  "same_rest v v' \<longleftrightarrow>
     vs_ok v' \<and> vsize v' = vsize v \<and> df_num v' = df_num v \<and> is_acc v' = is_acc v \<and>
     nstates v' = nstates v \<and> vstart v' = vstart v"

subsection \<open>Invariants of the traversal\<close>

text \<open>
  \<open>nwhite\<close> counts the undiscovered states, which bounds the depth of the recursion. A
  state is done when it is black and no longer on the stack of the visitor, that is when
  its strongly connected component is complete.
\<close>

definition nwhite :: "DfsColor list \<Rightarrow> nat" where
  "nwhite col = length (filter (\<lambda>c. c = kDfsWhite) col)"

definition donest :: "DfsColor list \<Rightarrow> SccVisitor \<Rightarrow> int \<Rightarrow> bool" where
  "donest col v x \<longleftrightarrow> colour col x = kDfsBlack \<and> x \<notin> set (scc_stack v)"

text \<open>
  The invariant that holds between any two calls of the visitor. \<open>g_struct\<close>: the
  vectors cover the discovered states; the stack holds distinct discovered states in
  decreasing order of discovery and is what \<open>onstack\<close> marks; every grey state is on
  it. \<open>g_coacc\<close>: a state marked co-accessible is co-accessible; a black final state
  is marked; among the done states the mark is closed under arcs, backwards; and a black
  state has no undiscovered successor. \<open>g_access\<close>: a discovered state is marked
  accessible exactly when it is accessible.
\<close>

definition g_struct :: "'w MutableFst \<Rightarrow> DfsColor list \<Rightarrow> SccVisitor \<Rightarrow> bool" where
  "g_struct f col v \<longleftrightarrow>
     length col = length (mstates f) \<and> vs_ok v \<and> vsize v \<le> int (length (mstates f)) \<and>
     vstart v = mstart f \<and>
     (\<forall>x. colour col x \<noteq> kDfsWhite \<longrightarrow> x < vsize v) \<and>
     distinct (scc_stack v) \<and> (\<forall>x. on_stack v x \<longleftrightarrow> x \<in> set (scc_stack v)) \<and>
     (\<forall>x \<in> set (scc_stack v). colour col x \<noteq> kDfsWhite) \<and>
     sorted_wrt (\<lambda>x y. df_num v y < df_num v x) (scc_stack v) \<and>
     (\<forall>x. colour col x \<noteq> kDfsWhite \<longrightarrow> df_num v x < nstates v) \<and>
     (\<forall>x. colour col x = kDfsGrey \<longrightarrow> x \<in> set (scc_stack v))"

definition g_coacc :: "'w Semiring \<Rightarrow> 'w MutableFst \<Rightarrow> DfsColor list \<Rightarrow> SccVisitor \<Rightarrow> bool" where
  "g_coacc W f col v \<longleftrightarrow>
     (\<forall>x. is_coacc v x \<longrightarrow> coaccessible W f x) \<and>
     (\<forall>x. colour col x = kDfsBlack \<and> is_final W f x \<longrightarrow> is_coacc v x) \<and>
     (\<forall>x u. donest col v x \<and> (x, u) \<in> arc_rel f \<longrightarrow> donest col v u \<and> (is_coacc v u \<longrightarrow> is_coacc v x)) \<and>
     (\<forall>x u. colour col x = kDfsBlack \<and> (x, u) \<in> arc_rel f \<longrightarrow> colour col u \<noteq> kDfsWhite)"

definition g_access :: "'w MutableFst \<Rightarrow> DfsColor list \<Rightarrow> SccVisitor \<Rightarrow> bool" where
  "g_access f col v \<longleftrightarrow> (\<forall>x. colour col x \<noteq> kDfsWhite \<longrightarrow> (is_acc v x \<longleftrightarrow> accessible f x))"

definition ginv :: "'w Semiring \<Rightarrow> 'w MutableFst \<Rightarrow> DfsColor list \<Rightarrow> SccVisitor \<Rightarrow> bool" where
  "ginv W f col v \<longleftrightarrow> g_struct f col v \<and> g_coacc W f col v \<and> g_access f col v"

text \<open>
  What is known of an arc \<open>(x, u)\<close> of the component under construction, whose root is
  \<open>s\<close>: if \<open>u\<close> is on the stack, the low link of \<open>s\<close> is at most the discovery number of
  \<open>u\<close>; otherwise a mark on \<open>u\<close> has reached \<open>x\<close>. \<open>blk_ok\<close> describes the states stacked
  above \<open>s\<close>: they are black, were discovered during the visit of \<open>s\<close>, lie on a cycle
  through \<open>s\<close>, and their arcs are accounted for. \<open>low_ok\<close>: the low link of \<open>s\<close> is the
  discovery number of a stacked state that \<open>s\<close> reaches.
\<close>

definition edge_ok :: "SccVisitor \<Rightarrow> int \<Rightarrow> int \<Rightarrow> int \<Rightarrow> bool" where
  "edge_ok v s x u \<longleftrightarrow>
     (u \<in> set (scc_stack v) \<longrightarrow> low_link v s \<le> df_num v u) \<and>
     (u \<notin> set (scc_stack v) \<longrightarrow> (is_coacc v u \<longrightarrow> is_coacc v x))"

definition blk_ok ::
  "'w MutableFst \<Rightarrow> DfsColor list \<Rightarrow> DfsColor list \<Rightarrow> SccVisitor \<Rightarrow> int \<Rightarrow> int list \<Rightarrow> bool" where
  "blk_ok f col0 col v s blk \<longleftrightarrow>
     (\<forall>x \<in> set blk. colour col x = kDfsBlack \<and> colour col0 x = kDfsWhite \<and>
        reach f x s \<and> reach f s x \<and> (\<forall>u. (x, u) \<in> arc_rel f \<longrightarrow> edge_ok v s x u))"

definition low_ok :: "'w MutableFst \<Rightarrow> SccVisitor \<Rightarrow> int \<Rightarrow> bool" where
  "low_ok f v s \<longleftrightarrow>
     low_link v s \<le> df_num v s \<and> (\<exists>w \<in> set (scc_stack v). df_num v w = low_link v s \<and> reach f s w)"

text \<open>
  What a visit leaves alone: the low links and marks of the states discovered before it
  (\<open>old_same\<close>), and their colours and discovery numbers (\<open>frame\<close>); the states it
  discovers get discovery numbers from the counter on.
\<close>

definition old_same :: "DfsColor list \<Rightarrow> SccVisitor \<Rightarrow> SccVisitor \<Rightarrow> bool" where
  "old_same col0 v0 v \<longleftrightarrow> (\<forall>x. colour col0 x \<noteq> kDfsWhite \<longrightarrow> low_link v x = low_link v0 x \<and> is_coacc v x = is_coacc v0 x)"

definition frame :: "DfsColor list \<Rightarrow> SccVisitor \<Rightarrow> DfsColor list \<Rightarrow> SccVisitor \<Rightarrow> bool" where
  "frame col0 v0 col v \<longleftrightarrow>
     (\<forall>x. colour col0 x \<noteq> kDfsWhite \<longrightarrow> colour col x = colour col0 x \<and> df_num v x = df_num v0 x) \<and>
     (\<forall>x. colour col0 x = kDfsWhite \<and> colour col x \<noteq> kDfsWhite \<longrightarrow> nstates v0 \<le> df_num v x) \<and>
     nstates v0 \<le> nstates v"

text \<open>
  The two phases of the traversal: the tree rooted at the start state consists of
  accessible states; once it is complete, every accessible state has been discovered and
  the later trees hold none. \<open>parent_ok\<close>: the parent handed to \<open>FinishState\<close> is
  \<open>kNoStateId\<close> or a grey state with an arc to the state.
\<close>

definition phase :: "'w MutableFst \<Rightarrow> int \<Rightarrow> DfsColor list \<Rightarrow> int \<Rightarrow> bool" where
  "phase f r col s \<longleftrightarrow>
     (r = mstart f \<and> accessible f s) \<or>
     (r \<noteq> mstart f \<and> (\<forall>x. accessible f x \<longrightarrow> colour col x \<noteq> kDfsWhite))"

definition parent_ok ::
  "LibConstants \<Rightarrow> 'w MutableFst \<Rightarrow> DfsColor list \<Rightarrow> int \<Rightarrow> int \<Rightarrow> bool" where
  "parent_ok K f col p s \<longleftrightarrow> p = kNoStateId K \<or> (colour col p = kDfsGrey \<and> (p, s) \<in> arc_rel f)"

text \<open>
  The contract of the visit of a white state \<open>s\<close> with parent \<open>p\<close> in the tree of root
  \<open>r\<close>: \<open>dfs_pre\<close> holds when it starts, \<open>loop_inv\<close> while its arcs are examined (\<open>U\<close>
  are the targets of the arcs examined so far), and \<open>dfs_post\<close> when it returns. On
  return either the component of \<open>s\<close> was completed and popped, or \<open>s\<close> and the states
  discovered above it stay on the stack and the low link of \<open>s\<close> is the discovery number
  of an older stacked state; the low link and the mark of \<open>s\<close> have been passed on to the
  parent.
\<close>

definition dfs_pre ::
  "'w Semiring \<Rightarrow> 'w MutableFst \<Rightarrow> LibConstants \<Rightarrow> int \<Rightarrow> int \<Rightarrow> int \<Rightarrow>
   DfsColor list \<Rightarrow> SccVisitor \<Rightarrow> bool" where
  "dfs_pre W f K r s p col v \<longleftrightarrow>
     ginv W f col v \<and> colour col s = kDfsWhite \<and> 0 \<le> s \<and> s < int (length (mstates f)) \<and>
     (\<forall>y \<in> set (scc_stack v). reach f y s) \<and> parent_ok K f col p s \<and> phase f r col s"

definition loop_inv ::
  "'w Semiring \<Rightarrow> 'w MutableFst \<Rightarrow> LibConstants \<Rightarrow> int \<Rightarrow> int \<Rightarrow> int \<Rightarrow>
   DfsColor list \<Rightarrow> SccVisitor \<Rightarrow> int set \<Rightarrow> DfsColor list \<Rightarrow> SccVisitor \<Rightarrow> bool" where
  "loop_inv W f K r s p col0 v0 U col v \<longleftrightarrow>
     ginv W f col v \<and> frame col0 v0 col v \<and> old_same col0 v0 v \<and>
     colour col s = kDfsGrey \<and> colour col0 s = kDfsWhite \<and>
     (\<exists>blk. scc_stack v = blk @ s # scc_stack v0 \<and> blk_ok f col0 col v s blk) \<and>
     (\<forall>y \<in> set (scc_stack v0). reach f y s) \<and> low_ok f v s \<and>
     (\<forall>u \<in> U. colour col u \<noteq> kDfsWhite \<and> edge_ok v s s u) \<and>
     parent_ok K f col0 p s \<and> phase f r col0 s"

definition dfs_post ::
  "'w Semiring \<Rightarrow> 'w MutableFst \<Rightarrow> LibConstants \<Rightarrow> int \<Rightarrow> int \<Rightarrow>
   DfsColor list \<Rightarrow> SccVisitor \<Rightarrow> DfsColor list \<Rightarrow> SccVisitor \<Rightarrow> bool" where
  "dfs_post W f K s p col0 v0 col v \<longleftrightarrow>
     ginv W f col v \<and> frame col0 v0 col v \<and> colour col s = kDfsBlack \<and> nwhite col < nwhite col0 \<and>
     (\<forall>x. colour col0 x \<noteq> kDfsWhite \<and> x \<noteq> p \<longrightarrow> low_link v x = low_link v0 x \<and> is_coacc v x = is_coacc v0 x) \<and>
     (p \<noteq> kNoStateId K \<longrightarrow> low_link v p = min (low_link v0 p) (low_link v s) \<and> is_coacc v p = (is_coacc v0 p \<or> is_coacc v s)) \<and>
     low_link v s \<le> df_num v s \<and>
     (\<exists>blk. scc_stack v = blk @ scc_stack v0 \<and>
        (\<forall>x \<in> set blk. colour col x = kDfsBlack \<and> colour col0 x = kDfsWhite) \<and>
        (if blk = [] then low_link v s = df_num v s
         else last blk = s \<and> low_link v s < df_num v s \<and>
              (\<exists>w \<in> set (scc_stack v0). df_num v0 w = low_link v s \<and> reach f s w) \<and>
              (\<forall>x \<in> set blk. reach f x s \<and> reach f s x \<and>
                 (\<forall>u. (x, u) \<in> arc_rel f \<longrightarrow> edge_ok v s x u))))"

text \<open>
  Between two trees of the traversal the stack is empty; \<open>acc_seen\<close> says that the tree
  of the start state is complete.
\<close>

definition top_inv ::
  "'w Semiring \<Rightarrow> 'w MutableFst \<Rightarrow> DfsColor list \<Rightarrow> SccVisitor \<Rightarrow> bool" where
  "top_inv W f col v \<longleftrightarrow> ginv W f col v \<and> scc_stack v = []"

definition acc_seen :: "'w MutableFst \<Rightarrow> DfsColor list \<Rightarrow> bool" where
  "acc_seen f col \<longleftrightarrow> (\<forall>x. accessible f x \<longrightarrow> colour col x \<noteq> kDfsWhite)"

section \<open>Concrete instances\<close>

text \<open>
  An instance of the constants, two semirings and small automata, matchers and a filter,
  on which the statements are evaluated. \<open>W_nat\<close> is the natural numbers with
  multiplication, which commutes; \<open>W_str\<close> is the string semiring, whose \<open>Times\<close> is
  concatenation and does not commute (\<open>None\<close> is its \<open>Zero\<close>).
\<close>

definition K0 :: LibConstants where
  "K0 = \<lparr>kNoLabel = -1, kNoStateId = -1, kRequirePriority = -1, kRequireMatch = 1,
     kError = 4, kUnweighted = 0x200000000, kCommutative = 4, kFstProperties = 0xffffffff0007,
     kCopyProperties = 0xffffffff0004, kAccessible = 0x10000000000,
     kCoAccessible = 0x40000000000\<rparr>"

definition C0 :: SccConstants where
  "C0 = \<lparr>kCyclic = 0x800000000, kAcyclic = 0x1000000000, kInitialCyclic = 0x2000000000,
     kInitialAcyclic = 0x4000000000, kNotAccessible = 0x20000000000,
     kNotCoAccessible = 0x80000000000\<rparr>"

definition W_nat :: "nat Semiring" where
  "W_nat = \<lparr>Times = (*), One = 1, Zero = 0, WeightProperties = 7\<rparr>"

definition W_str :: "nat list option Semiring" where
  "W_str = \<lparr>Times = (\<lambda>a b. case a of None \<Rightarrow> None
                              | Some x \<Rightarrow> (case b of None \<Rightarrow> None | Some y \<Rightarrow> Some (x @ y))),
            One = Some [], Zero = None, WeightProperties = 1\<rparr>"

definition mk_arc :: "int \<Rightarrow> int \<Rightarrow> 'w \<Rightarrow> int \<Rightarrow> 'w Arc" where
  "mk_arc il ol w n = \<lparr>ilabel = il, olabel = ol, weight = w, nextstate = n\<rparr>"

text \<open>
  An automaton given by its arcs per state, with final state 1, no symbol tables, and
  the property bits \<open>known\<close>.
\<close>

definition ex_fst :: "'w Semiring \<Rightarrow> (int \<Rightarrow> 'w Arc list) \<Rightarrow> 64 word \<Rightarrow> 'w Fst" where
  "ex_fst W arcs known =
     \<lparr>Start = 0, Final = (\<lambda>s. if s = 1 then One W else Zero W), ArcIterator = arcs,
      InputSymbols = None, OutputSymbols = None, Properties = (\<lambda>msk test. known AND msk)\<rparr>"

text \<open>
  A matcher over such arcs on the input side (\<open>inp\<close>) or the output side, with a
  constant priority: \<open>Find\<close> succeeds when an arc of the state carries the label, and the
  values are those arcs in arc order.
\<close>

definition ex_matcher ::
  "'w Semiring \<Rightarrow> bool \<Rightarrow> int \<Rightarrow> (int \<Rightarrow> 'w Arc list) \<Rightarrow> 'w Matcher" where
  "ex_matcher W inp prio arcs =
     \<lparr>mstate = -1,
      MFind = (\<lambda>s l. List.filter (\<lambda>a. (if inp then ilabel a else olabel a) = l) (arcs s) \<noteq> []),
      MValues = (\<lambda>s l. List.filter (\<lambda>a. (if inp then ilabel a else olabel a) = l) (arcs s)),
      Priority = (\<lambda>s. prio), MFinal = (\<lambda>s. if s = 1 then One W else Zero W),
      MType = (\<lambda>test. if inp then MATCH_INPUT else MATCH_OUTPUT), MFlags = 0,
      MProperties = (\<lambda>p. p)\<rparr>"

text \<open>The filter that accepts every pair and has the single state 0.\<close>

definition null_filter :: "('w, int) ComposeFilter" where
  "null_filter =
     \<lparr>FilterStart = 0, NoState = -1, FilterArc = (\<lambda>pos a b. (a, b, 0)),
      FilterFinal = (\<lambda>pos w1 w2. (w1, w2)), FilterProperties = (\<lambda>p. p)\<rparr>"

definition ex_impl ::
  "'w Semiring \<Rightarrow> (int \<Rightarrow> 'w Arc list) \<Rightarrow> (int \<Rightarrow> 'w Arc list) \<Rightarrow> int \<Rightarrow> int \<Rightarrow>
   ('w, int) ComposeFstImpl" where
  "ex_impl W arcs1 arcs2 prio1 prio2 =
     \<lparr>fst_type = ''compose'', properties = 0, isymbols = None, osymbols = None,
      cache_start = None,
      cache = (\<lambda>s. \<lparr>cs_final = Zero W, cs_arcs = [], cs_has_final = False, cs_has_arcs = False\<rparr>),
      cfilter = null_filter, filter_pos = (0, 0, 0),
      matcher1 = ex_matcher W False prio1 arcs1, matcher2 = ex_matcher W True prio2 arcs2,
      fst1 = ex_fst W arcs1 0, fst2 = ex_fst W arcs2 0,
      state_table = [(0, 0, 0)], state_table_error = False, match_type = MATCH_BOTH\<rparr>"

text \<open>Two automata over \<open>W_nat\<close> whose composition at the start state has two arcs.\<close>

definition arcsA :: "int \<Rightarrow> nat Arc list" where
  "arcsA s = (if s = 0 then [mk_arc 1 2 2 1, mk_arc 1 3 3 2] else [])"

definition arcsB :: "int \<Rightarrow> nat Arc list" where
  "arcsB s = (if s = 0 then [mk_arc 3 5 5 1, mk_arc 2 4 7 2] else [])"

text \<open>
  A matcher in the manner of the library's sorted matcher: asked for \<open>kNoLabel\<close> it
  yields the arcs of the state whose label on its side is 0, the non-consuming arcs;
  asked for 0 it yields its own implicit self-loop and then those arcs; asked for
  another label it yields the arcs that carry it, in arc order.
\<close>

definition eps_values ::
  "'w Semiring \<Rightarrow> bool \<Rightarrow> (int \<Rightarrow> 'w Arc list) \<Rightarrow> int \<Rightarrow> int \<Rightarrow> 'w Arc list" where
  "eps_values W inp arcs s l =
     (if l = 0
      then [\<lparr>ilabel = (if inp then kNoLabel K0 else 0), olabel = (if inp then 0 else kNoLabel K0),
             weight = One W, nextstate = s\<rparr>]
      else []) @
     List.filter (\<lambda>a. (if inp then ilabel a else olabel a) = (if l = kNoLabel K0 then 0 else l))
       (arcs s)"

definition ex_eps_matcher ::
  "'w Semiring \<Rightarrow> bool \<Rightarrow> int \<Rightarrow> (int \<Rightarrow> 'w Arc list) \<Rightarrow> 'w Matcher" where
  "ex_eps_matcher W inp prio arcs =
     (ex_matcher W inp prio arcs)
       \<lparr>MFind := (\<lambda>s l. eps_values W inp arcs s l \<noteq> []), MValues := eps_values W inp arcs\<rparr>"

definition ex_impl_eps ::
  "'w Semiring \<Rightarrow> (int \<Rightarrow> 'w Arc list) \<Rightarrow> (int \<Rightarrow> 'w Arc list) \<Rightarrow> int \<Rightarrow> int \<Rightarrow>
   ('w, int) ComposeFstImpl" where
  "ex_impl_eps W arcs1 arcs2 prio1 prio2 =
     (ex_impl W arcs1 arcs2 prio1 prio2)
       \<lparr>matcher1 := ex_eps_matcher W False prio1 arcs1,
        matcher2 := ex_eps_matcher W True prio2 arcs2\<rparr>"

text \<open>
  A right operand whose start state has an arc that consumes no input, so that the
  synthetic loop of the left operand has a match, and a pair of automata whose
  composition reaches the tuple \<open>(1, 1, 0)\<close>, final in both operands.
\<close>

definition arcsE :: "int \<Rightarrow> nat Arc list" where
  "arcsE s = (if s = 0 then [mk_arc 0 9 11 3, mk_arc 2 4 7 2] else [])"

definition arcsF :: "int \<Rightarrow> nat Arc list" where
  "arcsF s = (if s = 0 then [mk_arc 1 2 2 1] else [])"

definition arcsG :: "int \<Rightarrow> nat Arc list" where
  "arcsG s = (if s = 0 then [mk_arc 2 4 7 1] else [])"

text \<open>
  Over \<open>W_str\<close>: a weighted automaton, and an unweighted one (its only weight is \<open>One\<close>).
\<close>

definition arcsS :: "int \<Rightarrow> nat list option Arc list" where
  "arcsS s = (if s = 0 then [mk_arc 1 2 (Some [7]) 1] else [])"

definition arcsU :: "int \<Rightarrow> nat list option Arc list" where
  "arcsU s = (if s = 0 then [mk_arc 2 3 (Some []) 1] else [])"

text \<open>A symbol table with the two symbols \<open>a\<close> and \<open>b\<close> at the dense keys 0 and 1.\<close>

definition symtab_ab :: SymbolTable where
  "symtab_ab =
     \<lparr>impl = \<lparr>name = ''t'', available_key = 2, dense_key_limit = 2, symbols = [''a'', ''b''],
               idx_key = [], key_map = Map.empty, check_sum_finalized = True,
               check_sum_string = ''c1'', labeled_check_sum_string = ''c2''\<rparr>\<rparr>"

text \<open>
  A four-state mutable automaton over \<open>W_nat\<close> with a dead-end branch: state 3 is final,
  state 2 is reached from the start state 0 and has no arcs.
\<close>

definition ex_mfst :: "nat MutableFst" where
  "ex_mfst =
     \<lparr>mstart = 0,
      mstates = [\<lparr>st_final = 0, st_arcs = [mk_arc 1 2 1 1, mk_arc 3 4 1 2]\<rparr>,
                 \<lparr>st_final = 0, st_arcs = [mk_arc 5 6 1 3]\<rparr>,
                 \<lparr>st_final = 0, st_arcs = []\<rparr>,
                 \<lparr>st_final = 1, st_arcs = []\<rparr>],
      m_isymbols = Some symtab_ab, m_osymbols = None, m_properties = 0\<rparr>"


section \<open>Auxiliary facts\<close>

lemma tuple_index_bounds:
  "tuple_index n xs t = Some k \<Longrightarrow> n \<le> k \<and> k < n + length xs \<and> xs ! (k - n) = t"
proof (induction xs arbitrary: n)
  case Nil
  then show ?case by simp
next
  case (Cons x xs)
  show ?case
  proof (cases "x = t")
    case True
    with Cons.prems show ?thesis by simp
  next
    case False
    with Cons.prems have "tuple_index (Suc n) xs t = Some k" by simp
    from Cons.IH [OF this] have "Suc n \<le> k" "k < Suc n + length xs" "xs ! (k - Suc n) = t"
      by simp_all
    then show ?thesis by (simp add: nth_Cons')
  qed
qed

lemma tuple_index_None: "tuple_index n xs t = None \<longleftrightarrow> t \<notin> set xs"
  by (induction xs arbitrary: n) auto

lemma tuple_index_append:
  "t \<in> set xs \<Longrightarrow> tuple_index n (xs @ ys) t = tuple_index n xs t"
  by (induction xs arbitrary: n) auto

lemma tuple_index_Some_mem: "tuple_index n xs t = Some k \<Longrightarrow> t \<in> set xs"
  using tuple_index_None [of n xs t] by auto

lemma tuple_index_fresh:
  "t \<notin> set xs \<Longrightarrow> tuple_index n (xs @ t # e) t = Some (n + length xs)"
  by (induction xs arbitrary: n) auto

lemma FindState_extends: "\<exists>e. snd (FindState table t) = table @ e"
  by (simp add: FindState_def split: option.split)

lemma FindState_member: "t \<in> set (snd (FindState table t))"
  by (auto simp: FindState_def dest: tuple_index_Some_mem split: option.split)

lemma FindState_stable:
  "t \<in> set table \<Longrightarrow> fst (FindState (table @ e) t) = fst (FindState table t)"
proof -
  assume mem: "t \<in> set table"
  then obtain k where "tuple_index 0 table t = Some k"
    using tuple_index_None [of 0 table t] by (cases "tuple_index 0 table t") auto
  with mem show ?thesis by (simp add: FindState_def tuple_index_append)
qed

lemma FindState_again:
  "fst (FindState (snd (FindState table t) @ e) t) = fst (FindState table t)"
proof (cases "tuple_index 0 table t")
  case None
  then have "t \<notin> set table" by (simp add: tuple_index_None)
  then have "tuple_index 0 (table @ t # e) t = Some (0 + length table)"
    by (rule tuple_index_fresh)
  with None show ?thesis by (simp add: FindState_def)
next
  case (Some k)
  then have mem: "t \<in> set table" by (rule tuple_index_Some_mem)
  have "snd (FindState table t) = table" using Some by (simp add: FindState_def)
  with mem show ?thesis by (simp add: FindState_stable)
qed

lemma Tuple_FindState:
  "t \<in> set table \<Longrightarrow> Tuple table (fst (FindState table t)) = Some t"
proof -
  assume "t \<in> set table"
  then obtain k where k: "tuple_index 0 table t = Some k"
    using tuple_index_None [of 0 table t] by (cases "tuple_index 0 table t") auto
  from tuple_index_bounds [OF k] show ?thesis
    by (simp add: FindState_def Tuple_def k)
qed

lemma arcs_frame_refl: "arcs_frame s i i"
  by (simp add: arcs_frame_def)

lemma arcs_frame_trans: "arcs_frame s i j \<Longrightarrow> arcs_frame s j k \<Longrightarrow> arcs_frame s i k"
  by (auto simp: arcs_frame_def)

lemma AddArc_frame: "arcs_frame s i (AddArc W s a b f i)"
  using FindState_extends [of "state_table i" "(nextstate a, nextstate b, f)"]
  by (auto simp: arcs_frame_def AddArc_def PushArc_def Let_def split: prod.split)

lemma AddArc_table:
  "state_table (AddArc W s a b f i) = snd (FindState (state_table i) (nextstate a, nextstate b, f))"
  by (simp add: AddArc_def PushArc_def Let_def split: prod.split)

lemma AddArc_arcs:
  "cs_arcs (cache (AddArc W s a b f i) s) =
     cs_arcs (cache i s) @ [compose_arc W (state_table i) a b f]"
  by (simp add: AddArc_def PushArc_def Let_def compose_arc_def split: prod.split)

lemma compose_arc_rebase:
  "compose_arc W (snd (FindState table (nextstate a, nextstate b, f)) @ e) a b f =
   compose_arc W table a b f"
  by (simp add: compose_arc_def FindState_again)

lemma MatchArc_loop_Cons:
  "MatchArc_loop W s arc match_input (arca # rest) i =
     MatchArc_loop W s arc match_input rest (MatchArc_step W s arc match_input arca i)"
  by (simp add: MatchArc_step_def orient_def Let_def split: prod.split)

lemma MatchArc_step_frame: "arcs_frame s i (MatchArc_step W s arc match_input arca i)"
  by (simp add: MatchArc_step_def arcs_frame_refl AddArc_frame split: prod.split)

lemma MatchArc_step_arcs:
  assumes "state_table j = state_table (MatchArc_step W s arc match_input arca i) @ e"
  shows "cs_arcs (cache (MatchArc_step W s arc match_input arca i) s) =
     cs_arcs (cache i s) @
     filtered_pair W (cfilter i) (filter_pos i) (state_table j) (orient match_input arc arca)"
  using assms
  by (auto simp: MatchArc_step_def filtered_pair_def AddArc_arcs AddArc_table compose_arc_rebase
      split: prod.split)

lemma MatchArc_loop_frame: "arcs_frame s i (MatchArc_loop W s arc match_input vals i)"
proof (induction vals arbitrary: i)
  case Nil
  show ?case by (simp add: arcs_frame_refl)
next
  case (Cons arca rest)
  show ?case
    unfolding MatchArc_loop_Cons
    by (rule arcs_frame_trans [OF MatchArc_step_frame Cons.IH])
qed

lemma MatchArc_loop_arcs:
  assumes "state_table j = state_table (MatchArc_loop W s arc match_input vals i) @ e"
  shows "cs_arcs (cache (MatchArc_loop W s arc match_input vals i) s) =
     cs_arcs (cache i s) @
     concat (map (\<lambda>arca. filtered_pair W (cfilter i) (filter_pos i) (state_table j)
                            (orient match_input arc arca)) vals)"
  using assms
proof (induction vals arbitrary: i e)
  case Nil
  show ?case by simp
next
  case (Cons arca rest)
  let ?i1 = "MatchArc_step W s arc match_input arca i"
  let ?i2 = "MatchArc_loop W s arc match_input rest ?i1"
  have fr1: "arcs_frame s i ?i1" by (rule MatchArc_step_frame)
  have fr2: "arcs_frame s ?i1 ?i2" by (rule MatchArc_loop_frame)
  from Cons.prems have j: "state_table j = state_table ?i2 @ e"
    by (simp only: MatchArc_loop_Cons)
  from fr2 obtain e2 where "state_table ?i2 = state_table ?i1 @ e2"
    by (auto simp: arcs_frame_def)
  with j have j1: "state_table j = state_table ?i1 @ (e2 @ e)" by simp
  have "cs_arcs (cache ?i2 s) = cs_arcs (cache ?i1 s) @
      concat (map (\<lambda>arca. filtered_pair W (cfilter ?i1) (filter_pos ?i1) (state_table j)
                            (orient match_input arc arca)) rest)"
    by (rule Cons.IH [OF j])
  moreover have "cs_arcs (cache ?i1 s) = cs_arcs (cache i s) @
      filtered_pair W (cfilter i) (filter_pos i) (state_table j) (orient match_input arc arca)"
    by (rule MatchArc_step_arcs [OF j1])
  moreover have "cfilter ?i1 = cfilter i" "filter_pos ?i1 = filter_pos i"
    using fr1 by (simp_all add: arcs_frame_def)
  ultimately show ?case by (simp only: MatchArc_loop_Cons) simp
qed

lemma MatchArc_frame: "arcs_frame s i (MatchArc W s matchera arc match_input i)"
  by (simp add: MatchArc_def Let_def MatchArc_loop_frame arcs_frame_refl)

lemma MatchArc_arcs:
  assumes "state_table j = state_table (MatchArc W s matchera arc match_input i) @ e"
  shows "cs_arcs (cache (MatchArc W s matchera arc match_input i) s) =
     cs_arcs (cache i s) @
     match_group W (cfilter i) (filter_pos i) (state_table j) match_input matchera arc"
proof (cases "MFind matchera (mstate matchera) (if match_input then olabel arc else ilabel arc)")
  case True
  then have eq: "MatchArc W s matchera arc match_input i =
      MatchArc_loop W s arc match_input (matches matchera match_input arc) i"
    by (simp add: MatchArc_def matches_def Let_def)
  show ?thesis
    using MatchArc_loop_arcs [of j W s arc match_input "matches matchera match_input arc" i e] assms
    by (simp add: eq match_group_def)
next
  case False
  then show ?thesis by (simp add: MatchArc_def matches_def match_group_def Let_def)
qed

lemma OrderedExpand_loop_frame:
  "arcs_frame s i (OrderedExpand_loop W s matchera match_input iterb i)"
proof (induction iterb arbitrary: i)
  case Nil
  show ?case by (simp add: arcs_frame_refl)
next
  case (Cons arc iterb)
  show ?case
    using arcs_frame_trans [OF MatchArc_frame Cons.IH] by simp
qed

lemma OrderedExpand_loop_arcs:
  assumes "state_table j = state_table (OrderedExpand_loop W s matchera match_input iterb i) @ e"
  shows "cs_arcs (cache (OrderedExpand_loop W s matchera match_input iterb i) s) =
     cs_arcs (cache i s) @
     concat (map (match_group W (cfilter i) (filter_pos i) (state_table j) match_input matchera)
                 iterb)"
  using assms
proof (induction iterb arbitrary: i e)
  case Nil
  show ?case by simp
next
  case (Cons arc iterb)
  let ?i1 = "MatchArc W s matchera arc match_input i"
  let ?i2 = "OrderedExpand_loop W s matchera match_input iterb ?i1"
  have fr1: "arcs_frame s i ?i1" by (rule MatchArc_frame)
  have fr2: "arcs_frame s ?i1 ?i2" by (rule OrderedExpand_loop_frame)
  from Cons.prems have j: "state_table j = state_table ?i2 @ e" by simp
  from fr2 obtain e2 where "state_table ?i2 = state_table ?i1 @ e2"
    by (auto simp: arcs_frame_def)
  with j have j1: "state_table j = state_table ?i1 @ (e2 @ e)" by simp
  have "cs_arcs (cache ?i2 s) = cs_arcs (cache ?i1 s) @
      concat (map (match_group W (cfilter ?i1) (filter_pos ?i1) (state_table j) match_input
                     matchera) iterb)"
    by (rule Cons.IH [OF j])
  moreover have "cs_arcs (cache ?i1 s) = cs_arcs (cache i s) @
      match_group W (cfilter i) (filter_pos i) (state_table j) match_input matchera arc"
    by (rule MatchArc_arcs [OF j1])
  moreover have "cfilter ?i1 = cfilter i" "filter_pos ?i1 = filter_pos i"
    using fr1 by (simp_all add: arcs_frame_def)
  ultimately show ?case by simp
qed

lemma SetArcs_arcs: "cs_arcs (cache (SetArcs s i) s') = cs_arcs (cache i s')"
  by (simp add: SetArcs_def)

lemma SetArcs_fields:
  "state_table (SetArcs s i) = state_table i" "properties (SetArcs s i) = properties i"
  "cfilter (SetArcs s i) = cfilter i" "filter_pos (SetArcs s i) = filter_pos i"
  "cs_has_arcs (cache (SetArcs s i) s) = True"
  by (simp_all add: SetArcs_def)

lemma OrderedExpand_arcs:
  "cs_arcs (cache (OrderedExpand K W s fsta sa fstb sb matchera0 match_input i) s) =
     cs_arcs (cache i s) @
     concat (map (match_group W (cfilter i) (filter_pos i)
                    (state_table (OrderedExpand K W s fsta sa fstb sb matchera0 match_input i))
                    match_input (SetState matchera0 sa))
                 (loop_arc K W match_input sb # ArcIterator fstb sb))"
proof -
  let ?m = "SetState matchera0 sa"
  let ?i1 = "MatchArc W s ?m (loop_arc K W match_input sb) match_input i"
  let ?i2 = "OrderedExpand_loop W s ?m match_input (ArcIterator fstb sb) ?i1"
  have res: "OrderedExpand K W s fsta sa fstb sb matchera0 match_input i = SetArcs s ?i2"
    by (simp add: OrderedExpand_def Let_def)
  have fr1: "arcs_frame s i ?i1" by (rule MatchArc_frame)
  have fr2: "arcs_frame s ?i1 ?i2" by (rule OrderedExpand_loop_frame)
  from fr2 obtain e2 where e2: "state_table ?i2 = state_table ?i1 @ e2"
    by (auto simp: arcs_frame_def)
  have a2: "cs_arcs (cache ?i2 s) = cs_arcs (cache ?i1 s) @
      concat (map (match_group W (cfilter ?i1) (filter_pos ?i1) (state_table ?i2) match_input ?m)
                  (ArcIterator fstb sb))"
    by (rule OrderedExpand_loop_arcs [where e = "[]"]) simp
  have a1: "cs_arcs (cache ?i1 s) = cs_arcs (cache i s) @
      match_group W (cfilter i) (filter_pos i) (state_table ?i2) match_input ?m
        (loop_arc K W match_input sb)"
    by (rule MatchArc_arcs [OF e2])
  have "cfilter ?i1 = cfilter i" "filter_pos ?i1 = filter_pos i"
    using fr1 by (simp_all add: arcs_frame_def)
  with a1 a2 show ?thesis by (simp add: res SetArcs_arcs SetArcs_fields)
qed

lemma OrderedExpand_fields:
  "properties (OrderedExpand K W s fsta sa fstb sb matchera0 match_input i) = properties i"
  "cs_has_arcs (cache (OrderedExpand K W s fsta sa fstb sb matchera0 match_input i) s)"
  "\<exists>e. state_table (OrderedExpand K W s fsta sa fstb sb matchera0 match_input i) = state_table i @ e"
proof -
  let ?m = "SetState matchera0 sa"
  let ?i1 = "MatchArc W s ?m (loop_arc K W match_input sb) match_input i"
  let ?i2 = "OrderedExpand_loop W s ?m match_input (ArcIterator fstb sb) ?i1"
  have res: "OrderedExpand K W s fsta sa fstb sb matchera0 match_input i = SetArcs s ?i2"
    by (simp add: OrderedExpand_def Let_def)
  have fr: "arcs_frame s i ?i2"
    by (rule arcs_frame_trans [OF MatchArc_frame OrderedExpand_loop_frame])
  show "properties (OrderedExpand K W s fsta sa fstb sb matchera0 match_input i) = properties i"
    using fr by (simp add: res SetArcs_fields arcs_frame_def)
  show "cs_has_arcs (cache (OrderedExpand K W s fsta sa fstb sb matchera0 match_input i) s)"
    by (simp add: res SetArcs_fields)
  show "\<exists>e. state_table (OrderedExpand K W s fsta sa fstb sb matchera0 match_input i) = state_table i @ e"
    using fr by (simp add: res SetArcs_fields arcs_frame_def)
qed

lemma MatchInput_fields:
  "cfilter (snd (MatchInput K s1 s2 i)) = cfilter i"
  "filter_pos (snd (MatchInput K s1 s2 i)) = filter_pos i"
  "state_table (snd (MatchInput K s1 s2 i)) = state_table i"
  "matcher1 (snd (MatchInput K s1 s2 i)) = matcher1 i"
  "matcher2 (snd (MatchInput K s1 s2 i)) = matcher2 i"
  "fst1 (snd (MatchInput K s1 s2 i)) = fst1 i"
  "fst2 (snd (MatchInput K s1 s2 i)) = fst2 i"
  "cache (snd (MatchInput K s1 s2 i)) = cache i"
  by (simp_all add: MatchInput_def SetProperties_def Let_def split: MatchType.split)

lemma Expand_groups:
  assumes t: "Tuple (state_table i) s = Some (s1, s2, fs)"
    and mi: "mi = fst (MatchInput K s1 s2 (i\<lparr>filter_pos := (s1, s2, fs)\<rparr>))"
  shows "\<exists>i'. Expand K W s i = Some i' \<and>
     cs_arcs (cache i' s) = cs_arcs (cache i s) @
       concat (map (match_group W (cfilter i) (s1, s2, fs) (state_table i') mi
                      (queried_matcher mi i s1 s2))
                   (driven_arcs K W mi i s1 s2)) \<and>
     cs_has_arcs (cache i' s) \<and>
     properties i' = properties (snd (MatchInput K s1 s2 (i\<lparr>filter_pos := (s1, s2, fs)\<rparr>))) \<and>
     (\<exists>e. state_table i' = state_table i @ e)"
proof -
  let ?i1 = "i\<lparr>filter_pos := (s1, s2, fs)\<rparr>"
  let ?i2 = "snd (MatchInput K s1 s2 ?i1)"
  let ?R = "if mi then OrderedExpand K W s (fst2 ?i2) s2 (fst1 ?i2) s1 (matcher2 ?i2) True ?i2
            else OrderedExpand K W s (fst1 ?i2) s1 (fst2 ?i2) s2 (matcher1 ?i2) False ?i2"
  have ex: "Expand K W s i = Some ?R"
    using t mi by (simp add: Expand_def Let_def split: prod.split)
  have f: "cfilter ?i2 = cfilter i" "filter_pos ?i2 = (s1, s2, fs)" "state_table ?i2 = state_table i"
    "matcher1 ?i2 = matcher1 i" "matcher2 ?i2 = matcher2 i" "fst1 ?i2 = fst1 i" "fst2 ?i2 = fst2 i"
    "cache ?i2 = cache i"
    by (simp_all add: MatchInput_fields)
  show ?thesis
  proof (cases mi)
    case True
    then have R: "?R = OrderedExpand K W s (fst2 ?i2) s2 (fst1 ?i2) s1 (matcher2 ?i2) True ?i2"
      by simp
    show ?thesis
      unfolding ex R
      using OrderedExpand_arcs [of K W s "fst2 ?i2" s2 "fst1 ?i2" s1 "matcher2 ?i2" True ?i2]
        OrderedExpand_fields [of K W s "fst2 ?i2" s2 "fst1 ?i2" s1 "matcher2 ?i2" True ?i2] True
      by (simp add: f driven_arcs_def queried_matcher_def)
  next
    case False
    then have R: "?R = OrderedExpand K W s (fst1 ?i2) s1 (fst2 ?i2) s2 (matcher1 ?i2) False ?i2"
      by simp
    show ?thesis
      unfolding ex R
      using OrderedExpand_arcs [of K W s "fst1 ?i2" s1 "fst2 ?i2" s2 "matcher1 ?i2" False ?i2]
        OrderedExpand_fields [of K W s "fst1 ?i2" s1 "fst2 ?i2" s2 "matcher1 ?i2" False ?i2] False
      by (simp add: f driven_arcs_def queried_matcher_def)
  qed
qed

lemma accepted_Cons: "accepted flt pos (p # ps) = accepted flt pos [p] @ accepted flt pos ps"
  by (simp add: accepted_def)

lemma accepted_append: "accepted flt pos (ps @ qs) = accepted flt pos ps @ accepted flt pos qs"
  by (simp add: accepted_def)

lemma accepted_Nil: "accepted flt pos [] = []"
  by (simp add: accepted_def)

lemma accepted_concat:
  "accepted flt pos (concat pss) = concat (map (accepted flt pos) pss)"
  by (induction pss) (simp_all add: accepted_Nil accepted_append)

lemma filtered_pair_accepted:
  "filtered_pair W flt pos table ab =
     map (\<lambda>x. compose_arc W table (fst x) (fst (snd x)) (snd (snd x))) (accepted flt pos [ab])"
  by (simp add: filtered_pair_def accepted_def split: prod.split)

lemma match_group_accepted:
  "match_group W flt pos table match_input matchera arc =
     map (\<lambda>x. compose_arc W table (fst x) (fst (snd x)) (snd (snd x)))
         (accepted flt pos (map (orient match_input arc) (matches matchera match_input arc)))"
proof -
  have "concat (map (\<lambda>arca. filtered_pair W flt pos table (orient match_input arc arca)) vals) =
     map (\<lambda>x. compose_arc W table (fst x) (fst (snd x)) (snd (snd x)))
         (accepted flt pos (map (orient match_input arc) vals))" for vals
    by (induction vals) (simp_all add: accepted_def filtered_pair_def split: prod.split)
  then show ?thesis by (simp add: match_group_def)
qed

lemma groups_accepted:
  "concat (map (match_group W flt pos table match_input matchera) arcs) =
     map (\<lambda>x. compose_arc W table (fst x) (fst (snd x)) (snd (snd x)))
         (accepted flt pos
            (concat (map (\<lambda>arc. map (orient match_input arc) (matches matchera match_input arc)) arcs)))"
  by (induction arcs) (simp_all add: accepted_Nil accepted_append match_group_accepted)

lemma MatchArc_step_tuples:
  "x \<in> set (accepted (cfilter i) (filter_pos i) [orient match_input arc arca]) \<Longrightarrow>
   next_tuple x \<in> set (state_table (MatchArc_step W s arc match_input arca i))"
  using FindState_member
  by (auto simp: accepted_def MatchArc_step_def next_tuple_def AddArc_table
      split: prod.splits if_splits)

lemma arcs_frame_table_mono:
  "arcs_frame s i i' \<Longrightarrow> t \<in> set (state_table i) \<Longrightarrow> t \<in> set (state_table i')"
  by (auto simp: arcs_frame_def)

lemma MatchArc_loop_tuples:
  "x \<in> set (accepted (cfilter i) (filter_pos i) (map (orient match_input arc) vals)) \<Longrightarrow>
   next_tuple x \<in> set (state_table (MatchArc_loop W s arc match_input vals i))"
proof (induction vals arbitrary: i)
  case Nil
  then show ?case by (simp add: accepted_Nil)
next
  case (Cons arca rest)
  let ?i1 = "MatchArc_step W s arc match_input arca i"
  have fr1: "arcs_frame s i ?i1" by (rule MatchArc_step_frame)
  then have same: "cfilter ?i1 = cfilter i" "filter_pos ?i1 = filter_pos i"
    by (simp_all add: arcs_frame_def)
  from Cons.prems
  consider "x \<in> set (accepted (cfilter i) (filter_pos i) [orient match_input arc arca])"
    | "x \<in> set (accepted (cfilter i) (filter_pos i) (map (orient match_input arc) rest))"
    using accepted_Cons [of "cfilter i" "filter_pos i" "orient match_input arc arca"
        "map (orient match_input arc) rest"]
    by auto
  then show ?case
  proof cases
    case 1
    then have "next_tuple x \<in> set (state_table ?i1)" by (rule MatchArc_step_tuples)
    then show ?thesis
      unfolding MatchArc_loop_Cons
      by (rule arcs_frame_table_mono [OF MatchArc_loop_frame])
  next
    case 2
    then show ?thesis
      unfolding MatchArc_loop_Cons
      using Cons.IH [of ?i1] by (simp add: same)
  qed
qed

lemma MatchArc_tuples:
  "x \<in> set (accepted (cfilter i) (filter_pos i)
              (map (orient match_input arc) (matches matchera match_input arc))) \<Longrightarrow>
   next_tuple x \<in> set (state_table (MatchArc W s matchera arc match_input i))"
proof (cases "MFind matchera (mstate matchera) (if match_input then olabel arc else ilabel arc)")
  case True
  assume x: "x \<in> set (accepted (cfilter i) (filter_pos i)
              (map (orient match_input arc) (matches matchera match_input arc)))"
  from True have eq: "MatchArc W s matchera arc match_input i =
      MatchArc_loop W s arc match_input (matches matchera match_input arc) i"
    by (simp add: MatchArc_def matches_def Let_def)
  show ?thesis unfolding eq using x by (rule MatchArc_loop_tuples)
next
  case False
  assume "x \<in> set (accepted (cfilter i) (filter_pos i)
              (map (orient match_input arc) (matches matchera match_input arc)))"
  with False show ?thesis by (simp add: matches_def accepted_Nil Let_def)
qed

lemma OrderedExpand_loop_tuples:
  "x \<in> set (accepted (cfilter i) (filter_pos i)
       (concat (map (\<lambda>arc. map (orient match_input arc) (matches matchera match_input arc)) iterb))) \<Longrightarrow>
   next_tuple x \<in> set (state_table (OrderedExpand_loop W s matchera match_input iterb i))"
proof (induction iterb arbitrary: i)
  case Nil
  then show ?case by (simp add: accepted_Nil)
next
  case (Cons arc iterb)
  let ?i1 = "MatchArc W s matchera arc match_input i"
  have fr1: "arcs_frame s i ?i1" by (rule MatchArc_frame)
  then have same: "cfilter ?i1 = cfilter i" "filter_pos ?i1 = filter_pos i"
    by (simp_all add: arcs_frame_def)
  from Cons.prems
  consider "x \<in> set (accepted (cfilter i) (filter_pos i)
              (map (orient match_input arc) (matches matchera match_input arc)))"
    | "x \<in> set (accepted (cfilter i) (filter_pos i)
         (concat (map (\<lambda>arc. map (orient match_input arc) (matches matchera match_input arc)) iterb)))"
    by (auto simp: accepted_append)
  then show ?case
  proof cases
    case 1
    then have "next_tuple x \<in> set (state_table ?i1)" by (rule MatchArc_tuples)
    then show ?thesis
      using arcs_frame_table_mono [OF OrderedExpand_loop_frame] by simp
  next
    case 2
    then show ?thesis using Cons.IH [of ?i1] by (simp add: same)
  qed
qed

lemma OrderedExpand_tuples:
  "x \<in> set (accepted (cfilter i) (filter_pos i)
       (concat (map (\<lambda>arc. map (orient match_input arc)
                              (matches (SetState matchera0 sa) match_input arc))
                    (loop_arc K W match_input sb # ArcIterator fstb sb)))) \<Longrightarrow>
   next_tuple x \<in> set (state_table (OrderedExpand K W s fsta sa fstb sb matchera0 match_input i))"
  using OrderedExpand_loop_tuples
    [of x i match_input "SetState matchera0 sa" "loop_arc K W match_input sb # ArcIterator fstb sb" W s]
  by (simp add: OrderedExpand_def Let_def SetArcs_fields)

lemma Expand_tuples:
  assumes t: "Tuple (state_table i) s = Some (s1, s2, fs)"
    and mi: "mi = fst (MatchInput K s1 s2 (i\<lparr>filter_pos := (s1, s2, fs)\<rparr>))"
    and ex: "Expand K W s i = Some i'"
    and x: "x \<in> set (accepted (cfilter i) (s1, s2, fs) (arc_pairs K W mi i s1 s2))"
  shows "next_tuple x \<in> set (state_table i')"
proof -
  let ?i1 = "i\<lparr>filter_pos := (s1, s2, fs)\<rparr>"
  let ?i2 = "snd (MatchInput K s1 s2 ?i1)"
  have f: "cfilter ?i2 = cfilter i" "filter_pos ?i2 = (s1, s2, fs)"
    "matcher1 ?i2 = matcher1 i" "matcher2 ?i2 = matcher2 i" "fst1 ?i2 = fst1 i" "fst2 ?i2 = fst2 i"
    by (simp_all add: MatchInput_fields)
  show ?thesis
  proof (cases mi)
    case True
    with t mi ex have i': "i' = OrderedExpand K W s (fst2 ?i2) s2 (fst1 ?i2) s1 (matcher2 ?i2) True ?i2"
      by (simp add: Expand_def Let_def split: prod.splits)
    show ?thesis
      unfolding i'
      using x True
      by (intro OrderedExpand_tuples)
         (simp add: f arc_pairs_def driven_arcs_def queried_matcher_def)
  next
    case False
    with t mi ex have i': "i' = OrderedExpand K W s (fst1 ?i2) s1 (fst2 ?i2) s2 (matcher1 ?i2) False ?i2"
      by (simp add: Expand_def Let_def split: prod.splits)
    show ?thesis
      unfolding i'
      using x False
      by (intro OrderedExpand_tuples)
         (simp add: f arc_pairs_def driven_arcs_def queried_matcher_def)
  qed
qed

lemma arc_pairs_left_right:
  "ab \<in> set (arc_pairs K W mi i s1 s2) \<Longrightarrow> left_right K W i s1 s2 ab"
  by (auto simp: arc_pairs_def left_right_def driven_arcs_def queried_matcher_def matches_def
      orient_def SetState_def Let_def split: if_splits)

lemma SetProperties_error:
  "properties (SetProperties K (kError K) (kError K) i) = properties i OR kError K"
  by (simp add: SetProperties_def bit_eq_iff bit_simps)

lemma OrderedExpand_final:
  "cs_has_final (cache (OrderedExpand K W s fsta sa fstb sb matchera0 match_input i) s') =
     cs_has_final (cache i s')"
  "cs_final (cache (OrderedExpand K W s fsta sa fstb sb matchera0 match_input i) s') =
     cs_final (cache i s')"
proof -
  let ?m = "SetState matchera0 sa"
  let ?i1 = "MatchArc W s ?m (loop_arc K W match_input sb) match_input i"
  let ?i2 = "OrderedExpand_loop W s ?m match_input (ArcIterator fstb sb) ?i1"
  have f: "arcs_frame s i ?i2"
    by (rule arcs_frame_trans [OF MatchArc_frame OrderedExpand_loop_frame])
  have e: "OrderedExpand K W s fsta sa fstb sb matchera0 match_input i = SetArcs s ?i2"
    by (simp add: OrderedExpand_def Let_def)
  from f have g: "cs_has_final (cache ?i2 s') = cs_has_final (cache i s')"
    "cs_final (cache ?i2 s') = cs_final (cache i s')"
    by (cases "s' = s"; simp add: arcs_frame_def)+
  show "cs_has_final (cache (OrderedExpand K W s fsta sa fstb sb matchera0 match_input i) s') =
       cs_has_final (cache i s')"
    unfolding e using g(1) by (cases "s' = s") (simp_all add: SetArcs_def)
  show "cs_final (cache (OrderedExpand K W s fsta sa fstb sb matchera0 match_input i) s') =
       cs_final (cache i s')"
    unfolding e using g(2) by (cases "s' = s") (simp_all add: SetArcs_def)
qed

lemma Expand_final:
  assumes "Expand K W s i = Some i'"
  shows "cs_has_final (cache i' s') = cs_has_final (cache i s')"
    "cs_final (cache i' s') = cs_final (cache i s')"
proof -
  from assms obtain s1 s2 fs where t: "Tuple (state_table i) s = Some (s1, s2, fs)"
    by (cases "Tuple (state_table i) s") (auto simp: Expand_def)
  let ?i1 = "i\<lparr>filter_pos := (s1, s2, fs)\<rparr>"
  let ?i2 = "snd (MatchInput K s1 s2 ?i1)"
  have c: "cache ?i2 = cache i" by (simp add: MatchInput_fields)
  from assms t have "i' = OrderedExpand K W s (fst2 ?i2) s2 (fst1 ?i2) s1 (matcher2 ?i2) True ?i2 \<or>
      i' = OrderedExpand K W s (fst1 ?i2) s1 (fst2 ?i2) s2 (matcher1 ?i2) False ?i2"
    by (auto simp: Expand_def Let_def split: prod.splits if_splits)
  then show "cs_has_final (cache i' s') = cs_has_final (cache i s')"
    "cs_final (cache i' s') = cs_final (cache i s')"
    using c by (auto simp: OrderedExpand_final)
qed

lemma ComputeFinal_weight:
  assumes t: "Tuple (state_table i) s = Some (s1, s2, fs)"
  shows "\<exists>i'. ComputeFinal W s i = Some (final_weight W i s1 s2 fs, i') \<and> cache i' = cache i"
  using t by (simp add: ComputeFinal_def final_weight_def Let_def split: prod.split)

lemmas ex_defs = K0_def W_nat_def W_str_def mk_arc_def ex_fst_def ex_matcher_def null_filter_def
  ex_impl_def arcsA_def arcsB_def arcsS_def arcsU_def symtab_ab_def
  eps_values_def ex_eps_matcher_def ex_impl_eps_def arcsE_def arcsF_def arcsG_def
lemmas run_defs = InitArcIterator_def HasArcs_def Expand_def Tuple_def MatchInput_def
  OrderedExpand_def MatchArc_def SetState_def AddArc_def FindState_def PushArc_def SetArcs_def
  loop_arc_def SetProperties_def Let_def

lemma ex_tuple: "Tuple (state_table (ex_impl W a1 a2 p1 p2)) 0 = Some (0, 0, 0)"
  by (simp add: Tuple_def ex_impl_def)

lemma ex_fresh: "\<not> HasArcs (ex_impl W a1 a2 p1 p2) 0"
  by (simp add: HasArcs_def ex_impl_def)

lemma ex_tie_arcs:
  "map_option fst (InitArcIterator K0 W_nat 0 (ex_impl W_nat arcsA arcsB 1 1)) =
     Some [mk_arc 1 4 14 1, mk_arc 1 5 15 2]"
  by (simp add: ex_defs run_defs)

lemma ex_require_arcs:
  "map_option fst (InitArcIterator K0 W_nat 0 (ex_impl W_nat arcsA arcsB (-1) (-1))) =
     Some [mk_arc 1 4 14 1, mk_arc 1 5 15 2]"
  by (simp add: ex_defs run_defs)

lemma ex_matcher1_arcs:
  "cs_arcs (cache (OrderedExpand K0 W_nat 0 (ex_fst W_nat arcsA 0) 0 (ex_fst W_nat arcsB 0) 0
                     (ex_matcher W_nat False 1 arcsA) False (ex_impl W_nat arcsA arcsB 1 1)) 0) =
     [mk_arc 1 5 15 1, mk_arc 1 4 14 2]"
  by (simp add: ex_defs run_defs)

lemma ex_require_props:
  "map_option (\<lambda>r. properties (snd r)) (InitArcIterator K0 W_nat 0 (ex_impl W_nat arcsA arcsB (-1) (-1))) =
     Some 4"
  by (simp add: ex_defs run_defs)

lemma ex_tie_table:
  "map_option (\<lambda>r. state_table (snd r)) (InitArcIterator K0 W_nat 0 (ex_impl W_nat arcsA arcsB 1 1)) =
     Some [(0, 0, 0), (1, 2, 0), (2, 1, 0)]"
  by (simp add: ex_defs run_defs)

lemma ex_eps_tuple: "Tuple (state_table (ex_impl_eps W a1 a2 p1 p2)) 0 = Some (0, 0, 0)"
  by (simp add: Tuple_def ex_impl_def ex_impl_eps_def)

lemma ex_eps_fresh: "\<not> HasArcs (ex_impl_eps W a1 a2 p1 p2) 0"
  by (simp add: HasArcs_def ex_impl_def ex_impl_eps_def)

lemma ex_eps_arcs:
  "map_option fst (InitArcIterator K0 W_nat 0 (ex_impl_eps W_nat arcsA arcsE 1 1)) =
     Some [mk_arc 0 9 11 1, mk_arc 1 4 14 2]"
  by (simp add: ex_defs run_defs)

lemma ex_eps_table:
  "map_option (\<lambda>r. state_table (snd r)) (InitArcIterator K0 W_nat 0 (ex_impl_eps W_nat arcsA arcsE 1 1)) =
     Some [(0, 0, 0), (0, 3, 0), (1, 2, 0)]"
  by (simp add: ex_defs run_defs)

lemma ex_final_step:
  "map_option (\<lambda>i. (state_table i, HasArcs i 1, HasFinal i 1, cs_final (cache i 1),
                      MFinal (matcher1 i) 1, MFinal (matcher2 i) 1, cfilter i))
     (Expand K0 W_nat 0 (ex_impl W_nat arcsF arcsG 1 1)) =
   Some ([(0, 0, 0), (1, 1, 0)], False, False, 0, 1, 1, null_filter)"
  by (simp add: ex_defs run_defs HasFinal_def)

lemma ex_final_expanded:
  "map_option (\<lambda>i. (HasArcs i 1, HasFinal i 1, cs_final (cache i 1),
                      map_option fst (ComputeFinal W_nat 1 i)))
     (Expand K0 W_nat 0 (ex_impl W_nat arcsF arcsG 1 1) \<bind> Expand K0 W_nat 1) =
   Some (True, False, 0, Some 1)"
  by (simp add: ex_defs run_defs HasFinal_def ComputeFinal_def)

lemma SetProperties_fields:
  "match_type (SetProperties K p m i) = match_type i"
  "state_table_error (SetProperties K p m i) = state_table_error i"
  "matcher1 (SetProperties K p m i) = matcher1 i"
  "matcher2 (SetProperties K p m i) = matcher2 i"
  "cfilter (SetProperties K p m i) = cfilter i"
  by (simp_all add: SetProperties_def)

lemma dsm_Find_from_absent: "symbol \<notin> set syms \<Longrightarrow> dsm_Find_from n syms symbol = -1"
  by (induction syms arbitrary: n) auto

lemma InvertMapper_twice:
  "map_arc (InvertMapper IP) (map_arc (InvertMapper IP) arc) = (arc :: 'w Arc)"
  by (simp add: InvertMapper_def)

lemma ArcMap_state_Invert_twice:
  "ArcMap_state K (InvertMapper IP) (ArcMap_state K (InvertMapper IP) st) = (st :: 'w VectorState)"
proof -
  have "map (map_arc (InvertMapper IP)) (map (map_arc (InvertMapper IP)) (st_arcs st)) = st_arcs st"
    by (induction "st_arcs st" arbitrary: st) (simp_all add: InvertMapper_def map_idI)
  then show ?thesis
    by (simp add: ArcMap_state_def map_final_def InvertMapper_def)
qed

lemma map_option_Copy: "map_option Copy x = x"
  by (cases x) (simp_all add: Copy_def)

lemma Invert_fields:
  "mstart (Invert K IP f) = mstart f"
  "mstates (Invert K IP f) = map (ArcMap_state K (InvertMapper IP)) (mstates f)"
  "m_isymbols (Invert K IP f) = m_osymbols f"
  "m_osymbols (Invert K IP f) = m_isymbols f"
  by (simp_all add: Invert_def ArcMap_def SetInputSymbols_def SetOutputSymbols_def
      MSetProperties_def map_option_Copy Let_def InvertMapper_def)

section \<open>Auxiliary facts about Connect\<close>

declare InitState_grow.simps [simp del]

lemma vget_in: "0 \<le> i \<Longrightarrow> i < int (length xs) \<Longrightarrow> vget xs i = Some (xs ! nat i)"
  by (simp add: vget_def)

lemma vget_vec_at: "0 \<le> i \<Longrightarrow> i < int (length xs) \<Longrightarrow> vget xs i = Some (vec_at d xs i)"
  by (simp add: vget_def vec_at_def)

lemma vset_in: "0 \<le> i \<Longrightarrow> i < int (length xs) \<Longrightarrow> vset xs i x = Some (xs[nat i := x])"
  by (simp add: vset_def)

lemma vec_at_update:
  "0 \<le> i \<Longrightarrow> i < int (length xs) \<Longrightarrow> vec_at d (xs[nat i := x]) = (vec_at d xs)(i := x)"
  by (auto simp: vec_at_def vget_def fun_eq_iff nat_eq_iff)

lemma vec_at_snoc: "vec_at d (xs @ [d]) = vec_at d xs"
  by (auto simp: vec_at_def vget_def fun_eq_iff nth_append)

lemma vec_at_out: "\<not> (0 \<le> i \<and> i < int (length xs)) \<Longrightarrow> vec_at d xs i = d"
  by (auto simp: vec_at_def vget_def)

lemma vec_at_replicate: "vec_at d (replicate n d) = (\<lambda>i. d)"
  by (auto simp: vec_at_def vget_def fun_eq_iff)

lemma vec_at_Nil: "vec_at d [] = (\<lambda>i. d)"
  by (auto simp: vec_at_def vget_def fun_eq_iff)

lemma InitState_grow_effect:
  "vs_ok v \<Longrightarrow>
   \<exists>v'. InitState_grow s v = Some v' \<and> vs_ok v' \<and> vsize v' = max (vsize v) (s + 1) \<and>
        df_num v' = df_num v \<and> low_link v' = low_link v \<and> on_stack v' = on_stack v \<and> is_coacc v' = is_coacc v \<and> is_acc v' = is_acc v \<and>
        scc_stack v' = scc_stack v \<and> nstates v' = nstates v \<and> vstart v' = vstart v"
proof (induction s v rule: InitState_grow.induct)
  case (1 s v)
  show ?case
  proof (cases "int (length (dfnumber v)) \<le> s")
    case False
    with "1.prems" show ?thesis
      by (subst InitState_grow.simps) (simp add: vsize_def)
  next
    case True
    from "1.prems" obtain a c where vecs: "access v = Some a" "coaccess v = Some c"
      and len: "length a = length (dfnumber v)" "length c = length (dfnumber v)"
        "length (lowlink v) = length (dfnumber v)" "length (onstack v) = length (dfnumber v)"
      and sc: "scc v = None"
      by (auto simp: vs_ok_def)
    let ?v = "v\<lparr>scc := map_option (\<lambda>x. x @ [-1]) (scc v),
               access := map_option (\<lambda>x. x @ [False]) (access v),
               coaccess := Some (c @ [False]),
               dfnumber := dfnumber v @ [-1],
               lowlink := lowlink v @ [-1],
               onstack := onstack v @ [False]\<rparr>"
    have ok: "vs_ok ?v" using vecs len sc by (simp add: vs_ok_def)
    from "1.IH" [OF True vecs(2) ok] obtain v' where
      r: "InitState_grow s ?v = Some v'" "vs_ok v'" "vsize v' = max (vsize ?v) (s + 1)"
        "df_num v' = df_num ?v" "low_link v' = low_link ?v" "on_stack v' = on_stack ?v" "is_coacc v' = is_coacc ?v" "is_acc v' = is_acc ?v"
        "scc_stack v' = scc_stack ?v" "nstates v' = nstates ?v" "vstart v' = vstart ?v"
      by blast
    have "InitState_grow s v = Some v'"
      using True vecs r(1) by (subst InitState_grow.simps) simp
    moreover have "vsize v' = max (vsize v) (s + 1)"
      using r(3) True by (simp add: vsize_def)
    moreover have "df_num ?v = df_num v" "low_link ?v = low_link v" "on_stack ?v = on_stack v" "is_coacc ?v = is_coacc v" "is_acc ?v = is_acc v"
      using vecs by (simp_all add: df_num_def low_link_def on_stack_def is_coacc_def is_acc_def vec_at_snoc)
    ultimately show ?thesis using r by simp
  qed
qed

lemma InitState_effect:
  assumes ok: "vs_ok v" and s: "0 \<le> s"
  shows "\<exists>v'. InitState K C s root v = Some v' \<and> vs_ok v' \<and>
        vsize v' = max (vsize v) (s + 1) \<and>
        df_num v' = (df_num v)(s := nstates v) \<and> low_link v' = (low_link v)(s := nstates v) \<and>
        on_stack v' = (on_stack v)(s := True) \<and> is_coacc v' = is_coacc v \<and>
        is_acc v' = (is_acc v)(s := (root = vstart v)) \<and>
        scc_stack v' = s # scc_stack v \<and> nstates v' = nstates v + 1 \<and> vstart v' = vstart v"
proof -
  let ?v0 = "v\<lparr>scc_stack := s # scc_stack v\<rparr>"
  have ok0: "vs_ok ?v0" using ok by (simp add: vs_ok_def)
  from InitState_grow_effect [OF ok0, of s] obtain v1 where
    g: "InitState_grow s ?v0 = Some v1" and ok1: "vs_ok v1"
    and sz: "vsize v1 = max (vsize ?v0) (s + 1)"
    and ab: "df_num v1 = df_num ?v0" "low_link v1 = low_link ?v0" "on_stack v1 = on_stack ?v0" "is_coacc v1 = is_coacc ?v0" "is_acc v1 = is_acc ?v0"
    and rest: "scc_stack v1 = scc_stack ?v0" "nstates v1 = nstates ?v0" "vstart v1 = vstart ?v0"
    by blast
  from ok1 obtain a c where a: "access v1 = Some a" and c: "coaccess v1 = Some c"
    and len: "length a = length (dfnumber v1)" "length c = length (dfnumber v1)"
      "length (lowlink v1) = length (dfnumber v1)" "length (onstack v1) = length (dfnumber v1)"
    and sc: "scc v1 = None"
    by (auto simp: vs_ok_def)
  from sz have lt: "s < int (length (dfnumber v1))" by (simp add: vsize_def)
  have abs0: "df_num ?v0 = df_num v" "low_link ?v0 = low_link v" "on_stack ?v0 = on_stack v" "is_coacc ?v0 = is_coacc v" "is_acc ?v0 = is_acc v"
    by (simp_all add: df_num_def low_link_def on_stack_def is_coacc_def is_acc_def)
  show ?thesis
    using g a c len sc lt s ab rest sz abs0
    by (auto simp: InitState_def Let_def vset_in vs_ok_def vsize_def
        df_num_def low_link_def on_stack_def is_coacc_def is_acc_def vec_at_update)
qed

lemma BackArc_effect:
  assumes ok: "vs_ok v" and s: "0 \<le> s" "s < vsize v"
    and t: "0 \<le> nextstate arc" "nextstate arc < vsize v"
  shows "\<exists>v'. BackArc C s arc v = Some v' \<and> same_rest v v' \<and>
        low_link v' = (low_link v)(s := min (low_link v s) (df_num v (nextstate arc))) \<and>
        on_stack v' = on_stack v \<and> is_coacc v' = (is_coacc v)(s := (is_coacc v s \<or> is_coacc v (nextstate arc))) \<and>
        scc_stack v' = scc_stack v"
proof -
  from ok obtain a c where a: "access v = Some a" and c: "coaccess v = Some c"
    and len: "length a = length (dfnumber v)" "length c = length (dfnumber v)"
      "length (lowlink v) = length (dfnumber v)" "length (onstack v) = length (dfnumber v)"
    and sc: "scc v = None"
    by (auto simp: vs_ok_def)
  show ?thesis
    using a c len sc s t
    by (auto simp: BackArc_def Let_def vset_in vget_vec_at [where d = "-1"] vget_vec_at [where d = False]
        vs_ok_def vsize_def same_rest_def
        df_num_def low_link_def on_stack_def is_coacc_def is_acc_def vec_at_update fun_eq_iff min_def)
qed

lemma ForwardOrCrossArc_effect:
  assumes ok: "vs_ok v" and s: "0 \<le> s" "s < vsize v"
    and t: "0 \<le> nextstate arc" "nextstate arc < vsize v"
  shows "\<exists>v'. ForwardOrCrossArc s arc v = Some v' \<and> same_rest v v' \<and>
        low_link v' = (low_link v)(s := (if df_num v (nextstate arc) < df_num v s \<and> on_stack v (nextstate arc) \<and>
                                df_num v (nextstate arc) < low_link v s
                             then df_num v (nextstate arc) else low_link v s)) \<and>
        on_stack v' = on_stack v \<and> is_coacc v' = (is_coacc v)(s := (is_coacc v s \<or> is_coacc v (nextstate arc))) \<and>
        scc_stack v' = scc_stack v"
proof -
  from ok obtain a c where a: "access v = Some a" and c: "coaccess v = Some c"
    and len: "length a = length (dfnumber v)" "length c = length (dfnumber v)"
      "length (lowlink v) = length (dfnumber v)" "length (onstack v) = length (dfnumber v)"
    and sc: "scc v = None"
    by (auto simp: vs_ok_def)
  show ?thesis
    using a c len sc s t
    by (auto simp: ForwardOrCrossArc_def Let_def vset_in vget_vec_at [where d = "-1"]
        vget_vec_at [where d = False] vs_ok_def vsize_def same_rest_def
        df_num_def low_link_def on_stack_def is_coacc_def is_acc_def vec_at_update fun_eq_iff)
qed

lemma FinishState_scan_effect:
  assumes "s \<notin> set abv" "\<forall>t \<in> set (abv @ [s]). 0 \<le> t \<and> t < int (length c)"
  shows "FinishState_scan s c (abv @ s # blw) b =
     Some (b \<or> (\<exists>t \<in> set (abv @ [s]). vec_at False c t))"
  using assms
proof (induction abv arbitrary: b)
  case Nil
  then show ?case by (auto simp: vget_vec_at [where d = False])
next
  case (Cons t abv)
  then have "FinishState_scan s c (abv @ s # blw) (if vec_at False c t then True else b) =
     Some ((if vec_at False c t then True else b) \<or> (\<exists>t \<in> set (abv @ [s]). vec_at False c t))"
    by (intro Cons.IH) auto
  with Cons.prems show ?case
    by (auto simp: vget_vec_at [where d = False])
qed

lemma FinishState_pop_effect:
  assumes "s \<notin> set abv" "\<forall>t \<in> set (abv @ [s]). 0 \<le> t \<and> t < vsize v" "vs_ok v"
  shows "\<exists>v'. FinishState_pop s b (abv @ s # blw) v = Some v' \<and> same_rest v v' \<and>
     low_link v' = low_link v \<and> scc_stack v' = blw \<and> nscc v' = nscc v \<and> props v' = props v \<and>
     is_coacc v' = (\<lambda>x. if x \<in> set (abv @ [s]) then is_coacc v x \<or> b else is_coacc v x) \<and>
     on_stack v' = (\<lambda>x. if x \<in> set (abv @ [s]) then False else on_stack v x)"
  using assms
proof (induction abv arbitrary: v)
  case Nil
  from Nil.prems obtain a c where a: "access v = Some a" and c: "coaccess v = Some c"
    and len: "length a = length (dfnumber v)" "length c = length (dfnumber v)"
      "length (lowlink v) = length (dfnumber v)" "length (onstack v) = length (dfnumber v)"
    and sc: "scc v = None"
    by (auto simp: vs_ok_def)
  show ?case
    using a c len sc Nil.prems
    by (auto simp: vset_in vs_ok_def vsize_def same_rest_def
        df_num_def low_link_def on_stack_def is_coacc_def is_acc_def vec_at_update fun_eq_iff)
next
  case (Cons t abv)
  from Cons.prems obtain a c where a: "access v = Some a" and c: "coaccess v = Some c"
    and len: "length a = length (dfnumber v)" "length c = length (dfnumber v)"
      "length (lowlink v) = length (dfnumber v)" "length (onstack v) = length (dfnumber v)"
    and sc: "scc v = None"
    by (auto simp: vs_ok_def)
  from Cons.prems have t: "0 \<le> t" "t < int (length (dfnumber v))" "s \<noteq> t"
    by (auto simp: vsize_def)
  let ?v1 = "v\<lparr>scc := None, coaccess := Some (if b then c[nat t := True] else c),
               onstack := (onstack v)[nat t := False], scc_stack := abv @ s # blw\<rparr>"
  have step: "FinishState_pop s b ((t # abv) @ s # blw) v =
      FinishState_pop s b (abv @ s # blw) ?v1"
    using a c len sc t by (simp add: vset_in)
  have ok1: "vs_ok ?v1" using a c len sc by (simp add: vs_ok_def)
  have sz1: "vsize ?v1 = vsize v" by (simp add: vsize_def)
  from Cons.IH [of ?v1] Cons.prems ok1 sz1 obtain v' where
    r: "FinishState_pop s b (abv @ s # blw) ?v1 = Some v'" "same_rest ?v1 v'"
      "low_link v' = low_link ?v1" "scc_stack v' = blw" "nscc v' = nscc ?v1" "props v' = props ?v1"
      "is_coacc v' = (\<lambda>x. if x \<in> set (abv @ [s]) then is_coacc ?v1 x \<or> b else is_coacc ?v1 x)"
      "on_stack v' = (\<lambda>x. if x \<in> set (abv @ [s]) then False else on_stack ?v1 x)"
    by auto
  have abs1: "df_num ?v1 = df_num v" "low_link ?v1 = low_link v" "is_acc ?v1 = is_acc v"
    "is_coacc ?v1 = (is_coacc v)(t := (is_coacc v t \<or> b))" "on_stack ?v1 = (on_stack v)(t := False)"
    using a c len t by (auto simp: df_num_def low_link_def is_acc_def is_coacc_def on_stack_def vec_at_update fun_eq_iff)
  have sr: "same_rest v v'" using r(2) sz1 by (simp only: same_rest_def abs1) simp
  have "is_coacc v' = (\<lambda>x. if x \<in> set (abv @ [s]) then ((is_coacc v)(t := (is_coacc v t \<or> b))) x \<or> b
                        else ((is_coacc v)(t := (is_coacc v t \<or> b))) x)"
    using r(7) by (simp only: abs1)
  then have cv: "is_coacc v' = (\<lambda>x. if x \<in> set ((t # abv) @ [s]) then is_coacc v x \<or> b else is_coacc v x)"
    by (auto simp: fun_eq_iff)
  have "on_stack v' = (\<lambda>x. if x \<in> set (abv @ [s]) then False else ((on_stack v)(t := False)) x)"
    using r(8) by (simp only: abs1)
  then have ov: "on_stack v' = (\<lambda>x. if x \<in> set ((t # abv) @ [s]) then False else on_stack v x)"
    by (auto simp: fun_eq_iff)
  have lv: "low_link v' = low_link v" using r(3) by (simp only: abs1)
  have "nscc v' = nscc v" "props v' = props v" using r(5,6) by simp_all
  with sr cv ov lv r(1,4) step show ?case by (simp only:) simp
qed

lemma same_rest_trans: "same_rest a b \<Longrightarrow> same_rest b c \<Longrightarrow> same_rest a c"
  by (simp add: same_rest_def)

lemma same_rest_refl: "vs_ok v \<Longrightarrow> same_rest v v"
  by (simp add: same_rest_def)

lemma vs_okE:
  assumes "vs_ok v"
  obtains a c where "access v = Some a" "coaccess v = Some c" "scc v = None"
    "length a = length (dfnumber v)" "length c = length (dfnumber v)"
    "length (lowlink v) = length (dfnumber v)" "length (onstack v) = length (dfnumber v)"
  using assms by (auto simp: vs_ok_def)

lemma FinishState_scc_effect:
  assumes ok: "vs_ok v" and s: "0 \<le> s" "s < vsize v"
    and st: "scc_stack v = abv @ s # blw" "s \<notin> set abv" "\<forall>t \<in> set abv. 0 \<le> t \<and> t < vsize v"
    and b: "b \<longleftrightarrow> (\<exists>t \<in> set (abv @ [s]). is_coacc v t)"
  shows "\<exists>v'. FinishState_scc K C s v = Some v' \<and> same_rest v v' \<and>
     is_coacc v' = (\<lambda>x. if x \<in> set (abv @ [s]) then is_coacc v x \<or> b else is_coacc v x) \<and>
     low_link v' = low_link v \<and>
     on_stack v' = (\<lambda>x. if x \<in> set (abv @ [s]) then False else on_stack v x) \<and>
     scc_stack v' = blw"
proof -
  from ok obtain a c where c: "coaccess v = Some c" and lenc: "length c = length (dfnumber v)"
    by (rule vs_okE)
  have cv: "vec_at False c = is_coacc v" by (simp add: is_coacc_def c)
  have scan: "FinishState_scan s c (scc_stack v) False = Some b"
    using FinishState_scan_effect [of s abv c blw False] st s lenc b
    by (auto simp: cv vsize_def)
  from FinishState_pop_effect [of s abv v b blw] st s ok obtain vp where
    pop: "FinishState_pop s b (abv @ s # blw) v = Some vp" "same_rest v vp"
      "low_link vp = low_link v" "scc_stack vp = blw"
      "is_coacc vp = (\<lambda>x. if x \<in> set (abv @ [s]) then is_coacc v x \<or> b else is_coacc v x)"
      "on_stack vp = (\<lambda>x. if x \<in> set (abv @ [s]) then False else on_stack v x)"
    by auto
  define v' where "v' = (let v'' = (if \<not> b
                  then vp\<lparr>props := (props vp OR kNotCoAccessible C) AND NOT (kCoAccessible K)\<rparr>
                  else vp) in v''\<lparr>nscc := nscc v'' + 1\<rparr>)"
  have r: "FinishState_scc K C s v = Some v'"
    using scan pop(1) by (simp add: FinishState_scc_def c st v'_def Let_def)
  have eq: "is_coacc v' = is_coacc vp" "low_link v' = low_link vp" "on_stack v' = on_stack vp" "scc_stack v' = scc_stack vp"
    "same_rest vp v'"
    using pop(2)
    by (auto simp: v'_def Let_def is_coacc_def low_link_def on_stack_def same_rest_def vs_ok_def vsize_def
        df_num_def is_acc_def)
  from r eq pop same_rest_trans [OF pop(2) eq(5)] show ?thesis by simp
qed

lemma FinishState_parent_effect:
  assumes ok: "vs_ok v" and s: "0 \<le> s" "s < vsize v" and p: "0 \<le> p" "p < vsize v"
  shows "\<exists>v'. FinishState_parent s p v = Some v' \<and> same_rest v v' \<and>
     is_coacc v' = (is_coacc v)(p := (is_coacc v p \<or> is_coacc v s)) \<and>
     low_link v' = (low_link v)(p := min (low_link v p) (low_link v s)) \<and>
     on_stack v' = on_stack v \<and> scc_stack v' = scc_stack v"
proof -
  from ok obtain a c where a: "access v = Some a" and c: "coaccess v = Some c"
    and sc: "scc v = None"
    and len: "length a = length (dfnumber v)" "length c = length (dfnumber v)"
      "length (lowlink v) = length (dfnumber v)" "length (onstack v) = length (dfnumber v)"
    by (rule vs_okE)
  show ?thesis
    using a c len sc s p
    by (auto simp: FinishState_parent_def Let_def vset_in vget_vec_at [where d = "-1"]
        vget_vec_at [where d = False] vs_ok_def vsize_def same_rest_def
        df_num_def low_link_def on_stack_def is_coacc_def is_acc_def vec_at_update fun_eq_iff min_def)
qed

lemma FinishState_effect:
  assumes ok: "vs_ok v" and s: "0 \<le> s" "s < vsize v" "s < int (length (mstates f))"
    and st: "scc_stack v = abv @ s # blw" "s \<notin> set abv" "\<forall>t \<in> set abv. 0 \<le> t \<and> t < vsize v"
    and p: "p = kNoStateId K \<or> (0 \<le> p \<and> p < vsize v)"
    and co1: "co1 = (is_coacc v)(s := (is_coacc v s \<or> is_final W f s))"
    and b: "b \<longleftrightarrow> (\<exists>t \<in> set (abv @ [s]). co1 t)"
    and co2: "co2 = (if df_num v s = low_link v s
                     then (\<lambda>x. if x \<in> set (abv @ [s]) then co1 x \<or> b else co1 x) else co1)"
  shows "\<exists>v'. FinishState K C W f s p v = Some v' \<and> same_rest v v' \<and>
     is_coacc v' = (if p \<noteq> kNoStateId K then co2(p := (co2 p \<or> co2 s)) else co2) \<and>
     low_link v' = (if p \<noteq> kNoStateId K then (low_link v)(p := min (low_link v p) (low_link v s)) else low_link v) \<and>
     on_stack v' = (if df_num v s = low_link v s
              then (\<lambda>x. if x \<in> set (abv @ [s]) then False else on_stack v x) else on_stack v) \<and>
     scc_stack v' = (if df_num v s = low_link v s then blw else scc_stack v)"
proof -
  from ok obtain a c where a: "access v = Some a" and c: "coaccess v = Some c"
    and sc: "scc v = None"
    and len: "length a = length (dfnumber v)" "length c = length (dfnumber v)"
      "length (lowlink v) = length (dfnumber v)" "length (onstack v) = length (dfnumber v)"
    by (rule vs_okE)
  from s have s': "s < int (length (dfnumber v))" by (simp add: vsize_def)
  define c1 where "c1 = (if st_final (mstates f ! nat s) \<noteq> Zero W then c[nat s := True] else c)"
  define v1 where "v1 = v\<lparr>coaccess := Some c1\<rparr>"
  have ok1: "vs_ok v1" using a c len sc by (simp add: vs_ok_def v1_def c1_def)
  have sz1: "vsize v1 = vsize v" by (simp add: vsize_def v1_def)
  have abs1: "df_num v1 = df_num v" "low_link v1 = low_link v" "is_acc v1 = is_acc v" "on_stack v1 = on_stack v" "is_coacc v1 = co1"
    "scc_stack v1 = scc_stack v" "nstates v1 = nstates v" "vstart v1 = vstart v"
    using c len s s' co1
    by (auto simp: df_num_def low_link_def is_acc_def on_stack_def is_coacc_def v1_def c1_def vec_at_update fun_eq_iff is_final_def)
  have sr1: "same_rest v v1" using ok1 sz1 abs1 by (simp add: same_rest_def)
  have e1: "FstFinal f s = Some (st_final (mstates f ! nat s))"
    using s by (simp add: FstFinal_def vget_in)
  have e2: "(if st_final (mstates f ! nat s) \<noteq> Zero W then vset c s True else Some c) = Some c1"
    using s s' len by (simp add: c1_def vset_in)
  have e3: "vget (dfnumber v) s = Some (df_num v s)" "vget (lowlink v) s = Some (low_link v s)"
    using s s' len by (simp_all add: df_num_def low_link_def vget_vec_at)
  have unfold: "FinishState K C W f s p v =
      do {
        v2 \<leftarrow> (if df_num v s = low_link v s then FinishState_scc K C s v1 else Some v1);
        if p \<noteq> kNoStateId K then FinishState_parent s p v2 else Some v2
      }"
    by (simp add: FinishState_def e1 c e2 Let_def e3 v1_def)
  \<comment> \<open>the component\<close>
  have "\<exists>v2. (if df_num v s = low_link v s then FinishState_scc K C s v1 else Some v1) = Some v2 \<and>
      same_rest v v2 \<and> is_coacc v2 = co2 \<and> low_link v2 = low_link v \<and>
      on_stack v2 = (if df_num v s = low_link v s
              then (\<lambda>x. if x \<in> set (abv @ [s]) then False else on_stack v x) else on_stack v) \<and>
      scc_stack v2 = (if df_num v s = low_link v s then blw else scc_stack v)"
  proof (cases "df_num v s = low_link v s")
    case True
    have b1: "b \<longleftrightarrow> (\<exists>t \<in> set (abv @ [s]). is_coacc v1 t)" using b by (simp only: abs1)
    have st1: "scc_stack v1 = abv @ s # blw" using st(1) by (simp only: abs1)
    have s1: "s < vsize v1" using s(2) by (simp only: sz1)
    have t1: "\<forall>t \<in> set abv. 0 \<le> t \<and> t < vsize v1" using st(3) by (simp only: sz1)
    from FinishState_scc_effect [OF ok1 s(1) s1 st1 st(2) t1 b1, of K C]
    obtain v2 where "FinishState_scc K C s v1 = Some v2" "same_rest v1 v2"
      "is_coacc v2 = (\<lambda>x. if x \<in> set (abv @ [s]) then is_coacc v1 x \<or> b else is_coacc v1 x)" "low_link v2 = low_link v1"
      "on_stack v2 = (\<lambda>x. if x \<in> set (abv @ [s]) then False else on_stack v1 x)" "scc_stack v2 = blw"
      by blast
    then have "FinishState_scc K C s v1 = Some v2" "same_rest v1 v2"
      "is_coacc v2 = (\<lambda>x. if x \<in> set (abv @ [s]) then co1 x \<or> b else co1 x)" "low_link v2 = low_link v"
      "on_stack v2 = (\<lambda>x. if x \<in> set (abv @ [s]) then False else on_stack v x)" "scc_stack v2 = blw"
      by (simp_all only: abs1)
    with True co2 same_rest_trans [OF sr1] show ?thesis by simp
  next
    case False
    with sr1 abs1 co2 show ?thesis by simp
  qed
  then obtain v2 where v2: "(if df_num v s = low_link v s then FinishState_scc K C s v1 else Some v1) = Some v2"
    and sr2: "same_rest v v2" and abs2: "is_coacc v2 = co2" "low_link v2 = low_link v"
      "on_stack v2 = (if df_num v s = low_link v s
              then (\<lambda>x. if x \<in> set (abv @ [s]) then False else on_stack v x) else on_stack v)"
      "scc_stack v2 = (if df_num v s = low_link v s then blw else scc_stack v)"
    by blast
  from sr2 have ok2: "vs_ok v2" and sz2: "vsize v2 = vsize v" by (simp_all add: same_rest_def)
  show ?thesis
  proof (cases "p = kNoStateId K")
    case True
    with unfold v2 sr2 abs2 show ?thesis by simp
  next
    case False
    with p have p': "0 \<le> p" "p < vsize v2" using sz2 by simp_all
    from FinishState_parent_effect [OF ok2 _ _ p', of s] s sz2
    obtain v3 where "FinishState_parent s p v2 = Some v3" "same_rest v2 v3"
      "is_coacc v3 = (is_coacc v2)(p := (is_coacc v2 p \<or> is_coacc v2 s))" "low_link v3 = (low_link v2)(p := min (low_link v2 p) (low_link v2 s))"
      "on_stack v3 = on_stack v2" "scc_stack v3 = scc_stack v2"
      by auto
    with False unfold v2 abs2 same_rest_trans [OF sr2] show ?thesis by simp
  qed
qed

lemma reach_refl: "reach f x x"
  by (simp add: reach_def)

lemma reach_trans: "reach f x y \<Longrightarrow> reach f y z \<Longrightarrow> reach f x z"
  by (auto simp: reach_def)

lemma reach_step: "(x, y) \<in> arc_rel f \<Longrightarrow> reach f x y"
  by (auto simp: reach_def)

lemma arc_rel_range:
  "wf_fst K f \<Longrightarrow> (x, y) \<in> arc_rel f \<Longrightarrow>
   0 \<le> x \<and> x < int (length (mstates f)) \<and> 0 \<le> y \<and> y < int (length (mstates f))"
  by (auto simp: arc_rel_def wf_fst_def)

lemma colour_range: "colour col x \<noteq> kDfsWhite \<Longrightarrow> 0 \<le> x \<and> x < int (length col)"
  by (auto simp: colour_def vec_at_def vget_def split: if_splits)

lemma colour_update:
  "0 \<le> s \<Longrightarrow> s < int (length col) \<Longrightarrow> colour (col[nat s := c]) = (colour col)(s := c)"
  by (simp add: colour_def vec_at_update)

lemma nwhite_update_less:
  "i < length col \<Longrightarrow> col ! i = kDfsWhite \<Longrightarrow> c \<noteq> kDfsWhite \<Longrightarrow>
   Suc (nwhite (col[i := c])) = nwhite col"
proof (induction col arbitrary: i)
  case Nil
  then show ?case by simp
next
  case (Cons a col)
  then show ?case by (cases i) (auto simp: nwhite_def)
qed

lemma nwhite_update_same:
  "i < length col \<Longrightarrow> col ! i \<noteq> kDfsWhite \<Longrightarrow> c \<noteq> kDfsWhite \<Longrightarrow>
   nwhite (col[i := c]) = nwhite col"
proof (induction col arbitrary: i)
  case Nil
  then show ?case by simp
next
  case (Cons a col)
  then show ?case by (cases i) (auto simp: nwhite_def)
qed

lemma colour_nth: "0 \<le> s \<Longrightarrow> s < int (length col) \<Longrightarrow> colour col s = col ! nat s"
  by (simp add: colour_def vec_at_def vget_def)

lemma sorted_wrt_df_num_cong:
  "(\<forall>x \<in> set xs. g x = h x) \<Longrightarrow>
   sorted_wrt (\<lambda>x y. g y < g x) xs = sorted_wrt (\<lambda>x y. (h y :: int) < h x) xs"
  by (induction xs) auto

lemma ginvD:
  assumes "ginv W f col v"
  shows "g_struct f col v" "g_coacc W f col v" "g_access f col v"
  using assms by (simp_all add: ginv_def)

lemma g_structD:
  assumes "g_struct f col v"
  shows "length col = length (mstates f)" "vs_ok v" "vsize v \<le> int (length (mstates f))"
    "vstart v = mstart f"
    "\<And>x. colour col x \<noteq> kDfsWhite \<Longrightarrow> x < vsize v"
    "distinct (scc_stack v)" "\<And>x. on_stack v x \<longleftrightarrow> x \<in> set (scc_stack v)"
    "\<And>x. x \<in> set (scc_stack v) \<Longrightarrow> colour col x \<noteq> kDfsWhite"
    "sorted_wrt (\<lambda>x y. df_num v y < df_num v x) (scc_stack v)"
    "\<And>x. colour col x \<noteq> kDfsWhite \<Longrightarrow> df_num v x < nstates v"
    "\<And>x. colour col x = kDfsGrey \<Longrightarrow> x \<in> set (scc_stack v)"
  using assms unfolding g_struct_def by blast+

lemma g_coaccD:
  assumes "g_coacc W f col v"
  shows "\<And>x. is_coacc v x \<Longrightarrow> coaccessible W f x"
    "\<And>x. colour col x = kDfsBlack \<Longrightarrow> is_final W f x \<Longrightarrow> is_coacc v x"
    "\<And>x u. donest col v x \<Longrightarrow> (x, u) \<in> arc_rel f \<Longrightarrow> donest col v u \<and> (is_coacc v u \<longrightarrow> is_coacc v x)"
    "\<And>x u. colour col x = kDfsBlack \<Longrightarrow> (x, u) \<in> arc_rel f \<Longrightarrow> colour col u \<noteq> kDfsWhite"
  using assms unfolding g_coacc_def by blast+

lemma loop_init:
  assumes wf: "wf_fst K f" and pre: "dfs_pre W f K r s p col v"
    and col1: "col1 = col[nat s := kDfsGrey]"
    and v1: "vs_ok v1" "vsize v1 = max (vsize v) (s + 1)"
      "df_num v1 = (df_num v)(s := nstates v)" "low_link v1 = (low_link v)(s := nstates v)"
      "on_stack v1 = (on_stack v)(s := True)" "is_coacc v1 = is_coacc v" "is_acc v1 = (is_acc v)(s := (r = vstart v))"
      "scc_stack v1 = s # scc_stack v" "nstates v1 = nstates v + 1" "vstart v1 = vstart v"
  shows "loop_inv W f K r s p col v {} col1 v1"
proof -
  from pre have gi: "ginv W f col v" and ws: "colour col s = kDfsWhite"
    and s: "0 \<le> s" "s < int (length (mstates f))"
    and rs: "\<forall>y \<in> set (scc_stack v). reach f y s" and par: "parent_ok K f col p s"
    and ph: "phase f r col s"
    by (simp_all add: dfs_pre_def)
  note gs = g_structD [OF ginvD(1) [OF gi]]
  note gc = g_coaccD [OF ginvD(2) [OF gi]]
  from ginvD(3) [OF gi] have ga: "\<And>x. colour col x \<noteq> kDfsWhite \<Longrightarrow> is_acc v x \<longleftrightarrow> accessible f x"
    by (simp add: g_access_def)
  have c1: "colour col1 = (colour col)(s := kDfsGrey)"
    using s gs(1) by (simp add: col1 colour_update)
  have snot: "s \<notin> set (scc_stack v)" using gs(8) ws by blast
  have dnlt: "\<And>y. y \<in> set (scc_stack v) \<Longrightarrow> df_num v y < nstates v"
    using gs(8) gs(10) by blast
  have struct: "g_struct f col1 v1"
    unfolding g_struct_def
  proof (intro conjI)
    show "length col1 = length (mstates f)" using gs(1) by (simp add: col1)
    show "vs_ok v1" by (rule v1(1))
    show "vsize v1 \<le> int (length (mstates f))" using v1(2) gs(3) s by simp
    show "vstart v1 = mstart f" using v1(10) gs(4) by simp
    show "\<forall>x. colour col1 x \<noteq> kDfsWhite \<longrightarrow> x < vsize v1"
      using gs(5) by (auto simp: c1 v1(2) max_def dest!: gs(5))
    show "distinct (scc_stack v1)" using gs(6) snot by (simp add: v1(8))
    show "\<forall>x. on_stack v1 x = (x \<in> set (scc_stack v1))" using gs(7) by (auto simp: v1(5) v1(8))
    show "\<forall>x \<in> set (scc_stack v1). colour col1 x \<noteq> kDfsWhite"
      using gs(8) by (auto simp: v1(8) c1)
    have "sorted_wrt (\<lambda>x y. df_num v1 y < df_num v1 x) (scc_stack v) =
        sorted_wrt (\<lambda>x y. df_num v y < df_num v x) (scc_stack v)"
      by (rule sorted_wrt_df_num_cong) (use snot in \<open>auto simp: v1(3)\<close>)
    then show "sorted_wrt (\<lambda>x y. df_num v1 y < df_num v1 x) (scc_stack v1)"
      using gs(9) snot dnlt by (auto simp: v1(8) v1(3))
    show "\<forall>x. colour col1 x \<noteq> kDfsWhite \<longrightarrow> df_num v1 x < nstates v1"
      using gs(10) by (auto simp: c1 v1(3) v1(9) dest!: gs(10))
    show "\<forall>x. colour col1 x = kDfsGrey \<longrightarrow> x \<in> set (scc_stack v1)"
      using gs(11) by (auto simp: c1 v1(8))
  qed
  have stk: "\<And>x. colour col x = kDfsBlack \<Longrightarrow> x \<in> set (scc_stack v1) \<longleftrightarrow> x \<in> set (scc_stack v)"
    using ws by (auto simp: v1(8))
  have dn1: "\<And>x. x \<noteq> s \<Longrightarrow> donest col1 v1 x \<longleftrightarrow> donest col v x"
    using ws by (auto simp: donest_def c1 v1(8))
  have nds: "\<not> donest col1 v1 s" by (simp add: donest_def c1)
  have coacc: "g_coacc W f col1 v1"
  proof -
    have 1: "\<forall>x. is_coacc v1 x \<longrightarrow> coaccessible W f x" using gc(1) by (simp add: v1(6))
    have 2: "\<forall>x. colour col1 x = kDfsBlack \<and> is_final W f x \<longrightarrow> is_coacc v1 x"
      using gc(2) by (auto simp: c1 v1(6) split: if_splits)
    have 3: "\<forall>x u. donest col1 v1 x \<and> (x, u) \<in> arc_rel f \<longrightarrow>
        donest col1 v1 u \<and> (is_coacc v1 u \<longrightarrow> is_coacc v1 x)"
    proof (intro allI impI)
      fix x u assume a: "donest col1 v1 x \<and> (x, u) \<in> arc_rel f"
      then have xs: "x \<noteq> s" using nds by blast
      with a have "donest col v x" by (simp add: dn1)
      from gc(3) [OF this] a have d: "donest col v u" "is_coacc v u \<longrightarrow> is_coacc v x" by blast+
      from d(1) ws have "u \<noteq> s" by (auto simp: donest_def)
      with d show "donest col1 v1 u \<and> (is_coacc v1 u \<longrightarrow> is_coacc v1 x)" by (simp add: dn1 v1(6))
    qed
    have 4: "\<forall>x u. colour col1 x = kDfsBlack \<and> (x, u) \<in> arc_rel f \<longrightarrow> colour col1 u \<noteq> kDfsWhite"
    proof (intro allI impI)
      fix x u assume a: "colour col1 x = kDfsBlack \<and> (x, u) \<in> arc_rel f"
      then have "colour col x = kDfsBlack" by (auto simp: c1 split: if_splits)
      from gc(4) [OF this] a show "colour col1 u \<noteq> kDfsWhite" by (auto simp: c1)
    qed
    from 1 2 3 4 show ?thesis unfolding g_coacc_def by blast
  qed
  have sacc: "accessible f s \<longleftrightarrow> r = mstart f"
    using ph ws by (auto simp: phase_def)
  have access: "g_access f col1 v1"
    unfolding g_access_def using ga sacc gs(4) by (auto simp: c1 v1(7))
  have fr: "frame col v col1 v1"
    unfolding frame_def using ws by (auto simp: c1 v1(3) v1(9))
  have osame: "old_same col v v1"
    unfolding old_same_def using ws by (auto simp: v1(4) v1(6))
  have low: "low_ok f v1 s"
    unfolding low_ok_def by (auto simp: v1(3) v1(4) v1(8) reach_refl)
  have blk: "\<exists>blk. scc_stack v1 = blk @ s # scc_stack v \<and> blk_ok f col col1 v1 s blk"
    by (rule exI [of _ "[]"]) (simp add: v1(8) blk_ok_def)
  show ?thesis
    unfolding loop_inv_def ginv_def
    using struct coacc access fr osame low blk rs par ph ws by (simp add: c1)
qed

lemma loop_invD:
  assumes "loop_inv W f K r s p col0 v0 U col v"
  shows "ginv W f col v" "frame col0 v0 col v" "old_same col0 v0 v"
    "colour col s = kDfsGrey" "colour col0 s = kDfsWhite"
    "\<exists>blk. scc_stack v = blk @ s # scc_stack v0 \<and> blk_ok f col0 col v s blk"
    "\<forall>y \<in> set (scc_stack v0). reach f y s" "low_ok f v s"
    "\<forall>u \<in> U. colour col u \<noteq> kDfsWhite \<and> edge_ok v s s u"
    "parent_ok K f col0 p s" "phase f r col0 s"
  using assms unfolding loop_inv_def by blast+

lemma same_restD:
  assumes "same_rest v v'"
  shows "vs_ok v'" "vsize v' = vsize v" "df_num v' = df_num v" "is_acc v' = is_acc v"
    "nstates v' = nstates v" "vstart v' = vstart v"
  using assms by (simp_all add: same_rest_def)

lemma coaccessible_step:
  "(s, t) \<in> arc_rel f \<Longrightarrow> coaccessible W f t \<Longrightarrow> coaccessible W f s"
  unfolding coaccessible_def reach_def by (meson converse_rtrancl_into_rtrancl)

lemma coaccessible_reach:
  "reach f s t \<Longrightarrow> coaccessible W f t \<Longrightarrow> coaccessible W f s"
  unfolding coaccessible_def reach_def by (meson rtrancl_trans)

lemma loop_local_step:
  assumes li: "loop_inv W f K r s p col0 v0 U col v"
    and tR: "(s, t) \<in> arc_rel f" and nw: "colour col t \<noteq> kDfsWhite"
    and sr: "same_rest v v'" and osv: "on_stack v' = on_stack v" and stv: "scc_stack v' = scc_stack v"
    and llv: "low_link v' = (low_link v)(s := l')" and l1: "l' \<le> low_link v s"
    and l2: "l' = low_link v s \<or> (\<exists>w \<in> set (scc_stack v). df_num v w = l' \<and> reach f s w)"
    and l3: "t \<in> set (scc_stack v) \<longrightarrow> l' \<le> df_num v t"
    and cov: "is_coacc v' = (is_coacc v)(s := (is_coacc v s \<or> is_coacc v t))"
  shows "loop_inv W f K r s p col0 v0 (insert t U) col v'"
proof -
  note L = loop_invD [OF li]
  note gs = g_structD [OF ginvD(1) [OF L(1)]]
  note gc = g_coaccD [OF ginvD(2) [OF L(1)]]
  note S = same_restD [OF sr]
  from L(4) have sgrey: "colour col s = kDfsGrey" .
  from gs(11) [OF sgrey] have sin: "s \<in> set (scc_stack v)" .
  have nds: "\<not> donest col v s" using sgrey by (simp add: donest_def)
  have dnst: "\<And>x. donest col v' x \<longleftrightarrow> donest col v x" by (simp add: donest_def stv)
  have struct: "g_struct f col v'"
    using ginvD(1) [OF L(1)] unfolding g_struct_def by (simp add: S osv stv)
  have coacc: "g_coacc W f col v'"
  proof -
    have 1: "\<forall>x. is_coacc v' x \<longrightarrow> coaccessible W f x"
      using gc(1) coaccessible_step [OF tR] by (auto simp: cov)
    have 2: "\<forall>x. colour col x = kDfsBlack \<and> is_final W f x \<longrightarrow> is_coacc v' x"
      using gc(2) by (auto simp: cov)
    have 3: "\<forall>x u. donest col v' x \<and> (x, u) \<in> arc_rel f \<longrightarrow>
        donest col v' u \<and> (is_coacc v' u \<longrightarrow> is_coacc v' x)"
    proof (intro allI impI)
      fix x u assume a: "donest col v' x \<and> (x, u) \<in> arc_rel f"
      then have dx: "donest col v x" by (simp add: dnst)
      from gc(3) [OF dx] a have d: "donest col v u" "is_coacc v u \<longrightarrow> is_coacc v x" by blast+
      from dx d(1) nds have "x \<noteq> s" "u \<noteq> s" by blast+
      with d show "donest col v' u \<and> (is_coacc v' u \<longrightarrow> is_coacc v' x)" by (simp add: dnst cov)
    qed
    have 4: "\<forall>x u. colour col x = kDfsBlack \<and> (x, u) \<in> arc_rel f \<longrightarrow> colour col u \<noteq> kDfsWhite"
      using gc(4) by blast
    from 1 2 3 4 show ?thesis unfolding g_coacc_def by blast
  qed
  have access: "g_access f col v'"
    using ginvD(3) [OF L(1)] by (simp add: g_access_def S)
  have fr: "frame col0 v0 col v'" using L(2) by (simp add: frame_def S)
  have osame: "old_same col0 v0 v'"
    using L(3) L(5) unfolding old_same_def by (auto simp: llv cov)
  have low: "low_ok f v' s"
    using L(8) l1 l2 unfolding low_ok_def by (auto simp: llv S stv)
  have eo: "\<And>x u. x \<noteq> s \<Longrightarrow> edge_ok v s x u \<Longrightarrow> edge_ok v' s x u"
    using l1 sin unfolding edge_ok_def by (auto simp: llv cov stv S)
  have eos: "\<And>u. edge_ok v s s u \<Longrightarrow> edge_ok v' s s u"
    using l1 sin unfolding edge_ok_def by (auto simp: llv cov stv S)
  from L(6) obtain blk where blk: "scc_stack v = blk @ s # scc_stack v0" "blk_ok f col0 col v s blk"
    by blast
  have "blk_ok f col0 col v' s blk"
    unfolding blk_ok_def
  proof (intro ballI)
    fix x assume x: "x \<in> set blk"
    with blk(2) have b: "colour col x = kDfsBlack" "colour col0 x = kDfsWhite" "reach f x s" "reach f s x"
      "\<forall>u. (x, u) \<in> arc_rel f \<longrightarrow> edge_ok v s x u"
      by (auto simp: blk_ok_def)
    from b(1) sgrey have "x \<noteq> s" by auto
    with b eo show "colour col x = kDfsBlack \<and> colour col0 x = kDfsWhite \<and> reach f x s \<and> reach f s x \<and>
        (\<forall>u. (x, u) \<in> arc_rel f \<longrightarrow> edge_ok v' s x u)"
      by blast
  qed
  with blk(1) have blk': "\<exists>blk. scc_stack v' = blk @ s # scc_stack v0 \<and> blk_ok f col0 col v' s blk"
    by (auto simp: stv)
  have et: "edge_ok v' s s t"
    using l3 sin unfolding edge_ok_def by (auto simp: llv cov stv S)
  have U': "\<forall>u \<in> insert t U. colour col u \<noteq> kDfsWhite \<and> edge_ok v' s s u"
    using L(9) eos et nw by auto
  show ?thesis
    unfolding loop_inv_def ginv_def
    using struct coacc access fr osame low blk' U' L(4,5,7,10,11) by blast
qed

lemma loop_back:
  assumes li: "loop_inv W f K r s p col0 v0 U col v"
    and tR: "(s, t) \<in> arc_rel f" and grey: "colour col t = kDfsGrey"
    and sr: "same_rest v v'" and osv: "on_stack v' = on_stack v" and stv: "scc_stack v' = scc_stack v"
    and llv: "low_link v' = (low_link v)(s := min (low_link v s) (df_num v t))"
    and cov: "is_coacc v' = (is_coacc v)(s := (is_coacc v s \<or> is_coacc v t))"
  shows "loop_inv W f K r s p col0 v0 (insert t U) col v'"
proof -
  note L = loop_invD [OF li]
  note gs = g_structD [OF ginvD(1) [OF L(1)]]
  from gs(11) [OF grey] have tin: "t \<in> set (scc_stack v)" .
  show ?thesis
  proof (rule loop_local_step [OF li tR _ sr osv stv llv _ _ _ cov])
    show "colour col t \<noteq> kDfsWhite" using grey by simp
    show "min (low_link v s) (df_num v t) \<le> low_link v s" by simp
    show "min (low_link v s) (df_num v t) = low_link v s \<or>
        (\<exists>w \<in> set (scc_stack v). df_num v w = min (low_link v s) (df_num v t) \<and> reach f s w)"
      using tin reach_step [OF tR] by (auto simp: min_def)
    show "t \<in> set (scc_stack v) \<longrightarrow> min (low_link v s) (df_num v t) \<le> df_num v t" by simp
  qed
qed

lemma loop_cross:
  assumes li: "loop_inv W f K r s p col0 v0 U col v"
    and tR: "(s, t) \<in> arc_rel f" and black: "colour col t = kDfsBlack"
    and sr: "same_rest v v'" and osv: "on_stack v' = on_stack v" and stv: "scc_stack v' = scc_stack v"
    and llv: "low_link v' = (low_link v)(s := (if df_num v t < df_num v s \<and> on_stack v t \<and> df_num v t < low_link v s
                                   then df_num v t else low_link v s))"
    and cov: "is_coacc v' = (is_coacc v)(s := (is_coacc v s \<or> is_coacc v t))"
  shows "loop_inv W f K r s p col0 v0 (insert t U) col v'"
proof -
  note L = loop_invD [OF li]
  note gs = g_structD [OF ginvD(1) [OF L(1)]]
  from L(8) have lows: "low_link v s \<le> df_num v s" by (simp add: low_ok_def)
  show ?thesis
  proof (rule loop_local_step [OF li tR _ sr osv stv llv _ _ _ cov])
    show "colour col t \<noteq> kDfsWhite" using black by simp
    show "(if df_num v t < df_num v s \<and> on_stack v t \<and> df_num v t < low_link v s then df_num v t else low_link v s) \<le> low_link v s"
      by simp
    show "(if df_num v t < df_num v s \<and> on_stack v t \<and> df_num v t < low_link v s then df_num v t else low_link v s) = low_link v s \<or>
        (\<exists>w \<in> set (scc_stack v).
           df_num v w = (if df_num v t < df_num v s \<and> on_stack v t \<and> df_num v t < low_link v s then df_num v t else low_link v s) \<and>
           reach f s w)"
      using gs(7) [of t] reach_step [OF tR] by auto
    show "t \<in> set (scc_stack v) \<longrightarrow>
        (if df_num v t < df_num v s \<and> on_stack v t \<and> df_num v t < low_link v s then df_num v t else low_link v s) \<le> df_num v t"
      using gs(7) [of t] lows by auto
  qed
qed

lemma dfs_postD:
  assumes "dfs_post W f K s p col0 v0 col v"
  shows "ginv W f col v" "frame col0 v0 col v" "colour col s = kDfsBlack" "nwhite col < nwhite col0"
    "\<And>x. colour col0 x \<noteq> kDfsWhite \<Longrightarrow> x \<noteq> p \<Longrightarrow> low_link v x = low_link v0 x \<and> is_coacc v x = is_coacc v0 x"
    "p \<noteq> kNoStateId K \<Longrightarrow> low_link v p = min (low_link v0 p) (low_link v s) \<and> is_coacc v p = (is_coacc v0 p \<or> is_coacc v s)"
    "low_link v s \<le> df_num v s"
    "\<exists>blk. scc_stack v = blk @ scc_stack v0 \<and>
        (\<forall>x \<in> set blk. colour col x = kDfsBlack \<and> colour col0 x = kDfsWhite) \<and>
        (if blk = [] then low_link v s = df_num v s
         else last blk = s \<and> low_link v s < df_num v s \<and>
              (\<exists>w \<in> set (scc_stack v0). df_num v0 w = low_link v s \<and> reach f s w) \<and>
              (\<forall>x \<in> set blk. reach f x s \<and> reach f s x \<and>
                 (\<forall>u. (x, u) \<in> arc_rel f \<longrightarrow> edge_ok v s x u)))"
  using assms unfolding dfs_post_def by blast+

lemma frameD:
  assumes "frame col0 v0 col v"
  shows "\<And>x. colour col0 x \<noteq> kDfsWhite \<Longrightarrow> colour col x = colour col0 x \<and> df_num v x = df_num v0 x"
    "\<And>x. colour col0 x = kDfsWhite \<Longrightarrow> colour col x \<noteq> kDfsWhite \<Longrightarrow> nstates v0 \<le> df_num v x"
    "nstates v0 \<le> nstates v"
  using assms unfolding frame_def by blast+

lemma frame_trans:
  assumes "frame col0 v0 col v" "frame col v col' v'"
  shows "frame col0 v0 col' v'"
proof -
  note A = frameD [OF assms(1)]
  note B = frameD [OF assms(2)]
  have 1: "\<forall>x. colour col0 x \<noteq> kDfsWhite \<longrightarrow> colour col' x = colour col0 x \<and> df_num v' x = df_num v0 x"
  proof (intro allI impI)
    fix x assume a: "colour col0 x \<noteq> kDfsWhite"
    from A(1) [OF a] have c: "colour col x = colour col0 x" "df_num v x = df_num v0 x" by simp_all
    with a have "colour col x \<noteq> kDfsWhite" by simp
    from B(1) [OF this] c show "colour col' x = colour col0 x \<and> df_num v' x = df_num v0 x" by simp
  qed
  have 2: "\<forall>x. colour col0 x = kDfsWhite \<and> colour col' x \<noteq> kDfsWhite \<longrightarrow> nstates v0 \<le> df_num v' x"
  proof (intro allI impI)
    fix x assume a: "colour col0 x = kDfsWhite \<and> colour col' x \<noteq> kDfsWhite"
    show "nstates v0 \<le> df_num v' x"
    proof (cases "colour col x = kDfsWhite")
      case True
      with a B(2) [of x] A(3) show ?thesis by simp
    next
      case False
      with a A(2) [of x] B(1) [of x] show ?thesis by simp
    qed
  qed
  from 1 2 A(3) B(3) show ?thesis unfolding frame_def by simp
qed

lemma loop_child:
  assumes wf: "wf_fst K f"
    and li: "loop_inv W f K r s p col0 v0 U col v"
    and tR: "(s, t) \<in> arc_rel f" and tw: "colour col t = kDfsWhite"
    and post: "dfs_post W f K t s col v col' v'"
  shows "loop_inv W f K r s p col0 v0 (insert t U) col' v'"
proof -
  note L = loop_invD [OF li]
  note gs = g_structD [OF ginvD(1) [OF L(1)]]
  note gc = g_coaccD [OF ginvD(2) [OF L(1)]]
  note P = dfs_postD [OF post]
  note F = frameD [OF P(2)]
  from L(4) have sgrey: "colour col s = kDfsGrey" .
  from gs(11) [OF sgrey] have sin: "s \<in> set (scc_stack v)" .
  from colour_range [of col s] sgrey gs(1) have srange: "0 \<le> s" "s < int (length (mstates f))"
    by simp_all
  with wf have sk: "s \<noteq> kNoStateId K" by (auto simp: wf_fst_def)
  from P(6) [OF sk] have lls: "low_link v' s = min (low_link v s) (low_link v' t)" and cos: "is_coacc v' s = (is_coacc v s \<or> is_coacc v' t)"
    by simp_all
  from F(1) [of s] sgrey have sgrey': "colour col' s = kDfsGrey" and dns: "df_num v' s = df_num v s" by simp_all
  from L(6) obtain blk where blk: "scc_stack v = blk @ s # scc_stack v0" "blk_ok f col0 col v s blk"
    by blast
  from P(8) obtain bt where bt: "scc_stack v' = bt @ scc_stack v"
    "\<forall>x \<in> set bt. colour col' x = kDfsBlack \<and> colour col x = kDfsWhite"
    "if bt = [] then low_link v' t = df_num v' t
         else last bt = t \<and> low_link v' t < df_num v' t \<and>
              (\<exists>w \<in> set (scc_stack v). df_num v w = low_link v' t \<and> reach f t w) \<and>
              (\<forall>x \<in> set bt. reach f x t \<and> reach f t x \<and>
                 (\<forall>u. (x, u) \<in> arc_rel f \<longrightarrow> edge_ok v' t x u))"
    by blast
  have old: "\<And>x. colour col x \<noteq> kDfsWhite \<Longrightarrow> x \<noteq> s \<Longrightarrow> low_link v' x = low_link v x \<and> is_coacc v' x = is_coacc v x"
    using P(5) by blast
  have oldc: "\<And>x. colour col x \<noteq> kDfsWhite \<Longrightarrow> colour col' x = colour col x \<and> df_num v' x = df_num v x"
    using F(1) by blast
  have instk: "\<And>u. colour col u \<noteq> kDfsWhite \<Longrightarrow> u \<in> set (scc_stack v') \<longleftrightarrow> u \<in> set (scc_stack v)"
    using bt(1,2) by auto
  have lle: "low_link v' s \<le> low_link v s" "low_link v' s \<le> low_link v' t" by (simp_all add: lls)
  have w0: "\<And>x. colour col0 x \<noteq> kDfsWhite \<Longrightarrow> colour col x \<noteq> kDfsWhite"
    using frameD(1) [OF L(2)] by auto
  \<comment> \<open>every node of the old stack reaches s\<close>
  have stk_reach: "\<And>y. y \<in> set (scc_stack v) \<Longrightarrow> reach f y s"
    using blk L(7) by (auto simp: blk_ok_def reach_refl)
  have fr: "frame col0 v0 col' v'" by (rule frame_trans [OF L(2) P(2)])
  have osame: "old_same col0 v0 v'"
    unfolding old_same_def
  proof (intro allI impI)
    fix x assume a: "colour col0 x \<noteq> kDfsWhite"
    with L(5) have "x \<noteq> s" by auto
    with old [OF w0 [OF a]] L(3) a show "low_link v' x = low_link v0 x \<and> is_coacc v' x = is_coacc v0 x"
      by (simp add: old_same_def)
  qed
  \<comment> \<open>edges of old nodes\<close>
  have edge_old: "edge_ok v' s x u"
    if x: "colour col x \<noteq> kDfsWhite" "x \<noteq> s \<or> x = s" and u: "colour col u \<noteq> kDfsWhite"
      and e: "edge_ok v s x u" for x u
  proof -
    have 1: "u \<in> set (scc_stack v') \<longrightarrow> low_link v' s \<le> df_num v' u"
      using e instk [OF u] oldc [OF u] lle(1) by (auto simp: edge_ok_def)
    have 2: "u \<notin> set (scc_stack v') \<longrightarrow> is_coacc v' u \<longrightarrow> is_coacc v' x"
    proof (intro impI)
      assume a: "u \<notin> set (scc_stack v')" "is_coacc v' u"
      then have un: "u \<notin> set (scc_stack v)" using instk [OF u] by simp
      with sin have "u \<noteq> s" by auto
      with old [OF u] a have "is_coacc v u" by simp
      with e un have cx: "is_coacc v x" by (simp add: edge_ok_def)
      show "is_coacc v' x"
      proof (cases "x = s")
        case True
        with cx cos show ?thesis by simp
      next
        case False
        with old [OF x(1)] cx show ?thesis by simp
      qed
    qed
    from 1 2 show ?thesis by (simp add: edge_ok_def)
  qed
  have blk_old: "\<forall>x \<in> set blk. colour col' x = kDfsBlack \<and> colour col0 x = kDfsWhite \<and>
        reach f x s \<and> reach f s x \<and> (\<forall>u. (x, u) \<in> arc_rel f \<longrightarrow> edge_ok v' s x u)"
  proof (intro ballI)
    fix x assume x: "x \<in> set blk"
    with blk(2) have b: "colour col x = kDfsBlack" "colour col0 x = kDfsWhite" "reach f x s" "reach f s x"
      "\<forall>u. (x, u) \<in> arc_rel f \<longrightarrow> edge_ok v s x u"
      by (auto simp: blk_ok_def)
    from b(1) have xn: "colour col x \<noteq> kDfsWhite" by simp
    have "\<forall>u. (x, u) \<in> arc_rel f \<longrightarrow> edge_ok v' s x u"
    proof (intro allI impI)
      fix u assume e: "(x, u) \<in> arc_rel f"
      from gc(4) [OF b(1) e] have un: "colour col u \<noteq> kDfsWhite" .
      from b(5) e have "edge_ok v s x u" by blast
      from edge_old [OF xn _ un this] show "edge_ok v' s x u" by simp
    qed
    with b oldc [OF xn] show "colour col' x = kDfsBlack \<and> colour col0 x = kDfsWhite \<and>
        reach f x s \<and> reach f s x \<and> (\<forall>u. (x, u) \<in> arc_rel f \<longrightarrow> edge_ok v' s x u)"
      by simp
  qed
  have blk_new: "\<forall>x \<in> set bt. colour col' x = kDfsBlack \<and> colour col0 x = kDfsWhite \<and>
        reach f x s \<and> reach f s x \<and> (\<forall>u. (x, u) \<in> arc_rel f \<longrightarrow> edge_ok v' s x u)"
  proof (intro ballI)
    fix x assume x: "x \<in> set bt"
    then have ne: "bt \<noteq> []" by auto
    with bt(3) obtain w where w: "w \<in> set (scc_stack v)" "reach f t w"
      and bx: "\<forall>x \<in> set bt. reach f x t \<and> reach f t x \<and>
                 (\<forall>u. (x, u) \<in> arc_rel f \<longrightarrow> edge_ok v' t x u)"
      by auto
    from bx x have r: "reach f x t" "reach f t x" and e: "\<forall>u. (x, u) \<in> arc_rel f \<longrightarrow> edge_ok v' t x u"
      by blast+
    from bt(2) x have c: "colour col' x = kDfsBlack" "colour col x = kDfsWhite" by blast+
    from c(2) w0 [of x] have c0: "colour col0 x = kDfsWhite" by auto
    have r1: "reach f x s"
      using reach_trans [OF r(1) reach_trans [OF w(2) stk_reach [OF w(1)]]] .
    have r2: "reach f s x" using reach_trans [OF reach_step [OF tR] r(2)] .
    have "\<forall>u. (x, u) \<in> arc_rel f \<longrightarrow> edge_ok v' s x u"
      using e lle(2) unfolding edge_ok_def by force
    with c c0 r1 r2 show "colour col' x = kDfsBlack \<and> colour col0 x = kDfsWhite \<and>
        reach f x s \<and> reach f s x \<and> (\<forall>u. (x, u) \<in> arc_rel f \<longrightarrow> edge_ok v' s x u)"
      by simp
  qed
  have blk': "\<exists>blk. scc_stack v' = blk @ s # scc_stack v0 \<and> blk_ok f col0 col' v' s blk"
  proof (rule exI [of _ "bt @ blk"], intro conjI)
    show "scc_stack v' = (bt @ blk) @ s # scc_stack v0" by (simp add: bt(1) blk(1))
    show "blk_ok f col0 col' v' s (bt @ blk)"
      unfolding blk_ok_def using blk_old blk_new by auto
  qed
  \<comment> \<open>lowlink of s\<close>
  from L(8) have lowv: "low_link v s \<le> df_num v s" and
    loww: "\<exists>w \<in> set (scc_stack v). df_num v w = low_link v s \<and> reach f s w"
    by (simp_all add: low_ok_def)
  have tnew: "nstates v \<le> df_num v' t" using F(2) [OF tw] P(3) by simp
  have dnsv: "df_num v s < nstates v" using gs(10) [of s] sgrey by simp
  have low: "low_ok f v' s"
    unfolding low_ok_def
  proof (intro conjI)
    show "low_link v' s \<le> df_num v' s" using lle(1) lowv dns by simp
    show "\<exists>w \<in> set (scc_stack v'). df_num v' w = low_link v' s \<and> reach f s w"
    proof (cases "low_link v' t < low_link v s")
      case True
      have "bt \<noteq> []"
      proof
        assume "bt = []"
        with bt(3) have "low_link v' t = df_num v' t" by simp
        with True tnew dnsv lowv show False by simp
      qed
      with bt(3) obtain w where w: "w \<in> set (scc_stack v)" "df_num v w = low_link v' t" "reach f t w"
        by auto
      from gs(8) [OF w(1)] oldc have "df_num v' w = df_num v w" by simp
      moreover have "w \<in> set (scc_stack v')" using w(1) bt(1) by simp
      moreover have "reach f s w" using reach_trans [OF reach_step [OF tR] w(3)] .
      moreover have "low_link v' s = low_link v' t" using True by (simp add: lls)
      ultimately show ?thesis using w(2) by auto
    next
      case False
      then have e: "low_link v' s = low_link v s" by (simp add: lls)
      from loww obtain w where w: "w \<in> set (scc_stack v)" "df_num v w = low_link v s" "reach f s w" by blast
      from gs(8) [OF w(1)] oldc have "df_num v' w = df_num v w" by simp
      moreover have "w \<in> set (scc_stack v')" using w(1) bt(1) by simp
      ultimately show ?thesis using w e by auto
    qed
  qed
  \<comment> \<open>the processed successors\<close>
  have et: "edge_ok v' s s t"
    unfolding edge_ok_def using lle(2) P(7) cos by auto
  have U': "\<forall>u \<in> insert t U. colour col' u \<noteq> kDfsWhite \<and> edge_ok v' s s u"
  proof (intro ballI)
    fix u assume "u \<in> insert t U"
    then consider "u = t" | "u \<in> U" by auto
    then show "colour col' u \<noteq> kDfsWhite \<and> edge_ok v' s s u"
    proof cases
      case 1
      with et P(3) show ?thesis by simp
    next
      case 2
      with L(9) have un: "colour col u \<noteq> kDfsWhite" and e: "edge_ok v s s u" by blast+
      have sn: "colour col s \<noteq> kDfsWhite" using sgrey by simp
      from edge_old [OF sn _ un e] oldc [OF un] un show ?thesis by simp
    qed
  qed
  show ?thesis
    unfolding loop_inv_def
    using P(1) fr osame sgrey' L(5) blk' L(7) low U' L(10) L(11) by blast
qed

lemma nwhite_card: "nwhite col = card {i. i < length col \<and> col ! i = kDfsWhite}"
  by (simp add: nwhite_def length_filter_conv_card)

lemma nwhite_frame_less:
  assumes len: "length col = length col0"
    and mono: "\<And>x. colour col0 x \<noteq> kDfsWhite \<Longrightarrow> colour col x \<noteq> kDfsWhite"
    and s: "colour col0 s = kDfsWhite" "colour col s \<noteq> kDfsWhite"
  shows "nwhite col < nwhite col0"
proof -
  let ?A = "{i. i < length col \<and> col ! i = kDfsWhite}"
  let ?B = "{i. i < length col0 \<and> col0 ! i = kDfsWhite}"
  from colour_range [OF s(2)] have r: "0 \<le> s" "s < int (length col)" by simp_all
  have sub: "?A \<subseteq> ?B"
  proof
    fix i assume "i \<in> ?A"
    then have i: "i < length col" "col ! i = kDfsWhite" by simp_all
    then have "colour col (int i) = kDfsWhite" by (simp add: colour_nth)
    with mono [of "int i"] have "colour col0 (int i) = kDfsWhite" by auto
    with i len show "i \<in> ?B" by (simp add: colour_nth)
  qed
  have "nat s \<in> ?B" using r s(1) len by (simp add: colour_nth)
  moreover have "nat s \<notin> ?A" using r s(2) by (simp add: colour_nth)
  ultimately have "?A \<subset> ?B" using sub by auto
  then have "card ?A < card ?B" by (intro psubset_card_mono) auto
  then show ?thesis by (simp add: nwhite_card)
qed

lemma loop_finish:
  assumes wf: "wf_fst K f"
    and g0: "ginv W f col0 v0"
    and li: "loop_inv W f K r s p col0 v0 U col v"
    and allU: "\<And>t. (s, t) \<in> arc_rel f \<Longrightarrow> t \<in> U"
  shows "\<exists>v'. FinishState K C W f s p v = Some v' \<and>
               dfs_post W f K s p col0 v0 (col[nat s := kDfsBlack]) v'"
proof -
  note L = loop_invD [OF li]
  note gs = g_structD [OF ginvD(1) [OF L(1)]]
  note gc = g_coaccD [OF ginvD(2) [OF L(1)]]
  note gs0 = g_structD [OF ginvD(1) [OF g0]]
  note F = frameD [OF L(2)]
  from L(6) obtain blk where blk: "scc_stack v = blk @ s # scc_stack v0" "blk_ok f col0 col v s blk"
    by blast
  from L(4) have sgrey: "colour col s = kDfsGrey" .
  then have snw: "colour col s \<noteq> kDfsWhite" by simp
  from colour_range [OF snw] gs(1) have srange: "0 \<le> s" "s < int (length (mstates f))"
    by simp_all
  from gs(5) [OF snw] have svs: "s < vsize v" .
  from gs(6) blk(1) have snb: "s \<notin> set blk" and sn0: "s \<notin> set (scc_stack v0)"
    and dj: "set blk \<inter> set (scc_stack v0) = {}" and d0: "distinct (scc_stack v0)"
    by auto
  have trange: "\<forall>t \<in> set blk. 0 \<le> t \<and> t < vsize v"
  proof
    fix t assume "t \<in> set blk"
    with blk(1) have "t \<in> set (scc_stack v)" by simp
    from gs(8) [OF this] colour_range [of col t] gs(5) [of t] show "0 \<le> t \<and> t < vsize v" by simp
  qed
  have pf: "p \<noteq> s \<and> p \<in> set (scc_stack v0) \<and> p \<notin> set blk \<and> (p, s) \<in> arc_rel f \<and>
            colour col0 p = kDfsGrey \<and> colour col p = kDfsGrey" if "p \<noteq> kNoStateId K"
  proof -
    from that L(10) have a: "colour col0 p = kDfsGrey" "(p, s) \<in> arc_rel f"
      by (simp_all add: parent_ok_def)
    from a(1) L(5) have "p \<noteq> s" by auto
    moreover from gs0(11) [OF a(1)] have pin: "p \<in> set (scc_stack v0)" .
    moreover from pin dj have "p \<notin> set blk" by auto
    moreover from F(1) [of p] a(1) have "colour col p = kDfsGrey" by simp
    ultimately show ?thesis using a by simp
  qed
  have prange: "p = kNoStateId K \<or> (0 \<le> p \<and> p < vsize v)"
  proof (cases "p = kNoStateId K")
    case True
    then show ?thesis by simp
  next
    case False
    from pf [OF False] have "colour col p \<noteq> kDfsWhite" by simp
    from colour_range [OF this] gs(5) [OF this] show ?thesis by simp
  qed
  define co1 where "co1 = (is_coacc v)(s := (is_coacc v s \<or> is_final W f s))"
  define b where "b \<longleftrightarrow> (\<exists>t \<in> set (blk @ [s]). co1 t)"
  define co2 where "co2 = (if df_num v s = low_link v s
                     then (\<lambda>x. if x \<in> set (blk @ [s]) then co1 x \<or> b else co1 x) else co1)"
  from FinishState_effect [OF gs(2) srange(1) svs srange(2) blk(1) snb trange prange
      co1_def b_def co2_def, of C]
  obtain v' where fin: "FinishState K C W f s p v = Some v'" and sr: "same_rest v v'"
    and cov: "is_coacc v' = (if p \<noteq> kNoStateId K then co2(p := (co2 p \<or> co2 s)) else co2)"
    and llv: "low_link v' = (if p \<noteq> kNoStateId K then (low_link v)(p := min (low_link v p) (low_link v s)) else low_link v)"
    and osv: "on_stack v' = (if df_num v s = low_link v s
              then (\<lambda>x. if x \<in> set (blk @ [s]) then False else on_stack v x) else on_stack v)"
    and stv: "scc_stack v' = (if df_num v s = low_link v s then scc_stack v0 else scc_stack v)"
    by blast
  note S = same_restD [OF sr]
  define col' where "col' = col[nat s := kDfsBlack]"
  have c': "colour col' = (colour col)(s := kDfsBlack)"
    using srange gs(1) by (simp add: col'_def colour_update)
  have nw: "\<And>x. colour col' x \<noteq> kDfsWhite \<longleftrightarrow> colour col x \<noteq> kDfsWhite"
    using snw by (simp add: c')
  \<comment> \<open>sortedness of the stack\<close>
  from gs(9) blk(1) have srt: "\<And>x. x \<in> set blk \<Longrightarrow> df_num v s < df_num v x"
    "\<And>y. y \<in> set (scc_stack v0) \<Longrightarrow> df_num v y < df_num v s"
    by (auto simp: sorted_wrt_append)
  \<comment> \<open>the coaccess vector\<close>
  have c1s: "\<And>x. x \<noteq> s \<Longrightarrow> co1 x = is_coacc v x" by (simp add: co1_def)
  have c1m: "\<And>x. is_coacc v x \<Longrightarrow> co1 x" by (auto simp: co1_def)
  have c1b: "\<And>x. x \<in> set blk \<or> x = s \<Longrightarrow> co1 x \<Longrightarrow> b" by (auto simp: b_def)
  have c2seg: "\<And>x. df_num v s = low_link v s \<Longrightarrow> x \<in> set blk \<or> x = s \<Longrightarrow> co2 x = b"
    using c1b by (auto simp: co2_def)
  have c2out: "\<And>x. x \<noteq> s \<Longrightarrow> (df_num v s = low_link v s \<longrightarrow> x \<notin> set blk) \<Longrightarrow> co2 x = is_coacc v x"
    using c1s by (auto simp: co2_def)
  have c2nr: "df_num v s \<noteq> low_link v s \<Longrightarrow> co2 = co1" by (simp add: co2_def)
  have c2m: "\<And>x. is_coacc v x \<Longrightarrow> co2 x" using c1m by (auto simp: co2_def)
  have c1sound: "\<And>x. co1 x \<Longrightarrow> coaccessible W f x"
  proof -
    fix x assume a: "co1 x"
    show "coaccessible W f x"
    proof (cases "is_coacc v x")
      case True
      then show ?thesis by (rule gc(1))
    next
      case False
      with a have "x = s" "is_final W f s" by (auto simp: co1_def split: if_splits)
      then show ?thesis unfolding coaccessible_def using reach_refl by blast
    qed
  qed
  have segreach: "\<And>x y. x \<in> set blk \<or> x = s \<Longrightarrow> y \<in> set blk \<or> y = s \<Longrightarrow> reach f x y"
  proof -
    fix x y assume "x \<in> set blk \<or> x = s" "y \<in> set blk \<or> y = s"
    with blk(2) have "reach f x s" "reach f s y" by (auto simp: blk_ok_def reach_refl)
    then show "reach f x y" by (rule reach_trans)
  qed
  have c2sound: "\<And>x. co2 x \<Longrightarrow> coaccessible W f x"
  proof -
    fix x assume a: "co2 x"
    show "coaccessible W f x"
    proof (cases "co1 x")
      case True
      then show ?thesis by (rule c1sound)
    next
      case False
      with a have r: "df_num v s = low_link v s" "x \<in> set blk \<or> x = s" "b"
        by (auto simp: co2_def split: if_splits)
      from r(3) obtain t where t: "t \<in> set blk \<or> t = s" "co1 t" by (auto simp: b_def)
      from coaccessible_reach [OF segreach [OF r(2) t(1)] c1sound [OF t(2)]] show ?thesis .
    qed
  qed
  have cvo: "\<And>x. x \<noteq> p \<or> p = kNoStateId K \<Longrightarrow> is_coacc v' x = co2 x" by (auto simp: cov)
  have cvp: "p \<noteq> kNoStateId K \<Longrightarrow> is_coacc v' p = (co2 p \<or> co2 s)" by (simp add: cov)
  have cvm: "\<And>x. co2 x \<Longrightarrow> is_coacc v' x" by (auto simp: cov)
  have cvmm: "\<And>x. is_coacc v x \<Longrightarrow> is_coacc v' x" using cvm c2m by blast
  have cvs: "is_coacc v' s = co2 s" using pf cvo [of s] by blast
  have llo: "\<And>x. x \<noteq> p \<or> p = kNoStateId K \<Longrightarrow> low_link v' x = low_link v x" by (auto simp: llv)
  have llp: "p \<noteq> kNoStateId K \<Longrightarrow> low_link v' p = min (low_link v p) (low_link v s)" by (simp add: llv)
  have lls: "low_link v' s = low_link v s" using pf llo [of s] by blast
  have pstk: "p \<noteq> kNoStateId K \<Longrightarrow> p \<in> set (scc_stack v)" using pf blk(1) by simp
  \<comment> \<open>unchanged outside the stack segment and the parent\<close>
  have cosame: "\<And>x. x \<noteq> s \<Longrightarrow> x \<notin> set blk \<Longrightarrow> x \<noteq> p \<or> p = kNoStateId K \<Longrightarrow> is_coacc v' x = is_coacc v x"
    using cvo c2out by simp
  have cosame2: "\<And>x. x \<notin> set (scc_stack v) \<Longrightarrow> is_coacc v' x = is_coacc v x"
  proof -
    fix x assume a: "x \<notin> set (scc_stack v)"
    with blk(1) have "x \<noteq> s" "x \<notin> set blk" by auto
    moreover from a pstk have "x \<noteq> p \<or> p = kNoStateId K" by auto
    ultimately show "is_coacc v' x = is_coacc v x" by (rule cosame)
  qed
  \<comment> \<open>the structure\<close>
  have stk_sub: "set (scc_stack v') \<subseteq> set (scc_stack v)" using blk(1) by (auto simp: stv)
  have struct: "g_struct f col' v'"
    unfolding g_struct_def
  proof (intro conjI)
    show "length col' = length (mstates f)" using gs(1) by (simp add: col'_def)
    show "vs_ok v'" by (rule S(1))
    show "vsize v' \<le> int (length (mstates f))" using gs(3) S(2) by simp
    show "vstart v' = mstart f" using gs(4) S(6) by simp
    show "\<forall>x. colour col' x \<noteq> kDfsWhite \<longrightarrow> x < vsize v'" using gs(5) nw S(2) by simp
    show "distinct (scc_stack v')" using gs(6) d0 by (simp add: stv)
    show "\<forall>x. on_stack v' x \<longleftrightarrow> x \<in> set (scc_stack v')"
      using gs(7) blk(1) dj sn0 by (auto simp: osv stv)
    show "\<forall>x \<in> set (scc_stack v'). colour col' x \<noteq> kDfsWhite"
      using gs(8) stk_sub nw by blast
    show "sorted_wrt (\<lambda>x y. df_num v' y < df_num v' x) (scc_stack v')"
      using gs(9) blk(1) by (auto simp: stv S(3) sorted_wrt_append)
    show "\<forall>x. colour col' x \<noteq> kDfsWhite \<longrightarrow> df_num v' x < nstates v'"
      using gs(10) nw by (simp add: S(3) S(5))
    show "\<forall>x. colour col' x = kDfsGrey \<longrightarrow> x \<in> set (scc_stack v')"
    proof (intro allI impI)
      fix x assume a: "colour col' x = kDfsGrey"
      then have xs: "x \<noteq> s" and g: "colour col x = kDfsGrey" by (auto simp: c' split: if_splits)
      from gs(11) [OF g] have xin: "x \<in> set (scc_stack v)" .
      have "x \<notin> set blk" using blk(2) g by (auto simp: blk_ok_def)
      with xin xs blk(1) show "x \<in> set (scc_stack v')" by (auto simp: stv)
    qed
  qed
  \<comment> \<open>edges that leave the popped component\<close>
  have seg_edge: "edge_ok v s x u \<and> colour col u \<noteq> kDfsWhite"
    if x: "x \<in> set blk \<or> x = s" and e: "(x, u) \<in> arc_rel f" for x u
  proof (cases "x = s")
    case True
    with allU e have "u \<in> U" by simp
    with L(9) True show ?thesis by blast
  next
    case False
    with x have xb: "x \<in> set blk" by simp
    with blk(2) e have "edge_ok v s x u" "colour col x = kDfsBlack" by (auto simp: blk_ok_def)
    with gc(4) [OF _ e] show ?thesis by simp
  qed
  have coacc: "g_coacc W f col' v'"
    unfolding g_coacc_def
  proof (intro conjI)
    show "\<forall>x. is_coacc v' x \<longrightarrow> coaccessible W f x"
    proof (intro allI impI)
      fix x assume a: "is_coacc v' x"
      show "coaccessible W f x"
      proof (cases "co2 x")
        case True
        then show ?thesis by (rule c2sound)
      next
        case False
        with a cvo [of x] have xp: "x = p" "p \<noteq> kNoStateId K" by auto
        with a False cvp have "co2 s" by simp
        from coaccessible_step [OF _ c2sound [OF this]] pf [OF xp(2)] xp(1) show ?thesis by blast
      qed
    qed
    show "\<forall>x. colour col' x = kDfsBlack \<and> is_final W f x \<longrightarrow> is_coacc v' x"
    proof (intro allI impI)
      fix x assume a: "colour col' x = kDfsBlack \<and> is_final W f x"
      show "is_coacc v' x"
      proof (cases "x = s")
        case True
        with a have "co1 s" by (simp add: co1_def)
        then have "co2 s" using c1b [of s] by (auto simp: co2_def)
        with True cvm show ?thesis by simp
      next
        case False
        with a have "colour col x = kDfsBlack" by (simp add: c')
        from gc(2) [OF this] a cvmm show ?thesis by blast
      qed
    qed
    show "\<forall>x u. colour col' x = kDfsBlack \<and> (x, u) \<in> arc_rel f \<longrightarrow> colour col' u \<noteq> kDfsWhite"
    proof (intro allI impI)
      fix x u assume a: "colour col' x = kDfsBlack \<and> (x, u) \<in> arc_rel f"
      show "colour col' u \<noteq> kDfsWhite"
      proof (cases "x = s")
        case True
        with a seg_edge [of s u] nw show ?thesis by simp
      next
        case False
        with a have "colour col x = kDfsBlack" by (simp add: c')
        from gc(4) [OF this] a nw show ?thesis by blast
      qed
    qed
    show "\<forall>x u. donest col' v' x \<and> (x, u) \<in> arc_rel f \<longrightarrow>
            donest col' v' u \<and> (is_coacc v' u \<longrightarrow> is_coacc v' x)"
    proof (intro allI impI)
      fix x u assume a: "donest col' v' x \<and> (x, u) \<in> arc_rel f"
      then have xb: "colour col' x = kDfsBlack" and xn: "x \<notin> set (scc_stack v')"
        and e: "(x, u) \<in> arc_rel f"
        by (simp_all add: donest_def)
      show "donest col' v' u \<and> (is_coacc v' u \<longrightarrow> is_coacc v' x)"
      proof (cases "x \<in> set (scc_stack v)")
        case False
        with blk(1) have "x \<noteq> s" by auto
        with xb have "colour col x = kDfsBlack" by (simp add: c')
        with False have dx: "donest col v x" by (simp add: donest_def)
        from gc(3) [OF dx e] have du: "donest col v u" and cu: "is_coacc v u \<longrightarrow> is_coacc v x" by simp_all
        from du have ub: "colour col u = kDfsBlack" and un: "u \<notin> set (scc_stack v)"
          by (simp_all add: donest_def)
        from un stk_sub have un': "u \<notin> set (scc_stack v')" by blast
        from ub have "colour col' u = kDfsBlack" by (simp add: c')
        with un' have "donest col' v' u" by (simp add: donest_def)
        moreover have "is_coacc v' u \<longrightarrow> is_coacc v' x"
          using cosame2 [OF un] cu cvmm by simp
        ultimately show ?thesis by simp
      next
        case True
        with xn have root: "df_num v s = low_link v s" by (auto simp: stv split: if_splits)
        with xn True blk(1) have xseg: "x \<in> set blk \<or> x = s" by (auto simp: stv)
        from seg_edge [OF xseg e] have eo: "edge_ok v s x u" and unw: "colour col u \<noteq> kDfsWhite"
          by simp_all
        have xp: "x \<noteq> p \<or> p = kNoStateId K" using pf xseg by blast
        have cx: "is_coacc v' x = b" using cvo [OF xp] c2seg [OF root xseg] by simp
        show ?thesis
        proof (cases "u \<in> set (scc_stack v)")
          case True
          with eo have "low_link v s \<le> df_num v u" by (simp add: edge_ok_def)
          with root have "df_num v s \<le> df_num v u" by simp
          with srt(2) [of u] have "u \<notin> set (scc_stack v0)" by auto
          with True blk(1) have useg: "u \<in> set blk \<or> u = s" by auto
          have up: "u \<noteq> p \<or> p = kNoStateId K" using pf useg by blast
          have cu: "is_coacc v' u = b" using cvo [OF up] c2seg [OF root useg] by simp
          have "colour col' u = kDfsBlack" using useg blk(2) by (auto simp: c' blk_ok_def)
          moreover have "u \<notin> set (scc_stack v')" using useg dj sn0 root by (auto simp: stv)
          ultimately show ?thesis using cx cu by (simp add: donest_def)
        next
          case False
          with gs(11) [of u] unw have ub: "colour col u = kDfsBlack" by (cases "colour col u") auto
          from False blk(1) have us: "u \<noteq> s" "u \<notin> set blk" by auto
          from ub us have "colour col' u = kDfsBlack" by (simp add: c')
          moreover from False stk_sub have "u \<notin> set (scc_stack v')" by blast
          moreover have "is_coacc v' u \<longrightarrow> is_coacc v' x"
          proof
            assume "is_coacc v' u"
            with cosame2 [OF False] have "is_coacc v u" by simp
            with eo False have "is_coacc v x" by (simp add: edge_ok_def)
            then have "co1 x" by (rule c1m)
            from c1b [OF xseg this] cx show "is_coacc v' x" by simp
          qed
          ultimately show ?thesis by (simp add: donest_def)
        qed
      qed
    qed
  qed
  have acc: "g_access f col' v'"
    using ginvD(3) [OF L(1)] nw by (simp add: g_access_def S(4))
  have gi: "ginv W f col' v'" using struct coacc acc by (simp add: ginv_def)
  \<comment> \<open>the frame\<close>
  have fr: "frame col0 v0 col' v'"
    unfolding frame_def
  proof (intro conjI allI impI)
    fix x assume a: "colour col0 x \<noteq> kDfsWhite"
    with L(5) have "x \<noteq> s" by auto
    with F(1) [OF a] show "colour col' x = colour col0 x" by (simp add: c')
    from F(1) [OF a] show "df_num v' x = df_num v0 x" by (simp add: S(3))
  next
    fix x assume a: "colour col0 x = kDfsWhite \<and> colour col' x \<noteq> kDfsWhite"
    with nw F(2) [of x] show "nstates v0 \<le> df_num v' x" by (simp add: S(3))
  next
    show "nstates v0 \<le> nstates v'" using F(3) by (simp add: S(5))
  qed
  have black: "colour col' s = kDfsBlack" by (simp add: c')
  have less: "nwhite col' < nwhite col0"
  proof (rule nwhite_frame_less)
    show "length col' = length col0" using gs(1) gs0(1) by (simp add: col'_def)
    show "\<And>x. colour col0 x \<noteq> kDfsWhite \<Longrightarrow> colour col' x \<noteq> kDfsWhite"
      using F(1) nw by simp
    show "colour col0 s = kDfsWhite" by (rule L(5))
    show "colour col' s \<noteq> kDfsWhite" by (simp add: black)
  qed
  have oldsame: "\<forall>x. colour col0 x \<noteq> kDfsWhite \<and> x \<noteq> p \<longrightarrow> low_link v' x = low_link v0 x \<and> is_coacc v' x = is_coacc v0 x"
  proof (intro allI impI)
    fix x assume a: "colour col0 x \<noteq> kDfsWhite \<and> x \<noteq> p"
    with L(5) have xs: "x \<noteq> s" by auto
    from a blk(2) have xb: "x \<notin> set blk" by (auto simp: blk_ok_def)
    from L(3) a have "low_link v x = low_link v0 x" "is_coacc v x = is_coacc v0 x" by (simp_all add: old_same_def)
    with llo [of x] cosame [OF xs xb] a show "low_link v' x = low_link v0 x \<and> is_coacc v' x = is_coacc v0 x" by simp
  qed
  have parent: "p \<noteq> kNoStateId K \<longrightarrow>
      low_link v' p = min (low_link v0 p) (low_link v' s) \<and> is_coacc v' p = (is_coacc v0 p \<or> is_coacc v' s)"
  proof
    assume pk: "p \<noteq> kNoStateId K"
    note P = pf [OF pk]
    from P have pnw: "colour col0 p \<noteq> kDfsWhite" by simp
    with L(3) have o: "low_link v p = low_link v0 p" "is_coacc v p = is_coacc v0 p" by (simp_all add: old_same_def)
    have "co2 p = is_coacc v p" using c2out [of p] P by simp
    with cvp [OF pk] cvs o llp [OF pk] lls
    show "low_link v' p = min (low_link v0 p) (low_link v' s) \<and> is_coacc v' p = (is_coacc v0 p \<or> is_coacc v' s)" by simp
  qed
  from L(8) have low: "low_link v s \<le> df_num v s"
    and loww: "\<exists>w \<in> set (scc_stack v). df_num v w = low_link v s \<and> reach f s w"
    by (simp_all add: low_ok_def)
  have lowd: "low_link v' s \<le> df_num v' s" using low lls by (simp add: S(3))
  have stack: "\<exists>blk. scc_stack v' = blk @ scc_stack v0 \<and>
        (\<forall>x \<in> set blk. colour col' x = kDfsBlack \<and> colour col0 x = kDfsWhite) \<and>
        (if blk = [] then low_link v' s = df_num v' s
         else last blk = s \<and> low_link v' s < df_num v' s \<and>
              (\<exists>w \<in> set (scc_stack v0). df_num v0 w = low_link v' s \<and> reach f s w) \<and>
              (\<forall>x \<in> set blk. reach f x s \<and> reach f s x \<and>
                 (\<forall>u. (x, u) \<in> arc_rel f \<longrightarrow> edge_ok v' s x u)))"
  proof (cases "df_num v s = low_link v s")
    case True
    then have "scc_stack v' = [] @ scc_stack v0" by (simp add: stv)
    moreover have "low_link v' s = df_num v' s" using True lls by (simp add: S(3))
    ultimately show ?thesis by (intro exI [of _ "[]"]) simp
  next
    case False
    then have st: "scc_stack v' = (blk @ [s]) @ scc_stack v0" by (simp add: stv blk(1))
    have st': "scc_stack v' = scc_stack v" using False by (simp add: stv)
    have cols: "\<forall>x \<in> set (blk @ [s]). colour col' x = kDfsBlack \<and> colour col0 x = kDfsWhite"
      using blk(2) L(5) by (auto simp: c' blk_ok_def)
    have lt: "low_link v' s < df_num v' s" using False low lls by (simp add: S(3))
    from loww obtain w where w: "w \<in> set (scc_stack v)" "df_num v w = low_link v s" "reach f s w" by blast
    from w(2) False low have wl: "df_num v w < df_num v s" by simp
    with srt(1) [of w] w(1) blk(1) have w0: "w \<in> set (scc_stack v0)" by auto
    from gs0(8) [OF w0] F(1) have "df_num v w = df_num v0 w" by simp
    with w w0 lls have wit: "\<exists>w \<in> set (scc_stack v0). df_num v0 w = low_link v' s \<and> reach f s w" by auto
    have edges: "\<forall>x \<in> set (blk @ [s]). reach f x s \<and> reach f s x \<and>
                 (\<forall>u. (x, u) \<in> arc_rel f \<longrightarrow> edge_ok v' s x u)"
    proof (intro ballI)
      fix x assume "x \<in> set (blk @ [s])"
      then have xseg: "x \<in> set blk \<or> x = s" by auto
      have r: "reach f x s" "reach f s x" using segreach [OF xseg] segreach [OF _ xseg] by simp_all
      have "\<forall>u. (x, u) \<in> arc_rel f \<longrightarrow> edge_ok v' s x u"
      proof (intro allI impI)
        fix u assume e: "(x, u) \<in> arc_rel f"
        from seg_edge [OF xseg e] have eo: "edge_ok v s x u" by simp
        have 1: "u \<in> set (scc_stack v') \<longrightarrow> low_link v' s \<le> df_num v' u"
          using eo by (simp add: st' lls S(3) edge_ok_def)
        have 2: "u \<notin> set (scc_stack v') \<longrightarrow> is_coacc v' u \<longrightarrow> is_coacc v' x"
        proof (intro impI)
          assume a: "u \<notin> set (scc_stack v')" "is_coacc v' u"
          then have un: "u \<notin> set (scc_stack v)" by (simp add: st')
          with cosame2 [OF un] a eo have "is_coacc v x" by (simp add: edge_ok_def)
          then show "is_coacc v' x" by (rule cvmm)
        qed
        from 1 2 show "edge_ok v' s x u" by (simp add: edge_ok_def)
      qed
      with r show "reach f x s \<and> reach f s x \<and>
                 (\<forall>u. (x, u) \<in> arc_rel f \<longrightarrow> edge_ok v' s x u)" by simp
    qed
    show ?thesis
      by (rule exI [of _ "blk @ [s]"]) (use st cols lt wit edges in simp)
  qed
  have "dfs_post W f K s p col0 v0 col' v'"
    unfolding dfs_post_def
    using gi fr black less oldsame parent lowd stack by blast
  with fin show ?thesis by (simp add: col'_def)
qed

lemma nwhite_pos:
  assumes "colour col s = kDfsWhite" "0 \<le> s" "s < int (length col)"
  shows "0 < nwhite col"
proof -
  from assms have "col ! nat s = kDfsWhite" "nat s < length col" by (simp_all add: colour_nth)
  then have "kDfsWhite \<in> set (filter (\<lambda>c. c = kDfsWhite) col)" by (auto simp: in_set_conv_nth)
  then show ?thesis unfolding nwhite_def by (cases "filter (\<lambda>c. c = kDfsWhite) col") auto
qed

lemma loop_nwhite:
  assumes li: "loop_inv W f K r s p col0 v0 U col v" and len: "length col0 = length (mstates f)"
  shows "nwhite col < nwhite col0"
proof -
  note L = loop_invD [OF li]
  note gs = g_structD [OF ginvD(1) [OF L(1)]]
  show ?thesis
  proof (rule nwhite_frame_less)
    show "length col = length col0" using gs(1) len by simp
    show "\<And>x. colour col0 x \<noteq> kDfsWhite \<Longrightarrow> colour col x \<noteq> kDfsWhite"
      using frameD(1) [OF L(2)] by simp
    show "colour col0 s = kDfsWhite" by (rule L(5))
    show "colour col s \<noteq> kDfsWhite" using L(4) by simp
  qed
qed

lemma loop_child_pre:
  assumes wf: "wf_fst K f"
    and li: "loop_inv W f K r s p col0 v0 U col v"
    and tR: "(s, t) \<in> arc_rel f" and tw: "colour col t = kDfsWhite"
  shows "dfs_pre W f K r t s col v"
proof -
  note L = loop_invD [OF li]
  from arc_rel_range [OF wf tR] have tr: "0 \<le> t" "t < int (length (mstates f))" by simp_all
  from L(6) obtain blk where blk: "scc_stack v = blk @ s # scc_stack v0" "blk_ok f col0 col v s blk"
    by blast
  have r: "\<forall>y \<in> set (scc_stack v). reach f y t"
  proof
    fix y assume "y \<in> set (scc_stack v)"
    with blk L(7) have "reach f y s" by (auto simp: blk_ok_def reach_refl)
    from reach_trans [OF this reach_step [OF tR]] show "reach f y t" .
  qed
  have par: "parent_ok K f col s t" using L(4) tR by (simp add: parent_ok_def)
  have ph: "phase f r col t"
  proof (cases "r = mstart f")
    case True
    with L(11) have "accessible f s" by (auto simp: phase_def)
    then have "reach f (mstart f) s" by (simp add: accessible_def)
    from reach_trans [OF this reach_step [OF tR]] tr True show ?thesis
      by (simp add: phase_def accessible_def)
  next
    case False
    with L(11) have "\<forall>x. accessible f x \<longrightarrow> colour col0 x \<noteq> kDfsWhite" by (auto simp: phase_def)
    with frameD(1) [OF L(2)] have "\<forall>x. accessible f x \<longrightarrow> colour col x \<noteq> kDfsWhite" by auto
    with False show ?thesis by (simp add: phase_def)
  qed
  show ?thesis unfolding dfs_pre_def using L(1) tw tr r par ph by simp
qed

lemma DfsArcs_inv:
  assumes wf: "wf_fst K f"
    and visit: "\<And>t col v. nwhite col \<le> d \<Longrightarrow> dfs_pre W f K r t s col v \<Longrightarrow>
       \<exists>col' v'. visit t (col, v) = Some (col', v') \<and> dfs_post W f K t s col v col' v'"
    and len: "length col0 = length (mstates f)" and fuel: "nwhite col0 \<le> Suc d"
    and arcs: "\<forall>a \<in> set arcs. (s, nextstate a) \<in> arc_rel f"
    and li: "loop_inv W f K r s p col0 v0 U col v"
  shows "\<exists>col' v'. DfsArcs visit C s arcs (col, v) = Some (col', v') \<and>
           loop_inv W f K r s p col0 v0 (U \<union> nextstate ` set arcs) col' v'"
  using arcs li
proof (induction arcs arbitrary: U col v)
  case Nil
  then show ?case by simp
next
  case (Cons arc arcs)
  note li = Cons.prems(2)
  note L = loop_invD [OF li]
  note gs = g_structD [OF ginvD(1) [OF L(1)]]
  define t where "t = nextstate arc"
  from Cons.prems(1) have tR: "(s, t) \<in> arc_rel f"
    and rest: "\<forall>a \<in> set arcs. (s, nextstate a) \<in> arc_rel f"
    by (simp_all add: t_def)
  from arc_rel_range [OF wf tR] have tr: "0 \<le> t" "t < int (length (mstates f))" by simp_all
  from L(4) have snw: "colour col s \<noteq> kDfsWhite" by simp
  from colour_range [OF snw] gs(5) [OF snw] have sr: "0 \<le> s" "s < vsize v" by simp_all
  have get: "vget col (nextstate arc) = Some (colour col t)"
    using tr gs(1) by (simp add: t_def colour_def vget_vec_at)
  have step: "\<exists>col1 v1.
      (case colour col t of
         kDfsWhite \<Rightarrow> visit (nextstate arc) (col, TreeArc s arc v)
       | kDfsGrey \<Rightarrow> do { v' \<leftarrow> BackArc C s arc v; Some (col, v') }
       | kDfsBlack \<Rightarrow> do { v' \<leftarrow> ForwardOrCrossArc s arc v; Some (col, v') }) = Some (col1, v1) \<and>
      loop_inv W f K r s p col0 v0 (insert t U) col1 v1"
  proof (cases "colour col t")
    case kDfsWhite
    from loop_nwhite [OF li len] fuel have nd: "nwhite col \<le> d" by simp
    from visit [OF nd loop_child_pre [OF wf li tR kDfsWhite]]
    obtain col1 v1 where v: "visit t (col, v) = Some (col1, v1)"
      and post: "dfs_post W f K t s col v col1 v1" by blast
    from loop_child [OF wf li tR kDfsWhite post] v kDfsWhite show ?thesis
      by (simp add: TreeArc_def t_def)
  next
    case kDfsGrey
    then have tnw: "colour col t \<noteq> kDfsWhite" by simp
    from gs(5) [OF tnw] have tv: "nextstate arc < vsize v" by (simp add: t_def)
    from tr have t0: "0 \<le> nextstate arc" by (simp add: t_def)
    from BackArc_effect [OF gs(2) sr t0 tv, of C] obtain v1 where
      b: "BackArc C s arc v = Some v1" "same_rest v v1"
        "low_link v1 = (low_link v)(s := min (low_link v s) (df_num v t))" "on_stack v1 = on_stack v"
        "is_coacc v1 = (is_coacc v)(s := (is_coacc v s \<or> is_coacc v t))" "scc_stack v1 = scc_stack v"
      unfolding t_def by blast
    from loop_back [OF li tR kDfsGrey b(2) b(4) b(6) b(3) b(5)] b(1) kDfsGrey
    show ?thesis by simp
  next
    case kDfsBlack
    then have tnw: "colour col t \<noteq> kDfsWhite" by simp
    from gs(5) [OF tnw] have tv: "nextstate arc < vsize v" by (simp add: t_def)
    from tr have t0: "0 \<le> nextstate arc" by (simp add: t_def)
    from ForwardOrCrossArc_effect [OF gs(2) sr t0 tv] obtain v1 where
      b: "ForwardOrCrossArc s arc v = Some v1" "same_rest v v1"
        "low_link v1 = (low_link v)(s := (if df_num v t < df_num v s \<and> on_stack v t \<and> df_num v t < low_link v s
                              then df_num v t else low_link v s))" "on_stack v1 = on_stack v"
        "is_coacc v1 = (is_coacc v)(s := (is_coacc v s \<or> is_coacc v t))" "scc_stack v1 = scc_stack v"
      unfolding t_def by blast
    from loop_cross [OF li tR kDfsBlack b(2) b(4) b(6) b(3) b(5)] b(1) kDfsBlack
    show ?thesis by simp
  qed
  then obtain col1 v1 where
    s1: "(case colour col t of
         kDfsWhite \<Rightarrow> visit (nextstate arc) (col, TreeArc s arc v)
       | kDfsGrey \<Rightarrow> do { v' \<leftarrow> BackArc C s arc v; Some (col, v') }
       | kDfsBlack \<Rightarrow> do { v' \<leftarrow> ForwardOrCrossArc s arc v; Some (col, v') }) = Some (col1, v1)"
    and li1: "loop_inv W f K r s p col0 v0 (insert t U) col1 v1"
    by blast
  from Cons.IH [OF rest li1] obtain col' v' where
    r: "DfsArcs visit C s arcs (col1, v1) = Some (col', v')"
      "loop_inv W f K r s p col0 v0 (insert t U \<union> nextstate ` set arcs) col' v'"
    by blast
  have "DfsArcs visit C s (arc # arcs) (col, v) =
      (case colour col t of
         kDfsWhite \<Rightarrow> visit (nextstate arc) (col, TreeArc s arc v)
       | kDfsGrey \<Rightarrow> do { v' \<leftarrow> BackArc C s arc v; Some (col, v') }
       | kDfsBlack \<Rightarrow> do { v' \<leftarrow> ForwardOrCrossArc s arc v; Some (col, v') }) \<bind>
      DfsArcs visit C s arcs"
    by (cases "colour col t") (simp_all add: get)
  then have "DfsArcs visit C s (arc # arcs) (col, v) = Some (col', v')"
    using r(1) by (simp add: s1)
  moreover have "insert t U \<union> nextstate ` set arcs = U \<union> nextstate ` set (arc # arcs)"
    by (auto simp: t_def)
  ultimately show ?case using r(2) by simp
qed

lemma DfsState_correct:
  assumes wf: "wf_fst K f"
  shows "nwhite col \<le> depth \<Longrightarrow> dfs_pre W f K r s p col v \<Longrightarrow>
    \<exists>col' v'. DfsState depth K C W f r p s (col, v) = Some (col', v') \<and>
              dfs_post W f K s p col v col' v'"
proof (induction depth arbitrary: s p col v)
  case 0
  from 0(2) have a: "colour col s = kDfsWhite" "0 \<le> s" "s < int (length (mstates f))"
    and gi: "ginv W f col v"
    by (simp_all add: dfs_pre_def)
  from g_structD(1) [OF ginvD(1) [OF gi]] have "length col = length (mstates f)" .
  with nwhite_pos [of col s] a 0(1) show ?case by simp
next
  case (Suc d)
  note pre = Suc.prems(2)
  from pre have gi: "ginv W f col v" and sw: "colour col s = kDfsWhite"
    and sr: "0 \<le> s" "s < int (length (mstates f))"
    by (simp_all add: dfs_pre_def)
  note gs = g_structD [OF ginvD(1) [OF gi]]
  define col1 where "col1 = col[nat s := kDfsGrey]"
  have e1: "vset col s kDfsGrey = Some col1" using sr gs(1) by (simp add: vset_def col1_def)
  from InitState_effect [OF gs(2) sr(1), of K C r] obtain v1 where
    i: "InitState K C s r v = Some v1" "vs_ok v1" "vsize v1 = max (vsize v) (s + 1)"
      "df_num v1 = (df_num v)(s := nstates v)" "low_link v1 = (low_link v)(s := nstates v)"
      "on_stack v1 = (on_stack v)(s := True)" "is_coacc v1 = is_coacc v" "is_acc v1 = (is_acc v)(s := (r = vstart v))"
      "scc_stack v1 = s # scc_stack v" "nstates v1 = nstates v + 1" "vstart v1 = vstart v"
    by blast
  from loop_init [OF wf pre col1_def i(2-11)]
  have li: "loop_inv W f K r s p col v {} col1 v1" .
  define arcs where "arcs = st_arcs (mstates f ! nat s)"
  have e3: "FstArcs f s = Some arcs" using sr by (simp add: FstArcs_def vget_in arcs_def)
  have ar: "\<forall>a \<in> set arcs. (s, nextstate a) \<in> arc_rel f"
    using sr by (auto simp: arc_rel_def arcs_def)
  have all: "\<And>t. (s, t) \<in> arc_rel f \<Longrightarrow> t \<in> {} \<union> nextstate ` set arcs"
    by (auto simp: arc_rel_def arcs_def)
  from DfsArcs_inv [where visit = "DfsState d K C W f r s" and C = C,
      OF wf Suc.IH gs(1) Suc.prems(1) ar li]
  obtain col2 v2 where
    l: "DfsArcs (DfsState d K C W f r s) C s arcs (col1, v1) = Some (col2, v2)"
      "loop_inv W f K r s p col v ({} \<union> nextstate ` set arcs) col2 v2"
    by blast
  note gs2 = g_structD [OF ginvD(1) [OF loop_invD(1) [OF l(2)]]]
  have e5: "vset col2 s kDfsBlack = Some (col2[nat s := kDfsBlack])"
    using sr gs2(1) by (simp add: vset_def)
  from loop_finish [OF wf gi l(2) all, of C] obtain v3 where
    f: "FinishState K C W f s p v2 = Some v3"
      "dfs_post W f K s p col v (col2[nat s := kDfsBlack]) v3"
    by blast
  have "DfsState (Suc d) K C W f r p s (col, v) = Some (col2[nat s := kDfsBlack], v3)"
    using e1 i(1) e3 l(1) e5 f(1) by simp
  with f(2) show ?case by blast
qed

lemma InitState_grow_ci:
  "InitState_grow s v = Some v' \<Longrightarrow> coaccess_internal v' = coaccess_internal v"
proof (induction s v rule: InitState_grow.induct)
  case (1 s v)
  show ?case
  proof (cases "int (length (dfnumber v)) \<le> s")
    case False
    with 1(2) show ?thesis by (simp add: InitState_grow.simps [of s v])
  next
    case True
    with 1(2) obtain c where c: "coaccess v = Some c"
      by (cases "coaccess v") (simp_all add: InitState_grow.simps [of s v])
    from 1(1) [OF True c] 1(2) True c show ?thesis
      by (simp add: InitState_grow.simps [of s v])
  qed
qed

lemma InitState_ci:
  "InitState K C s root v = Some v' \<Longrightarrow> coaccess_internal v' = coaccess_internal v"
  unfolding InitState_def
  by (auto simp: bind_eq_Some_conv Let_def split: if_splits option.splits
           dest!: InitState_grow_ci)

lemma BackArc_ci:
  "BackArc C s arc v = Some v' \<Longrightarrow> coaccess_internal v' = coaccess_internal v"
  unfolding BackArc_def
  by (auto simp: bind_eq_Some_conv Let_def)

lemma ForwardOrCrossArc_ci:
  "ForwardOrCrossArc s arc v = Some v' \<Longrightarrow> coaccess_internal v' = coaccess_internal v"
  unfolding ForwardOrCrossArc_def
  by (auto simp: bind_eq_Some_conv Let_def)

lemma FinishState_pop_ci:
  "FinishState_pop s b stack v = Some v' \<Longrightarrow> coaccess_internal v' = coaccess_internal v"
proof (induction stack arbitrary: v)
  case Nil
  then show ?case by simp
next
  case (Cons t stack)
  from Cons.prems obtain sc c' os' where
    r: "(if s \<noteq> t
         then FinishState_pop s b stack
                (v\<lparr>scc := sc, coaccess := Some c', onstack := os', scc_stack := stack\<rparr>)
         else Some (v\<lparr>scc := sc, coaccess := Some c', onstack := os', scc_stack := stack\<rparr>))
        = Some v'"
    by (auto simp: bind_eq_Some_conv Let_def)
  show ?case
  proof (cases "s = t")
    case True
    with r show ?thesis by auto
  next
    case False
    with r Cons.IH [of "v\<lparr>scc := sc, coaccess := Some c', onstack := os', scc_stack := stack\<rparr>"]
    show ?thesis by simp
  qed
qed

lemma FinishState_scc_ci:
  assumes "FinishState_scc K C s v = Some v'"
  shows "coaccess_internal v' = coaccess_internal v"
proof -
  from assms obtain b v1 where p: "FinishState_pop s b (scc_stack v) v = Some v1"
    and v': "(let v'' = (if \<not> b
                  then v1\<lparr>props := (props v1 OR kNotCoAccessible C) AND NOT (kCoAccessible K)\<rparr>
                  else v1) in Some (v''\<lparr>nscc := nscc v'' + 1\<rparr>)) = Some v'"
    by (auto simp: FinishState_scc_def bind_eq_Some_conv)
  from v' have "coaccess_internal v' = coaccess_internal v1"
    by (cases b) (auto simp: Let_def)
  with FinishState_pop_ci [OF p] show ?thesis by simp
qed

lemma FinishState_parent_ci:
  "FinishState_parent s p v = Some v' \<Longrightarrow> coaccess_internal v' = coaccess_internal v"
  unfolding FinishState_parent_def
  by (auto simp: bind_eq_Some_conv Let_def)

lemma FinishState_ci:
  "FinishState K C W f s p v = Some v' \<Longrightarrow> coaccess_internal v' = coaccess_internal v"
  unfolding FinishState_def
  by (auto simp: bind_eq_Some_conv Let_def split: if_splits
           dest!: FinishState_parent_ci FinishState_scc_ci)

lemma DfsArcs_ci:
  assumes visit: "\<And>t cv cv'. visit t cv = Some cv' \<Longrightarrow>
                    coaccess_internal (snd cv') = coaccess_internal (snd cv)"
  shows "DfsArcs visit C s arcs cv = Some cv' \<Longrightarrow>
         coaccess_internal (snd cv') = coaccess_internal (snd cv)"
proof (induction arcs arbitrary: cv)
  case Nil
  then show ?case by simp
next
  case (Cons arc arcs)
  from Cons.prems obtain color cv1 where
    c: "(case color of
           kDfsWhite \<Rightarrow> visit (nextstate arc) (fst cv, TreeArc s arc (snd cv))
         | kDfsGrey \<Rightarrow> do { v' \<leftarrow> BackArc C s arc (snd cv); Some (fst cv, v') }
         | kDfsBlack \<Rightarrow> do { v' \<leftarrow> ForwardOrCrossArc s arc (snd cv); Some (fst cv, v') })
        = Some cv1"
    and r: "DfsArcs visit C s arcs cv1 = Some cv'"
    by (auto simp: bind_eq_Some_conv)
  have "coaccess_internal (snd cv1) = coaccess_internal (snd cv)"
  proof (cases color)
    case kDfsWhite
    with c visit [of "nextstate arc" "(fst cv, TreeArc s arc (snd cv))" cv1] show ?thesis
      by (simp add: TreeArc_def)
  next
    case kDfsGrey
    with c show ?thesis by (auto simp: bind_eq_Some_conv dest!: BackArc_ci)
  next
    case kDfsBlack
    with c show ?thesis by (auto simp: bind_eq_Some_conv dest!: ForwardOrCrossArc_ci)
  qed
  with Cons.IH [OF r] show ?case by simp
qed

lemma DfsState_ci:
  "DfsState depth K C W f root p s cv = Some cv' \<Longrightarrow>
   coaccess_internal (snd cv') = coaccess_internal (snd cv)"
proof (induction depth arbitrary: p s cv cv')
  case 0
  then show ?case by simp
next
  case (Suc d)
  have vis: "\<And>t cv cv'. DfsState d K C W f root s t cv = Some cv' \<Longrightarrow>
                 coaccess_internal (snd cv') = coaccess_internal (snd cv)"
    by (rule Suc.IH)
  from Suc.prems obtain col1 v1 arcs col2 v2 col3 v3 where
    a: "InitState K C s root (snd cv) = Some v1"
      "DfsArcs (DfsState d K C W f root s) C s arcs (col1, v1) = Some (col2, v2)"
      "FinishState K C W f s p v2 = Some v3" "cv' = (col3, v3)" "FstArcs f s = Some arcs"
    by (auto simp: bind_eq_Some_conv)
  from DfsArcs_ci [of "DfsState d K C W f root s", OF vis a(2)]
  have "coaccess_internal v2 = coaccess_internal v1" by simp
  with InitState_ci [OF a(1)] FinishState_ci [OF a(3)] a(4) show ?case by simp
qed

lemma nwhite_le: "nwhite col \<le> length col"
  by (simp add: nwhite_def)

lemma top_no_grey:
  assumes "top_inv W f col v"
  shows "colour col x \<noteq> kDfsGrey"
proof
  assume g: "colour col x = kDfsGrey"
  from assms have gi: "ginv W f col v" and st: "scc_stack v = []" by (simp_all add: top_inv_def)
  from g_structD(11) [OF ginvD(1) [OF gi] g] st show False by simp
qed

lemma black_closed:
  assumes ti: "top_inv W f col v" and b: "colour col x = kDfsBlack" and r: "reach f x y"
  shows "colour col y = kDfsBlack"
proof -
  from ti have gi: "ginv W f col v" by (simp add: top_inv_def)
  from r have "(x, y) \<in> (arc_rel f)\<^sup>*" by (simp add: reach_def)
  then show ?thesis
  proof (induction rule: rtrancl_induct)
    case base
    show ?case by (rule b)
  next
    case (step y z)
    from g_coaccD(4) [OF ginvD(2) [OF gi] step.IH step.hyps(2)] top_no_grey [OF ti, of z]
    show ?case by (cases "colour col z") auto
  qed
qed

lemma accessible_start:
  assumes "accessible f x"
  shows "0 \<le> mstart f \<and> mstart f < int (length (mstates f))"
proof -
  from assms have x: "0 \<le> x" "x < int (length (mstates f))" and "(mstart f, x) \<in> (arc_rel f)\<^sup>*"
    by (simp_all add: accessible_def reach_def)
  from this(3) show ?thesis
  proof (cases rule: converse_rtranclE)
    case base
    with x show ?thesis by simp
  next
    case (step y)
    then show ?thesis by (simp add: arc_rel_def)
  qed
qed

lemma root_step:
  assumes wf: "wf_fst K f" and ti: "top_inv W f col v"
    and r: "0 \<le> r" "r < int (length (mstates f))"
    and ph: "(r = mstart f \<and> colour col r = kDfsWhite) \<or> acc_seen f col"
  shows "\<exists>col' v'.
      (if colour col r = kDfsWhite
       then DfsState (length (mstates f)) K C W f r (kNoStateId K) r (col, v)
       else Some (col, v)) = Some (col', v') \<and>
      top_inv W f col' v' \<and> acc_seen f col' \<and> colour col' r \<noteq> kDfsWhite \<and>
      (\<forall>x. colour col x \<noteq> kDfsWhite \<longrightarrow> colour col' x \<noteq> kDfsWhite) \<and>
      coaccess_internal v' = coaccess_internal v"
proof (cases "colour col r = kDfsWhite")
  case False
  with ph have "acc_seen f col" by simp
  with False ti show ?thesis by simp
next
  case True
  from ti have gi: "ginv W f col v" and st: "scc_stack v = []" by (simp_all add: top_inv_def)
  note gs = g_structD [OF ginvD(1) [OF gi]]
  have phs: "phase f r col r"
  proof (cases "r = mstart f")
    case True
    then show ?thesis using r by (simp add: phase_def accessible_def reach_refl)
  next
    case False
    with ph show ?thesis by (simp add: phase_def acc_seen_def)
  qed
  have pre: "dfs_pre W f K r r (kNoStateId K) col v"
    unfolding dfs_pre_def using gi True r st phs by (simp add: parent_ok_def)
  have fuel: "nwhite col \<le> length (mstates f)" using nwhite_le [of col] gs(1) by simp
  from DfsState_correct [OF wf fuel pre, of C] obtain col' v' where
    d: "DfsState (length (mstates f)) K C W f r (kNoStateId K) r (col, v) = Some (col', v')"
    and post: "dfs_post W f K r (kNoStateId K) col v col' v'"
    by blast
  note P = dfs_postD [OF post]
  from P(8) st have st': "scc_stack v' = []" by (auto split: if_splits)
  with P(1) have ti': "top_inv W f col' v'" by (simp add: top_inv_def)
  have mono: "\<forall>x. colour col x \<noteq> kDfsWhite \<longrightarrow> colour col' x \<noteq> kDfsWhite"
    using frameD(1) [OF P(2)] by simp
  have seen: "acc_seen f col'"
  proof (cases "r = mstart f")
    case True
    show ?thesis
      unfolding acc_seen_def
    proof (intro allI impI)
      fix x assume "accessible f x"
      then have "reach f r x" using True by (simp add: accessible_def)
      from black_closed [OF ti' P(3) this] show "colour col' x \<noteq> kDfsWhite" by simp
    qed
  next
    case False
    with ph have "acc_seen f col" by simp
    with mono show ?thesis by (simp add: acc_seen_def)
  qed
  from DfsState_ci [OF d] have "coaccess_internal v' = coaccess_internal v" by simp
  with d ti' seen P(3) mono True show ?thesis by simp
qed

lemma DfsRoots_inv:
  assumes wf: "wf_fst K f"
  shows "top_inv W f col v \<Longrightarrow>
    \<forall>r \<in> set roots. 0 \<le> r \<and> r < int (length (mstates f)) \<Longrightarrow>
    acc_seen f col \<or> (roots \<noteq> [] \<and> hd roots = mstart f \<and> colour col (mstart f) = kDfsWhite) \<Longrightarrow>
    \<exists>col' v'. DfsRoots K C W f roots (col, v) = Some (col', v') \<and>
      top_inv W f col' v' \<and> acc_seen f col' \<and>
      (\<forall>r \<in> set roots. colour col' r \<noteq> kDfsWhite) \<and>
      (\<forall>x. colour col x \<noteq> kDfsWhite \<longrightarrow> colour col' x \<noteq> kDfsWhite) \<and>
      coaccess_internal v' = coaccess_internal v"
proof (induction roots arbitrary: col v)
  case Nil
  then show ?case by simp
next
  case (Cons r roots)
  from Cons.prems(1) have gi: "ginv W f col v" by (simp add: top_inv_def)
  note gs = g_structD [OF ginvD(1) [OF gi]]
  from Cons.prems(2) have r: "0 \<le> r" "r < int (length (mstates f))"
    and rest: "\<forall>r \<in> set roots. 0 \<le> r \<and> r < int (length (mstates f))"
    by simp_all
  from Cons.prems(3) have ph: "(r = mstart f \<and> colour col r = kDfsWhite) \<or> acc_seen f col"
    by auto
  from root_step [OF wf Cons.prems(1) r ph, of C] obtain col1 v1 where
    s: "(if colour col r = kDfsWhite
         then DfsState (length (mstates f)) K C W f r (kNoStateId K) r (col, v)
         else Some (col, v)) = Some (col1, v1)"
      "top_inv W f col1 v1" "acc_seen f col1" "colour col1 r \<noteq> kDfsWhite"
      "\<forall>x. colour col x \<noteq> kDfsWhite \<longrightarrow> colour col1 x \<noteq> kDfsWhite"
      "coaccess_internal v1 = coaccess_internal v"
    by blast
  from Cons.IH [OF s(2) rest] s(3) obtain col' v' where
    t: "DfsRoots K C W f roots (col1, v1) = Some (col', v')"
      "top_inv W f col' v'" "acc_seen f col'"
      "\<forall>r \<in> set roots. colour col' r \<noteq> kDfsWhite"
      "\<forall>x. colour col1 x \<noteq> kDfsWhite \<longrightarrow> colour col' x \<noteq> kDfsWhite"
      "coaccess_internal v' = coaccess_internal v1"
    by blast
  have get: "vget col r = Some (colour col r)" using r gs(1) by (simp add: colour_def vget_vec_at)
  have "DfsRoots K C W f (r # roots) (col, v) =
      (if colour col r = kDfsWhite
       then DfsState (length (mstates f)) K C W f r (kNoStateId K) r (col, v)
       else Some (col, v)) \<bind> DfsRoots K C W f roots"
    by (simp add: get)
  then have "DfsRoots K C W f (r # roots) (col, v) = Some (col', v')"
    using t(1) by (simp add: s(1))
  with t s show ?case by simp
qed

lemma init_top_inv:
  "top_inv W f (replicate (length (mstates f)) kDfsWhite)
     (InitVisit K C f (SccVisitor_ctor None (Some []) (Some []) 0))"
proof -
  let ?v = "InitVisit K C f (SccVisitor_ctor None (Some []) (Some []) 0)"
  let ?col = "replicate (length (mstates f)) kDfsWhite"
  have c: "colour ?col = (\<lambda>x. kDfsWhite)" by (simp add: colour_def vec_at_replicate)
  have v: "scc_stack ?v = []" "vs_ok ?v" "vsize ?v = 0" "vstart ?v = mstart f"
    "on_stack ?v = (\<lambda>x. False)" "is_coacc ?v = (\<lambda>x. False)"
    by (simp_all add: InitVisit_def SccVisitor_ctor_def vs_ok_def vsize_def on_stack_def is_coacc_def vec_at_Nil)
  have "g_struct f ?col ?v" unfolding g_struct_def by (simp add: c v)
  moreover have "g_coacc W f ?col ?v" unfolding g_coacc_def by (simp add: c v donest_def)
  moreover have "g_access f ?col ?v" unfolding g_access_def by (simp add: c)
  ultimately show ?thesis by (simp add: top_inv_def ginv_def v)
qed

lemma co_complete:
  assumes wf: "wf_fst K f" and ti: "top_inv W f col v"
    and all: "\<And>x. 0 \<le> x \<Longrightarrow> x < int (length (mstates f)) \<Longrightarrow> colour col x \<noteq> kDfsWhite"
    and x: "0 \<le> x" "x < int (length (mstates f))"
    and c: "coaccessible W f x"
  shows "is_coacc v x"
proof -
  from ti have gi: "ginv W f col v" and st: "scc_stack v = []" by (simp_all add: top_inv_def)
  note gc = g_coaccD [OF ginvD(2) [OF gi]]
  have blk: "\<And>x. 0 \<le> x \<Longrightarrow> x < int (length (mstates f)) \<Longrightarrow> colour col x = kDfsBlack"
  proof -
    fix x assume "0 \<le> x" "x < int (length (mstates f))"
    from all [OF this] top_no_grey [OF ti, of x] show "colour col x = kDfsBlack"
      by (cases "colour col x") auto
  qed
  from c obtain t where t: "reach f x t" "is_final W f t" by (auto simp: coaccessible_def)
  from t(2) have "0 \<le> t" "t < int (length (mstates f))" by (simp_all add: is_final_def)
  from gc(2) [OF blk [OF this] t(2)] have ct: "is_coacc v t" .
  from t(1) have "(x, t) \<in> (arc_rel f)\<^sup>*" by (simp add: reach_def)
  then show ?thesis using x
  proof (induction rule: converse_rtrancl_induct)
    case base
    show ?case by (rule ct)
  next
    case (step y z)
    from arc_rel_range [OF wf step.hyps(1)] have z: "0 \<le> z" "z < int (length (mstates f))"
      by simp_all
    from step.IH [OF z] have cz: "is_coacc v z" .
    from blk [OF step.prems] st have "donest col v y" by (simp add: donest_def)
    from gc(3) [OF this step.hyps(1)] cz show ?case by simp
  qed
qed

lemma DfsVisit_result:
  assumes wf: "wf_fst K f"
  shows "\<exists>v a c. DfsVisit K C W f (SccVisitor_ctor None (Some []) (Some []) 0) = Some v \<and>
     access v = Some a \<and> coaccess v = Some c \<and>
     length a = length (mstates f) \<and> length c = length (mstates f) \<and>
     (\<forall>s. 0 \<le> s \<and> s < int (length (mstates f)) \<longrightarrow>
        (a ! nat s \<longleftrightarrow> accessible f s) \<and> (c ! nat s \<longleftrightarrow> coaccessible W f s))"
proof -
  let ?n = "length (mstates f)"
  let ?v0 = "InitVisit K C f (SccVisitor_ctor None (Some []) (Some []) 0)"
  let ?col0 = "replicate ?n kDfsWhite"
  let ?roots = "(if 0 \<le> mstart f \<and> mstart f < int ?n then [mstart f] else []) @ map int [0..<?n]"
  have rng: "\<forall>r \<in> set ?roots. 0 \<le> r \<and> r < int ?n" by auto
  have c0: "colour ?col0 = (\<lambda>x. kDfsWhite)" by (simp add: colour_def vec_at_replicate)
  have ph: "acc_seen f ?col0 \<or>
      (?roots \<noteq> [] \<and> hd ?roots = mstart f \<and> colour ?col0 (mstart f) = kDfsWhite)"
  proof (cases "0 \<le> mstart f \<and> mstart f < int ?n")
    case True
    then show ?thesis by (simp add: c0)
  next
    case False
    with accessible_start [of f] have "acc_seen f ?col0" unfolding acc_seen_def by blast
    then show ?thesis by simp
  qed
  from DfsRoots_inv [OF wf init_top_inv rng ph, of C] obtain col v where
    d: "DfsRoots K C W f ?roots (?col0, ?v0) = Some (col, v)"
    and ti: "top_inv W f col v" and all: "\<forall>r \<in> set ?roots. colour col r \<noteq> kDfsWhite"
    and ci: "coaccess_internal v = coaccess_internal ?v0"
    by blast
  from ti have gi: "ginv W f col v" by (simp add: top_inv_def)
  note gs = g_structD [OF ginvD(1) [OF gi]]
  note gc = g_coaccD [OF ginvD(2) [OF gi]]
  have nw: "\<And>x. 0 \<le> x \<Longrightarrow> x < int ?n \<Longrightarrow> colour col x \<noteq> kDfsWhite"
  proof -
    fix x :: int assume "0 \<le> x" "x < int ?n"
    then have "x \<in> set (map int [0..<?n])" by (auto simp: image_iff intro!: bexI [of _ "nat x"])
    with all show "colour col x \<noteq> kDfsWhite" by auto
  qed
  have sz: "vsize v = int ?n"
  proof (cases "?n = 0")
    case True
    with gs(3) show ?thesis by (simp add: vsize_def)
  next
    case False
    then have "colour col (int ?n - 1) \<noteq> kDfsWhite" by (intro nw) auto
    from gs(5) [OF this] gs(3) show ?thesis by simp
  qed
  from gs(2) obtain a c where vecs: "access v = Some a" "coaccess v = Some c"
    "length a = length (dfnumber v)" "length c = length (dfnumber v)"
    by (auto simp: vs_ok_def)
  from sz vecs have len: "length a = ?n" "length c = ?n" by (simp_all add: vsize_def)
  have ci0: "\<not> coaccess_internal v" using ci by (simp add: InitVisit_def SccVisitor_ctor_def)
  have fin: "access (FinishVisit v) = Some a" "coaccess (FinishVisit v) = Some c"
    using vecs ci0 by (simp_all add: FinishVisit_def)
  have run: "DfsVisit K C W f (SccVisitor_ctor None (Some []) (Some []) 0) = Some (FinishVisit v)"
    unfolding DfsVisit_def Let_def by (simp add: d)
  have res: "\<forall>s. 0 \<le> s \<and> s < int ?n \<longrightarrow>
        (a ! nat s \<longleftrightarrow> accessible f s) \<and> (c ! nat s \<longleftrightarrow> coaccessible W f s)"
  proof (intro allI impI)
    fix s assume s: "0 \<le> s \<and> s < int ?n"
    then have s': "0 \<le> s" "s < int ?n" by simp_all
    have "is_acc v s = a ! nat s" "is_coacc v s = c ! nat s"
      using s len vecs by (simp_all add: is_acc_def is_coacc_def vec_at_def vget_def)
    moreover have "is_acc v s \<longleftrightarrow> accessible f s"
      using ginvD(3) [OF gi] nw [OF s'] by (simp add: g_access_def)
    moreover have "is_coacc v s \<longleftrightarrow> coaccessible W f s"
      using gc(1) [of s] co_complete [OF wf ti nw s'] by blast
    ultimately show "(a ! nat s \<longleftrightarrow> accessible f s) \<and> (c ! nat s \<longleftrightarrow> coaccessible W f s)"
      by simp
  qed
  from run fin len res show ?thesis by blast
qed

lemma Connect_dstates_filter:
  "\<forall>s \<in> set ss. 0 \<le> s \<and> s < int (length a) \<and> s < int (length c) \<Longrightarrow>
   Connect_dstates a c ss = Some (filter (\<lambda>s. \<not> (a ! nat s \<and> c ! nat s)) ss)"
  by (induction ss) (auto simp: vget_in)

lemma Connect_result:
  assumes wf: "wf_fst K f"
  shows "Connect K C W f =
     Some (MSetProperties K (kAccessible K OR kCoAccessible K) (kAccessible K OR kCoAccessible K)
       (DeleteStates K
          (filter (\<lambda>s. \<not> (accessible f s \<and> coaccessible W f s))
                  (map int [0..<length (mstates f)])) f))"
proof -
  from DfsVisit_result [OF wf, of C W] obtain v a c where
    r: "DfsVisit K C W f (SccVisitor_ctor None (Some []) (Some []) 0) = Some v"
      "access v = Some a" "coaccess v = Some c"
      "length a = length (mstates f)" "length c = length (mstates f)"
      "\<forall>s. 0 \<le> s \<and> s < int (length (mstates f)) \<longrightarrow>
        (a ! nat s \<longleftrightarrow> accessible f s) \<and> (c ! nat s \<longleftrightarrow> coaccessible W f s)"
    by blast
  have rng: "\<forall>s \<in> set (map int [0..<length a]). 0 \<le> s \<and> s < int (length a) \<and> s < int (length c)"
    using r(4,5) by auto
  have "filter (\<lambda>s. \<not> (a ! nat s \<and> c ! nat s)) (map int [0..<length a]) =
        filter (\<lambda>s. \<not> (accessible f s \<and> coaccessible W f s)) (map int [0..<length (mstates f)])"
    unfolding r(4)
  proof (rule filter_cong [OF refl])
    fix x assume "x \<in> set (map int [0..<length (mstates f)])"
    then have "0 \<le> x \<and> x < int (length (mstates f))" by auto
    with r(6) show "(\<not> (a ! nat x \<and> c ! nat x)) = (\<not> (accessible f x \<and> coaccessible W f x))"
      by simp
  qed
  with Connect_dstates_filter [OF rng] r(1-3) show ?thesis
    by (simp add: Connect_def)
qed

lemma useful_range: "useful W f s \<Longrightarrow> 0 \<le> s \<and> s < int (length (mstates f))"
  by (simp add: useful_def accessible_def)

lemma kept_dead: "kept (dead_states W f) f = useful W f"
proof
  fix s
  show "kept (dead_states W f) f s = useful W f s"
  proof (cases "0 \<le> s \<and> s < int (length (mstates f))")
    case True
    then have "s \<in> set (map int [0..<length (mstates f)])"
      by (auto simp: image_iff intro!: bexI [of _ "nat s"])
    with True show ?thesis by (auto simp: kept_def dead_states_def)
  next
    case False
    with useful_range [of W f s] show ?thesis by (auto simp: kept_def)
  qed
qed

lemma newid_dead:
  "newid (dead_states W f) f s = int (length (filter (useful W f) (map int [0..<nat s])))"
  by (simp add: newid_def kept_dead)

lemma live_split:
  assumes u: "useful W f s"
  shows "live_states W f = filter (useful W f) (map int [0..<nat s]) @ s #
           filter (useful W f) (map int [Suc (nat s)..<length (mstates f)])"
proof -
  from useful_range [OF u] have r: "0 \<le> s" "nat s < length (mstates f)" by auto
  then have "[0..<length (mstates f)] = [0..<nat s] @ nat s # [Suc (nat s)..<length (mstates f)]"
    by (metis le0 upt_add_eq_append upt_conv_Cons le_add_diff_inverse less_imp_le_nat add_0)
  then have "map int [0..<length (mstates f)] =
      map int [0..<nat s] @ s # map int [Suc (nat s)..<length (mstates f)]"
    using r(1) by simp
  with u show ?thesis by (simp add: live_states_def)
qed

lemma live_position:
  assumes u: "useful W f s"
  shows "nat (newid (dead_states W f) f s) < length (live_states W f)"
    "live_states W f ! nat (newid (dead_states W f) f s) = s"
  by (simp_all add: newid_dead live_split [OF u] nth_append)

lemma live_distinct: "distinct (live_states W f)"
  by (simp add: live_states_def distinct_map)

lemma live_index:
  assumes j: "j < length (live_states W f)"
  shows "useful W f (live_states W f ! j)"
    "newid (dead_states W f) f (live_states W f ! j) = int j"
proof -
  from j have "live_states W f ! j \<in> set (live_states W f)" by simp
  then show u: "useful W f (live_states W f ! j)" by (simp add: live_states_def)
  from live_position [OF u] j live_distinct [of W f]
  have "nat (newid (dead_states W f) f (live_states W f ! j)) = j"
    by (simp add: nth_eq_iff_index_eq)
  moreover have "0 \<le> newid (dead_states W f) f (live_states W f ! j)" by (simp add: newid_def)
  ultimately show "newid (dead_states W f) f (live_states W f ! j) = int j" by simp
qed

lemma DeleteStates_mstates:
  "mstates (DeleteStates K (dead_states W f) f) =
     map (\<lambda>s. DeleteStates_state (dead_states W f) f (mstates f ! nat s)) (live_states W f)"
  by (simp add: DeleteStates_def kept_dead live_states_def)

lemma DeleteStates_nth:
  assumes u: "useful W f s"
  shows "nat (newid (dead_states W f) f s) < length (mstates (DeleteStates K (dead_states W f) f))"
    "mstates (DeleteStates K (dead_states W f) f) ! nat (newid (dead_states W f) f s) =
       DeleteStates_state (dead_states W f) f (mstates f ! nat s)"
  using live_position [OF u] by (simp_all add: DeleteStates_mstates)

lemma DeleteStates_arc:
  assumes e: "(s, t) \<in> arc_rel f" and us: "useful W f s" and ut: "useful W f t"
  shows "(newid (dead_states W f) f s, newid (dead_states W f) f t)
           \<in> arc_rel (DeleteStates K (dead_states W f) f)"
proof -
  let ?D = "dead_states W f"
  from e obtain a where a: "a \<in> set (st_arcs (mstates f ! nat s))" "t = nextstate a"
    by (auto simp: arc_rel_def)
  have "newid ?D f t \<in> nextstate ` set (st_arcs (DeleteStates_state ?D f (mstates f ! nat s)))"
    using a ut by (force simp: DeleteStates_state_def kept_dead image_iff)
  moreover have "0 \<le> newid ?D f s" by (simp add: newid_def)
  ultimately show ?thesis
    using DeleteStates_nth [OF us, of K] by (simp add: arc_rel_def)
qed

lemma useful_pred:
  assumes "(y, z) \<in> arc_rel f" "accessible f x" "reach f x y" "coaccessible W f z"
  shows "useful W f y"
proof -
  from assms(1) have "0 \<le> y" "y < int (length (mstates f))" by (simp_all add: arc_rel_def)
  moreover from assms(2,3) have "reach f (mstart f) y"
    using reach_trans by (auto simp: accessible_def)
  ultimately have "accessible f y" by (simp add: accessible_def)
  with coaccessible_step [OF assms(1,4)] show ?thesis by (simp add: useful_def)
qed

lemma DeleteStates_reach:
  assumes r: "reach f x y" and ux: "useful W f x" and uy: "useful W f y"
  shows "reach (DeleteStates K (dead_states W f) f)
           (newid (dead_states W f) f x) (newid (dead_states W f) f y)"
proof -
  from r have "(x, y) \<in> (arc_rel f)\<^sup>*" by (simp add: reach_def)
  then show ?thesis using uy
  proof (induction rule: rtrancl_induct)
    case base
    show ?case by (rule reach_refl)
  next
    case (step y z)
    from step.hyps(1) have rxy: "reach f x y" by (simp add: reach_def)
    from ux step.prems have "accessible f x" "coaccessible W f z" by (simp_all add: useful_def)
    from useful_pred [OF step.hyps(2) this(1) rxy this(2)] have uy: "useful W f y" .
    from reach_trans [OF step.IH [OF uy] reach_step [OF DeleteStates_arc [OF step.hyps(2) uy step.prems]]]
    show ?case .
  qed
qed

lemma useful_start:
  assumes u: "useful W f s"
  shows "useful W f (mstart f)"
proof -
  from u have a: "accessible f s" and c: "coaccessible W f s" by (simp_all add: useful_def)
  from accessible_start [OF a] have "accessible f (mstart f)"
    by (simp add: accessible_def reach_refl)
  moreover from a have "reach f (mstart f) s" by (simp add: accessible_def)
  from coaccessible_reach [OF this c] have "coaccessible W f (mstart f)" .
  ultimately show ?thesis by (simp add: useful_def)
qed

lemma DeleteStates_trim:
  assumes j: "0 \<le> j" "j < int (length (mstates (DeleteStates K (dead_states W f) f)))"
  shows "accessible (DeleteStates K (dead_states W f) f) j"
    "coaccessible W (DeleteStates K (dead_states W f) f) j"
proof -
  let ?D = "dead_states W f"
  let ?g = "DeleteStates K ?D f"
  from j have jl: "nat j < length (live_states W f)" by (simp add: DeleteStates_mstates)
  define s where "s = live_states W f ! nat j"
  from live_index [OF jl] j(1) have u: "useful W f s" and id: "newid ?D f s = j"
    by (simp_all add: s_def)
  from u have a: "accessible f s" and c: "coaccessible W f s" by (simp_all add: useful_def)
  from useful_start [OF u] have us: "useful W f (mstart f)" .
  then have st: "mstart ?g = newid ?D f (mstart f)" by (simp add: DeleteStates_def kept_dead)
  from a have "reach f (mstart f) s" by (simp add: accessible_def)
  from DeleteStates_reach [OF this us u, of K] have "reach ?g (mstart ?g) j" by (simp add: st id)
  with j show "accessible ?g j" by (simp add: accessible_def)
  from c obtain t where t: "reach f s t" "is_final W f t" by (auto simp: coaccessible_def)
  from t(2) have tr: "0 \<le> t" "t < int (length (mstates f))"
    and tf: "st_final (mstates f ! nat t) \<noteq> Zero W"
    by (simp_all add: is_final_def)
  from a t(1) tr have "accessible f t" using reach_trans by (auto simp: accessible_def)
  moreover from t(2) have "coaccessible W f t" unfolding coaccessible_def using reach_refl by blast
  ultimately have ut: "useful W f t" by (simp add: useful_def)
  from DeleteStates_reach [OF t(1) u ut, of K] have r: "reach ?g j (newid ?D f t)" by (simp add: id)
  have "0 \<le> newid ?D f t" by (simp add: newid_def)
  with DeleteStates_nth [OF ut, of K] tf have "is_final W ?g (newid ?D f t)"
    by (simp add: is_final_def DeleteStates_state_def)
  with r show "coaccessible W ?g j" unfolding coaccessible_def by blast
qed

lemma DeleteStates_arc_range:
  assumes j: "0 \<le> j" "j < int (length (mstates (DeleteStates K (dead_states W f) f)))"
    and a: "a \<in> set (st_arcs (mstates (DeleteStates K (dead_states W f) f) ! nat j))"
  shows "0 \<le> nextstate a \<and>
         nextstate a < int (length (mstates (DeleteStates K (dead_states W f) f)))"
proof -
  let ?D = "dead_states W f"
  from j have jl: "nat j < length (live_states W f)" by (simp add: DeleteStates_mstates)
  with a obtain a0 where a0: "useful W f (nextstate a0)" "a = a0\<lparr>nextstate := newid ?D f (nextstate a0)\<rparr>"
    by (auto simp: DeleteStates_mstates DeleteStates_state_def kept_dead)
  from DeleteStates_nth(1) [OF a0(1), of K] a0(2) show ?thesis by (simp add: newid_def)
qed

lemma MSetProperties_graph:
  "arc_rel (MSetProperties K a b g) = arc_rel g"
  "reach (MSetProperties K a b g) = reach g"
  "accessible (MSetProperties K a b g) = accessible g"
  "coaccessible W (MSetProperties K a b g) = coaccessible W g"
  "mstates (MSetProperties K a b g) = mstates g"
proof -
  show m: "mstates (MSetProperties K a b g) = mstates g" by (simp add: MSetProperties_def)
  have s: "mstart (MSetProperties K a b g) = mstart g" by (simp add: MSetProperties_def)
  show r: "arc_rel (MSetProperties K a b g) = arc_rel g" by (simp add: arc_rel_def m)
  show r': "reach (MSetProperties K a b g) = reach g" by (simp add: reach_def r fun_eq_iff)
  show "accessible (MSetProperties K a b g) = accessible g"
    by (simp add: accessible_def r' m s fun_eq_iff)
  have "is_final W (MSetProperties K a b g) = is_final W g" by (simp add: is_final_def m fun_eq_iff)
  then show "coaccessible W (MSetProperties K a b g) = coaccessible W g"
    by (simp add: coaccessible_def r' fun_eq_iff)
qed

lemma ex_mfst_wf: "wf_fst K0 ex_mfst"
  by (simp add: wf_fst_def ex_mfst_def K0_def mk_arc_def)

lemma ex_connect:
  "map_option (\<lambda>g. (mstart g, map (\<lambda>st. (st_final st, map nextstate (st_arcs st))) (mstates g)))
     (Connect K0 C0 W_nat ex_mfst) = Some (0, [(0, [1]), (0, [2]), (1, [])])"
  by code_simp

lemma arc_of_map:
  assumes "map (\<lambda>st. (st_final st, map nextstate (st_arcs st))) sts ! j = (w, [t])"
    and "j < length sts"
  shows "\<exists>a. a \<in> set (st_arcs (sts ! j)) \<and> nextstate a = t"
proof -
  from assms have "map nextstate (st_arcs (sts ! j)) = [t]" by simp
  then show ?thesis by (cases "st_arcs (sts ! j)") auto
qed

section \<open>The claims\<close>

subsection \<open>C1: orientation of the emitted arcs\<close>

text \<open>
  Claim C1. Let \<open>s\<close> be a composition state with tuple \<open>(s1, s2, fs)\<close>. Its expansion
  appends to the cached arcs of \<open>s\<close>, for every candidate pair that the filter accepts, the
  arc whose input label is the input label of the left arc, whose output label is the
  output label of the right arc, whose weight is \<open>Times\<close> of the two weights and
  whose next state is the identifier that the state table holds for the tuple of the two
  next states and the filter state returned (the arcs being read as the filter left
  them). In every candidate pair the first component comes from the left operand and the
  second from the right operand, whichever side was iterated and whichever was queried
  through its matcher.
\<close>

theorem Expand_emits_left_right:
  assumes t: "Tuple (state_table i) s = Some (s1, s2, fs)"
    and mi: "mi = fst (MatchInput K s1 s2 (i\<lparr>filter_pos := (s1, s2, fs)\<rparr>))"
  shows "\<exists>i'. Expand K W s i = Some i' \<and>
     cs_arcs (cache i' s) = cs_arcs (cache i s) @
       map (\<lambda>(a, b, f).
              \<lparr>ilabel = ilabel a, olabel = olabel b, weight = Times W (weight a) (weight b),
               nextstate = fst (FindState (state_table i') (nextstate a, nextstate b, f))\<rparr>)
           (accepted (cfilter i) (s1, s2, fs) (arc_pairs K W mi i s1 s2)) \<and>
     (\<forall>(a, b, f) \<in> set (accepted (cfilter i) (s1, s2, fs) (arc_pairs K W mi i s1 s2)).
        Tuple (state_table i') (fst (FindState (state_table i') (nextstate a, nextstate b, f))) =
          Some (nextstate a, nextstate b, f)) \<and>
     (\<forall>ab \<in> set (arc_pairs K W mi i s1 s2). left_right K W i s1 s2 ab)"
proof -
  from Expand_groups [OF t mi, of W] obtain i' where ex: "Expand K W s i = Some i'"
    and arcs: "cs_arcs (cache i' s) = cs_arcs (cache i s) @
       concat (map (match_group W (cfilter i) (s1, s2, fs) (state_table i') mi
                      (queried_matcher mi i s1 s2))
                   (driven_arcs K W mi i s1 s2))"
    by blast
  have "(\<lambda>x. compose_arc W (state_table i') (fst x) (fst (snd x)) (snd (snd x))) =
      (\<lambda>(a, b, f).
              \<lparr>ilabel = ilabel a, olabel = olabel b, weight = Times W (weight a) (weight b),
               nextstate = fst (FindState (state_table i') (nextstate a, nextstate b, f))\<rparr>)"
    by (auto simp: compose_arc_def fun_eq_iff)
  with arcs have 1: "cs_arcs (cache i' s) = cs_arcs (cache i s) @
       map (\<lambda>(a, b, f).
              \<lparr>ilabel = ilabel a, olabel = olabel b, weight = Times W (weight a) (weight b),
               nextstate = fst (FindState (state_table i') (nextstate a, nextstate b, f))\<rparr>)
           (accepted (cfilter i) (s1, s2, fs) (arc_pairs K W mi i s1 s2))"
    by (simp add: groups_accepted arc_pairs_def)
  have 2: "\<forall>(a, b, f) \<in> set (accepted (cfilter i) (s1, s2, fs) (arc_pairs K W mi i s1 s2)).
        Tuple (state_table i') (fst (FindState (state_table i') (nextstate a, nextstate b, f))) =
          Some (nextstate a, nextstate b, f)"
  proof (clarify)
    fix a b f
    assume "(a, b, f) \<in> set (accepted (cfilter i) (s1, s2, fs) (arc_pairs K W mi i s1 s2))"
    from Expand_tuples [OF t mi ex this]
    have "(nextstate a, nextstate b, f) \<in> set (state_table i')" by (simp add: next_tuple_def)
    then show "Tuple (state_table i') (fst (FindState (state_table i') (nextstate a, nextstate b, f))) =
          Some (nextstate a, nextstate b, f)"
      by (rule Tuple_FindState)
  qed
  have 3: "\<forall>ab \<in> set (arc_pairs K W mi i s1 s2). left_right K W i s1 s2 ab"
    by (blast intro: arc_pairs_left_right)
  from ex 1 2 3 show ?thesis by blast
qed

text \<open>
  The statement of C1 at the start state of the composition of \<open>arcsA\<close> and \<open>arcsB\<close>.
\<close>

theorem Expand_emits_left_right_witness:
  "Tuple (state_table (ex_impl W_nat arcsA arcsB 1 1)) 0 = Some (0, 0, 0) \<and>
   length (accepted (cfilter (ex_impl W_nat arcsA arcsB 1 1)) (0, 0, 0)
             (arc_pairs K0 W_nat True (ex_impl W_nat arcsA arcsB 1 1) 0 0)) = 2 \<and>
   (\<exists>i'. Expand K0 W_nat 0 (ex_impl W_nat arcsA arcsB 1 1) = Some i' \<and>
      cs_arcs (cache i' 0) = [mk_arc 1 4 14 1, mk_arc 1 5 15 2] \<and>
      Tuple (state_table i') 1 = Some (1, 2, 0) \<and> Tuple (state_table i') 2 = Some (2, 1, 0))"
proof -
  let ?i = "ex_impl W_nat arcsA arcsB 1 1"
  have t: "Tuple (state_table ?i) 0 = Some (0, 0, 0)" by (rule ex_tuple)
  have mi: "True = fst (MatchInput K0 0 0 (?i\<lparr>filter_pos := (0, 0, 0)\<rparr>))"
    by (simp add: ex_defs MatchInput_def)
  have acc: "accepted (cfilter ?i) (0, 0, 0) (arc_pairs K0 W_nat True ?i 0 0) =
      [(mk_arc 1 2 2 1, mk_arc 2 4 7 2, 0), (mk_arc 1 3 3 2, mk_arc 3 5 5 1, 0)]"
    by (simp add: accepted_def arc_pairs_def driven_arcs_def queried_matcher_def matches_def
        orient_def loop_arc_def SetState_def ex_defs)
  from Expand_emits_left_right [OF t mi, of W_nat] obtain i'
    where ex: "Expand K0 W_nat 0 ?i = Some i'"
      and tup: "\<forall>(a, b, f) \<in> set (accepted (cfilter ?i) (0, 0, 0) (arc_pairs K0 W_nat True ?i 0 0)).
        Tuple (state_table i') (fst (FindState (state_table i') (nextstate a, nextstate b, f))) =
          Some (nextstate a, nextstate b, f)"
    by blast
  from ex ex_tie_arcs ex_fresh [of W_nat arcsA arcsB 1 1]
  have arcs: "cs_arcs (cache i' 0) = [mk_arc 1 4 14 1, mk_arc 1 5 15 2]"
    by (simp add: InitArcIterator_def)
  from ex ex_tie_table ex_fresh [of W_nat arcsA arcsB 1 1]
  have tbl: "state_table i' = [(0, 0, 0), (1, 2, 0), (2, 1, 0)]"
    by (simp add: InitArcIterator_def)
  have "Tuple (state_table i') 1 = Some (1, 2, 0)" "Tuple (state_table i') 2 = Some (2, 1, 0)"
    using tup by (simp_all add: acc tbl mk_arc_def FindState_def)
  with t acc ex arcs show ?thesis by simp
qed

subsection \<open>C2: order of the emitted arcs\<close>

text \<open>
  Claim C2. The arc iterator of a state that was not expanded before yields, after the
  arcs the cache entry already held, first the arcs obtained from the synthetic
  non-consuming self-loop on the iterated side and its matches on the other side, in the
  order the matcher yields them, and then, for each arc of the iterated side in arc
  order, the arcs obtained from its matches in the order the matcher yields them. The
  self-loop is written out: it leaves the state of the iterated side and returns to it
  with weight \<open>One\<close>, and carries \<open>kNoLabel\<close> on the side that is matched and 0 on the
  other.
\<close>

theorem Expand_arc_order:
  assumes t: "Tuple (state_table i) s = Some (s1, s2, fs)"
    and mi: "mi = fst (MatchInput K s1 s2 (i\<lparr>filter_pos := (s1, s2, fs)\<rparr>))"
    and fresh: "\<not> HasArcs i s"
  shows "\<exists>i'. InitArcIterator K W s i = Some (cs_arcs (cache i' s), i') \<and>
     cs_arcs (cache i' s) = cs_arcs (cache i s) @
       match_group W (cfilter i) (s1, s2, fs) (state_table i') mi (queried_matcher mi i s1 s2)
         \<lparr>ilabel = (if mi then 0 else kNoLabel K), olabel = (if mi then kNoLabel K else 0),
          weight = One W, nextstate = (if mi then s1 else s2)\<rparr> @
       concat (map (match_group W (cfilter i) (s1, s2, fs) (state_table i') mi
                      (queried_matcher mi i s1 s2))
                   (ArcIterator (if mi then fst1 i else fst2 i) (if mi then s1 else s2)))"
proof -
  from Expand_groups [OF t mi, of W] obtain i' where ex: "Expand K W s i = Some i'"
    and arcs: "cs_arcs (cache i' s) = cs_arcs (cache i s) @
       concat (map (match_group W (cfilter i) (s1, s2, fs) (state_table i') mi
                      (queried_matcher mi i s1 s2))
                   (driven_arcs K W mi i s1 s2))"
    by blast
  from ex fresh have "InitArcIterator K W s i = Some (cs_arcs (cache i' s), i')"
    by (simp add: InitArcIterator_def)
  moreover from arcs have "cs_arcs (cache i' s) = cs_arcs (cache i s) @
       match_group W (cfilter i) (s1, s2, fs) (state_table i') mi (queried_matcher mi i s1 s2)
         \<lparr>ilabel = (if mi then 0 else kNoLabel K), olabel = (if mi then kNoLabel K else 0),
          weight = One W, nextstate = (if mi then s1 else s2)\<rparr> @
       concat (map (match_group W (cfilter i) (s1, s2, fs) (state_table i') mi
                      (queried_matcher mi i s1 s2))
                   (ArcIterator (if mi then fst1 i else fst2 i) (if mi then s1 else s2)))"
    by (simp add: driven_arcs_def loop_arc_def)
  ultimately show ?thesis by blast
qed

text \<open>
  The statement of C2 at the start state of the composition of \<open>arcsA\<close> and \<open>arcsE\<close>,
  with matchers that answer \<open>kNoLabel\<close> with the non-consuming arcs: the loop has one
  match, the first arc of the left operand has one, and the second has none.
\<close>

theorem Expand_arc_order_witness:
  "Tuple (state_table (ex_impl_eps W_nat arcsA arcsE 1 1)) 0 = Some (0, 0, 0) \<and>
   fst (MatchInput K0 0 0 ((ex_impl_eps W_nat arcsA arcsE 1 1)\<lparr>filter_pos := (0, 0, 0)\<rparr>)) \<and>
   \<not> HasArcs (ex_impl_eps W_nat arcsA arcsE 1 1) 0 \<and>
   (\<exists>i'. InitArcIterator K0 W_nat 0 (ex_impl_eps W_nat arcsA arcsE 1 1) =
           Some (cs_arcs (cache i' 0), i') \<and>
      match_group W_nat null_filter (0, 0, 0) (state_table i') True
        (queried_matcher True (ex_impl_eps W_nat arcsA arcsE 1 1) 0 0)
        \<lparr>ilabel = 0, olabel = kNoLabel K0, weight = One W_nat, nextstate = 0\<rparr> =
          [mk_arc 0 9 11 1] \<and>
      map (match_group W_nat null_filter (0, 0, 0) (state_table i') True
             (queried_matcher True (ex_impl_eps W_nat arcsA arcsE 1 1) 0 0))
          (ArcIterator (fst1 (ex_impl_eps W_nat arcsA arcsE 1 1)) 0) =
          [[mk_arc 1 4 14 2], []] \<and>
      cs_arcs (cache i' 0) = [] @ [mk_arc 0 9 11 1] @ concat [[mk_arc 1 4 14 2], []])"
proof -
  let ?i = "ex_impl_eps W_nat arcsA arcsE 1 1"
  have t: "Tuple (state_table ?i) 0 = Some (0, 0, 0)" by (rule ex_eps_tuple)
  have mi: "True = fst (MatchInput K0 0 0 (?i\<lparr>filter_pos := (0, 0, 0)\<rparr>))"
    by (simp add: ex_defs MatchInput_def)
  have fresh: "\<not> HasArcs ?i 0" by (rule ex_eps_fresh)
  have flt: "cfilter ?i = null_filter" by (simp add: ex_impl_eps_def ex_impl_def)
  have old: "cs_arcs (cache ?i 0) = []" by (simp add: ex_impl_eps_def ex_impl_def)
  from Expand_arc_order [OF t mi fresh, of W_nat] obtain i'
    where it: "InitArcIterator K0 W_nat 0 ?i = Some (cs_arcs (cache i' 0), i')"
      and arcs: "cs_arcs (cache i' 0) = cs_arcs (cache ?i 0) @
        match_group W_nat (cfilter ?i) (0, 0, 0) (state_table i') True (queried_matcher True ?i 0 0)
          \<lparr>ilabel = (if True then 0 else kNoLabel K0), olabel = (if True then kNoLabel K0 else 0),
           weight = One W_nat, nextstate = (if True then 0 else 0)\<rparr> @
        concat (map (match_group W_nat (cfilter ?i) (0, 0, 0) (state_table i') True
                       (queried_matcher True ?i 0 0))
                    (ArcIterator (if True then fst1 ?i else fst2 ?i) (if True then 0 else 0)))"
    by blast
  from it ex_eps_table have tbl: "state_table i' = [(0, 0, 0), (0, 3, 0), (1, 2, 0)]"
    by simp
  have g0: "match_group W_nat null_filter (0, 0, 0) (state_table i') True (queried_matcher True ?i 0 0)
        \<lparr>ilabel = 0, olabel = kNoLabel K0, weight = One W_nat, nextstate = 0\<rparr> =
          [mk_arc 0 9 11 1]"
    by (simp add: tbl match_group_def matches_def queried_matcher_def SetState_def orient_def
        filtered_pair_def compose_arc_def FindState_def ex_defs)
  have g1: "map (match_group W_nat null_filter (0, 0, 0) (state_table i') True
             (queried_matcher True ?i 0 0)) (ArcIterator (fst1 ?i) 0) =
          [[mk_arc 1 4 14 2], []]"
    by (simp add: tbl match_group_def matches_def queried_matcher_def SetState_def orient_def
        filtered_pair_def compose_arc_def FindState_def ex_defs)
  from arcs have c: "cs_arcs (cache i' 0) = [] @ [mk_arc 0 9 11 1] @ concat [[mk_arc 1 4 14 2], []]"
    by (simp only: old flt if_True g0 g1)
  from mi have m: "fst (MatchInput K0 0 0 (?i\<lparr>filter_pos := (0, 0, 0)\<rparr>))" by simp
  have "\<exists>i'. InitArcIterator K0 W_nat 0 ?i = Some (cs_arcs (cache i' 0), i') \<and>
      match_group W_nat null_filter (0, 0, 0) (state_table i') True (queried_matcher True ?i 0 0)
        \<lparr>ilabel = 0, olabel = kNoLabel K0, weight = One W_nat, nextstate = 0\<rparr> =
          [mk_arc 0 9 11 1] \<and>
      map (match_group W_nat null_filter (0, 0, 0) (state_table i') True
             (queried_matcher True ?i 0 0)) (ArcIterator (fst1 ?i) 0) =
          [[mk_arc 1 4 14 2], []] \<and>
      cs_arcs (cache i' 0) = [] @ [mk_arc 0 9 11 1] @ concat [[mk_arc 1 4 14 2], []]"
    by (rule exI [of _ i']) (rule conjI [OF it conjI [OF g0 conjI [OF g1 c]]])
  then show ?thesis by (rule conjI [OF t conjI [OF m conjI [OF fresh]]])
qed

subsection \<open>C3: both matchers require matching\<close>

text \<open>
  Claim C3 says that a state at which both matchers report the require-match priority
  is not expanded. The source sets the error property and then returns \<open>true\<close> from
  \<open>MatchInput\<close>, so \<open>Expand\<close> goes on and expands the state matching on input: here both
  priorities are \<open>kRequirePriority\<close> and the arc iterator yields two arcs.
\<close>

theorem no_expansion_counterexample:
  "match_type (ex_impl W_nat arcsA arcsB (-1) (-1)) = MATCH_BOTH \<and>
   Priority (matcher1 (ex_impl W_nat arcsA arcsB (-1) (-1))) 0 = kRequirePriority K0 \<and>
   Priority (matcher2 (ex_impl W_nat arcsA arcsB (-1) (-1))) 0 = kRequirePriority K0 \<and>
   map_option fst (InitArcIterator K0 W_nat 0 (ex_impl W_nat arcsA arcsB (-1) (-1))) =
     Some [mk_arc 1 4 14 1, mk_arc 1 5 15 2] \<and>
   map_option fst (InitArcIterator K0 W_nat 0 (ex_impl W_nat arcsA arcsB (-1) (-1))) \<noteq> Some []"
proof -
  let ?i = "ex_impl W_nat arcsA arcsB (-1) (-1)"
  have "match_type ?i = MATCH_BOTH" by (simp add: ex_impl_def)
  moreover have "Priority (matcher1 ?i) 0 = kRequirePriority K0" by (simp add: ex_defs)
  moreover have "Priority (matcher2 ?i) 0 = kRequirePriority K0" by (simp add: ex_defs)
  moreover note ex_require_arcs
  moreover have "map_option fst (InitArcIterator K0 W_nat 0 ?i) \<noteq> Some []"
    by (simp only: ex_require_arcs) simp
  ultimately show ?thesis by blast
qed

text \<open>
  Claim C3, amended. When the match type is neither input nor output and both matchers
  report the require-match priority at \<open>(s1, s2)\<close>, \<open>Expand\<close> sets the error property,
  which stays set, and expands the state as for matching on input: it iterates the
  arcs of the left operand at \<open>s1\<close> (the synthetic loop first) and queries the matcher of
  the right operand at \<open>s2\<close>; the arcs so produced are pushed and the cache entry is
  marked as expanded.
\<close>

theorem Expand_both_require:
  assumes t: "Tuple (state_table i) s = Some (s1, s2, fs)"
    and mt: "match_type i \<noteq> MATCH_INPUT" "match_type i \<noteq> MATCH_OUTPUT"
    and p1: "Priority (matcher1 i) s1 = kRequirePriority K"
    and p2: "Priority (matcher2 i) s2 = kRequirePriority K"
  shows "Expand K W s i =
       Some (OrderedExpand K W s (fst2 i) s2 (fst1 i) s1 (matcher2 i) True
               (SetProperties K (kError K) (kError K) (i\<lparr>filter_pos := (s1, s2, fs)\<rparr>))) \<and>
     (\<exists>i'. Expand K W s i = Some i' \<and> properties i' = properties i OR kError K \<and>
        HasArcs i' s \<and>
        cs_arcs (cache i' s) = cs_arcs (cache i s) @
          concat (map (match_group W (cfilter i) (s1, s2, fs) (state_table i') True
                         (SetState (matcher2 i) s2))
                      (loop_arc K W True s1 # ArcIterator (fst1 i) s1)))"
proof -
  let ?i1 = "i\<lparr>filter_pos := (s1, s2, fs)\<rparr>"
  have M: "MatchInput K s1 s2 ?i1 = (True, SetProperties K (kError K) (kError K) ?i1)"
    using mt p1 p2 by (cases "match_type i") (simp_all add: MatchInput_def)
  have f: "fst1 (SetProperties K (kError K) (kError K) ?i1) = fst1 i"
    "fst2 (SetProperties K (kError K) (kError K) ?i1) = fst2 i"
    "matcher2 (SetProperties K (kError K) (kError K) ?i1) = matcher2 i"
    by (simp_all add: SetProperties_def)
  have 1: "Expand K W s i =
       Some (OrderedExpand K W s (fst2 i) s2 (fst1 i) s1 (matcher2 i) True
               (SetProperties K (kError K) (kError K) ?i1))"
    using t by (simp add: Expand_def M f)
  have mi: "True = fst (MatchInput K s1 s2 ?i1)" by (simp add: M)
  from Expand_groups [OF t mi, of W] obtain i' where ex: "Expand K W s i = Some i'"
    and arcs: "cs_arcs (cache i' s) = cs_arcs (cache i s) @
       concat (map (match_group W (cfilter i) (s1, s2, fs) (state_table i') True
                      (queried_matcher True i s1 s2))
                   (driven_arcs K W True i s1 s2))"
    and has: "cs_has_arcs (cache i' s)"
    and props: "properties i' = properties (snd (MatchInput K s1 s2 ?i1))"
    by blast
  from props have "properties i' = properties i OR kError K"
    using SetProperties_error [of K ?i1] by (simp add: M)
  with ex arcs has have "\<exists>i'. Expand K W s i = Some i' \<and> properties i' = properties i OR kError K \<and>
        HasArcs i' s \<and>
        cs_arcs (cache i' s) = cs_arcs (cache i s) @
          concat (map (match_group W (cfilter i) (s1, s2, fs) (state_table i') True
                         (SetState (matcher2 i) s2))
                      (loop_arc K W True s1 # ArcIterator (fst1 i) s1))"
    by (simp add: HasArcs_def queried_matcher_def driven_arcs_def)
  with 1 show ?thesis by blast
qed

text \<open>
  The amended statement at the start state of the composition of \<open>arcsA\<close> and \<open>arcsB\<close>
  with both priorities \<open>kRequirePriority\<close>.
\<close>

theorem Expand_both_require_witness:
  "Tuple (state_table (ex_impl W_nat arcsA arcsB (-1) (-1))) 0 = Some (0, 0, 0) \<and>
   match_type (ex_impl W_nat arcsA arcsB (-1) (-1)) = MATCH_BOTH \<and>
   Priority (matcher1 (ex_impl W_nat arcsA arcsB (-1) (-1))) 0 = kRequirePriority K0 \<and>
   Priority (matcher2 (ex_impl W_nat arcsA arcsB (-1) (-1))) 0 = kRequirePriority K0 \<and>
   (\<exists>i'. Expand K0 W_nat 0 (ex_impl W_nat arcsA arcsB (-1) (-1)) = Some i' \<and>
      properties i' = 4 \<and> HasArcs i' 0 \<and>
      cs_arcs (cache i' 0) = [mk_arc 1 4 14 1, mk_arc 1 5 15 2])"
proof -
  let ?i = "ex_impl W_nat arcsA arcsB (-1) (-1)"
  have t: "Tuple (state_table ?i) 0 = Some (0, 0, 0)" by (rule ex_tuple)
  have mt: "match_type ?i \<noteq> MATCH_INPUT" "match_type ?i \<noteq> MATCH_OUTPUT"
    by (simp_all add: ex_impl_def)
  have p1: "Priority (matcher1 ?i) 0 = kRequirePriority K0" by (simp add: ex_defs)
  have p2: "Priority (matcher2 ?i) 0 = kRequirePriority K0" by (simp add: ex_defs)
  from Expand_both_require [OF t mt p1 p2, of W_nat] obtain i'
    where ex: "Expand K0 W_nat 0 ?i = Some i'"
      and pr: "properties i' = properties ?i OR kError K0" and has: "HasArcs i' 0"
    by blast
  from ex ex_require_arcs ex_fresh [of W_nat arcsA arcsB "-1" "-1"]
  have arcs: "cs_arcs (cache i' 0) = [mk_arc 1 4 14 1, mk_arc 1 5 15 2]"
    by (simp add: InitArcIterator_def)
  from pr have "properties i' = 4" by (simp add: ex_defs)
  with t p1 p2 ex has arcs show ?thesis by (simp add: ex_impl_def)
qed

subsection \<open>C4: commutativity of the semiring\<close>

text \<open>
  Claim C4 says that over a non-commutative semiring the error property is set as
  soon as one operand is weighted. \<open>CreateBase2\<close> sets it only when neither operand is
  unweighted: here the semiring is the string semiring, the left operand is weighted,
  the right operand is unweighted, and the error bit of the composition is clear.
\<close>

theorem one_weighted_operand_counterexample:
  "WeightProperties W_str AND kCommutative K0 = 0 \<and>
   Properties (ex_fst W_str arcsS 0) (kUnweighted K0) True AND kUnweighted K0 = 0 \<and>
   Properties (ex_fst W_str arcsU (kUnweighted K0)) (kUnweighted K0) True AND kUnweighted K0 \<noteq> 0 \<and>
   properties (CreateBase2 K0 W_str (\<lambda>p1 p2. 0) True id (ex_fst W_str arcsS 0)
                 (ex_fst W_str arcsU (kUnweighted K0)) (ex_impl W_str arcsS arcsU 1 1))
     AND kError K0 = 0"
  by (simp add: ex_defs CreateBase2_def ComposeFstImpl_ctor_def InitBase_def CompatSymbols_def
      SetMatchType_def SetProperties_def Let_def)

text \<open>
  Claim C4, amended. Construction sets the error property on account of the semiring
  exactly when \<open>Times\<close> is not commutative and neither operand has the unweighted
  property, that is when both operands are weighted; otherwise the properties are
  those the constructor of the implementation computed.
\<close>

theorem CreateBase2_commutativity:
  "properties (CreateBase2 K W ComposeProperties flag recompute f1 f2 opts) =
     (if WeightProperties W AND kCommutative K = 0 \<and>
         Properties f1 (kUnweighted K) True AND kUnweighted K = 0 \<and>
         Properties f2 (kUnweighted K) True AND kUnweighted K = 0
      then properties (ComposeFstImpl_ctor K ComposeProperties flag recompute f1 f2 opts) OR kError K
      else properties (ComposeFstImpl_ctor K ComposeProperties flag recompute f1 f2 opts))"
  by (simp add: CreateBase2_def Let_def SetProperties_error)

subsection \<open>C5: compatibility of the symbol tables\<close>

text \<open>
  Claim C5 says that the error property is set unless the two tables are both unset or
  have equal labeled checksums. \<open>CompatSymbols\<close> accepts every pair in which a table is
  unset: here the left operand has no output table, the right operand has an input
  table, the check is enabled, and the error bit is clear.
\<close>

theorem one_table_unset_counterexample:
  "OutputSymbols (ex_fst W_nat arcsA 0) = None \<and>
   InputSymbols ((ex_fst W_nat arcsB 0)\<lparr>InputSymbols := Some symtab_ab\<rparr>) = Some symtab_ab \<and>
   properties (InitBase K0 True id (ex_fst W_nat arcsA 0)
                 ((ex_fst W_nat arcsB 0)\<lparr>InputSymbols := Some symtab_ab\<rparr>)
                 (ex_impl W_nat arcsA arcsB 1 1)) AND kError K0 = 0"
  by (simp add: ex_defs InitBase_def CompatSymbols_def Let_def)

text \<open>
  Claim C5, amended. The check of the symbol tables at construction, which \<open>InitBase\<close>
  makes, sets the error property exactly when the check is enabled, the output table of
  the left operand and the input table of the right operand are both set, and their
  labeled checksums differ; otherwise it leaves the properties as they were. With the
  flag off every pair of tables is compatible, and so is every pair in which a table is
  unset.
\<close>

theorem InitBase_symbols:
  "properties (InitBase K flag recompute f1 f2 i) =
     (if flag \<and> (\<exists>t1 t2. InputSymbols f2 = Some t1 \<and> OutputSymbols f1 = Some t2 \<and>
                    LabeledCheckSum recompute t1 \<noteq> LabeledCheckSum recompute t2)
      then properties i OR kError K else properties i) \<and>
   CompatSymbols False recompute syms1 syms2 \<and>
   CompatSymbols flag recompute None syms2 \<and> CompatSymbols flag recompute syms1 None"
proof -
  have 1: "CompatSymbols flag recompute (InputSymbols f2) (OutputSymbols f1) \<longleftrightarrow>
      \<not> (flag \<and> (\<exists>t1 t2. InputSymbols f2 = Some t1 \<and> OutputSymbols f1 = Some t2 \<and>
                    LabeledCheckSum recompute t1 \<noteq> LabeledCheckSum recompute t2))"
    by (cases "InputSymbols f2"; cases "OutputSymbols f1") (auto simp: CompatSymbols_def)
  have 2: "properties (InitBase K flag recompute f1 f2 i) =
      (if \<not> CompatSymbols flag recompute (InputSymbols f2) (OutputSymbols f1)
       then properties i OR kError K else properties i)"
    using SetProperties_error [of K "i\<lparr>fst_type := ''compose''\<rparr>"]
    by (simp add: InitBase_def Let_def)
  have 3: "CompatSymbols False recompute syms1 syms2"
    "CompatSymbols flag recompute None syms2" "CompatSymbols flag recompute syms1 None"
    by (simp_all add: CompatSymbols_def split: option.split)
  from 1 2 3 show ?thesis by simp
qed

subsection \<open>C6: the final weight\<close>

text \<open>
  Claim C6 says that the final weight is computed on expansion. \<open>Expand\<close> neither
  computes nor records it: here state 1 of the composition of \<open>arcsF\<close> and \<open>arcsG\<close> has
  the tuple \<open>(1, 1, 0)\<close>, final in both operands with weight 1; after its expansion
  the cache entry is marked as expanded and still holds no final weight (the weight
  stored is 0), although \<open>ComputeFinal\<close> gives 1.
\<close>

theorem expansion_records_no_final_counterexample:
  "map_option (\<lambda>i. Tuple (state_table i) 1) (Expand K0 W_nat 0 (ex_impl W_nat arcsF arcsG 1 1)) =
     Some (Some (1, 1, 0)) \<and>
   Final (fst1 (ex_impl W_nat arcsF arcsG 1 1)) 1 = 1 \<and>
   Final (fst2 (ex_impl W_nat arcsF arcsG 1 1)) 1 = 1 \<and>
   map_option (\<lambda>i. (HasArcs i 1, HasFinal i 1, cs_final (cache i 1),
                      map_option fst (ComputeFinal W_nat 1 i)))
     (Expand K0 W_nat 0 (ex_impl W_nat arcsF arcsG 1 1) \<bind> Expand K0 W_nat 1) =
   Some (True, False, 0, Some 1)"
proof -
  have "map_option (\<lambda>i. Tuple (state_table i) 1) (Expand K0 W_nat 0 (ex_impl W_nat arcsF arcsG 1 1)) =
     Some (Some (1, 1, 0))"
    using ex_final_step by (auto simp: Tuple_def)
  moreover have "Final (fst1 (ex_impl W_nat arcsF arcsG 1 1)) 1 = 1"
    "Final (fst2 (ex_impl W_nat arcsF arcsG 1 1)) 1 = 1"
    by (simp_all add: ex_defs)
  ultimately show ?thesis using ex_final_expanded by simp
qed

text \<open>
  Claim C6, amended. The final weight of a state is computed by the first call of
  \<open>Final\<close>, not by its expansion. For a state with tuple \<open>(s1, s2, fs)\<close>: \<open>Expand\<close>
  completes, marks the cache entry as expanded and leaves the final weight of the entry
  and the mark that says whether it holds one as they were. If the entry holds no final
  weight, \<open>Final\<close> returns \<open>final_weight\<close>, records it in the entry, leaves the mark of
  the arcs alone, and returns the same weight when called again; if the entry holds one,
  \<open>Final\<close> returns it and changes nothing. \<open>final_weight\<close> is \<open>Zero\<close> if the final weight
  of \<open>s1\<close> is \<open>Zero\<close>, \<open>Zero\<close> if that of \<open>s2\<close> is, and otherwise \<open>Times\<close> of the two as
  \<open>FilterFinal\<close> rewrote them. If the final weight of \<open>s1\<close> is \<open>Zero\<close>, \<open>ComputeFinal\<close>
  returns \<open>Zero\<close> whatever the second matcher and the filter are, without positioning
  the filter; if that of \<open>s2\<close> is \<open>Zero\<close>, whatever the filter is.
\<close>

theorem Final_on_first_call:
  assumes t: "Tuple (state_table i) s = Some (s1, s2, fs)"
  shows "(\<exists>i'. Expand K W s i = Some i' \<and> HasArcs i' s \<and>
            HasFinal i' s = HasFinal i s \<and> cs_final (cache i' s) = cs_final (cache i s)) \<and>
     (\<not> HasFinal i s \<longrightarrow>
        (\<exists>i'. ComposeFinal W s i = Some (final_weight W i s1 s2 fs, i') \<and>
              HasFinal i' s \<and> cs_final (cache i' s) = final_weight W i s1 s2 fs \<and>
              HasArcs i' s = HasArcs i s \<and>
              ComposeFinal W s i' = Some (final_weight W i s1 s2 fs, i'))) \<and>
     (HasFinal i s \<longrightarrow> ComposeFinal W s i = Some (cs_final (cache i s), i)) \<and>
     final_weight W i s1 s2 fs =
       (if MFinal (matcher1 i) s1 = Zero W then Zero W
        else if MFinal (matcher2 i) s2 = Zero W then Zero W
        else (case FilterFinal (cfilter i) (s1, s2, fs)
                     (MFinal (matcher1 i) s1) (MFinal (matcher2 i) s2) of
                (final1, final2) \<Rightarrow> Times W final1 final2)) \<and>
     (MFinal (matcher1 i) s1 = Zero W \<longrightarrow>
        ComputeFinal W s (i\<lparr>matcher2 := m, cfilter := flt\<rparr>) =
          Some (Zero W, i\<lparr>matcher2 := m, cfilter := flt\<rparr>)) \<and>
     (MFinal (matcher2 i) s2 = Zero W \<longrightarrow>
        ComputeFinal W s (i\<lparr>cfilter := flt\<rparr>) = Some (Zero W, i\<lparr>cfilter := flt\<rparr>))"
proof -
  from Expand_groups [OF t refl, of K W] obtain i' where
    ex: "Expand K W s i = Some i'" and ha: "cs_has_arcs (cache i' s)"
    by blast
  from Expand_final [OF ex, of s] ex ha
  have 1: "\<exists>i'. Expand K W s i = Some i' \<and> HasArcs i' s \<and>
            HasFinal i' s = HasFinal i s \<and> cs_final (cache i' s) = cs_final (cache i s)"
    by (simp add: HasArcs_def HasFinal_def)
  have 2: "\<not> HasFinal i s \<longrightarrow>
        (\<exists>i'. ComposeFinal W s i = Some (final_weight W i s1 s2 fs, i') \<and>
              HasFinal i' s \<and> cs_final (cache i' s) = final_weight W i s1 s2 fs \<and>
              HasArcs i' s = HasArcs i s \<and>
              ComposeFinal W s i' = Some (final_weight W i s1 s2 fs, i'))"
  proof
    assume nf: "\<not> HasFinal i s"
    from ComputeFinal_weight [OF t, of W] obtain j where
      j: "ComputeFinal W s i = Some (final_weight W i s1 s2 fs, j)" "cache j = cache i"
      by blast
    let ?i' = "SetFinal s (final_weight W i s1 s2 fs) j"
    have a: "ComposeFinal W s i = Some (final_weight W i s1 s2 fs, ?i')"
      using nf j by (simp add: ComposeFinal_def Let_def SetFinal_def)
    have b: "HasFinal ?i' s" "cs_final (cache ?i' s) = final_weight W i s1 s2 fs"
      "HasArcs ?i' s = HasArcs i s"
      using j(2) by (simp_all add: HasFinal_def HasArcs_def SetFinal_def)
    from b(1,2) have c: "ComposeFinal W s ?i' = Some (final_weight W i s1 s2 fs, ?i')"
      by (simp add: ComposeFinal_def)
    from a b c show "\<exists>i'. ComposeFinal W s i = Some (final_weight W i s1 s2 fs, i') \<and>
              HasFinal i' s \<and> cs_final (cache i' s) = final_weight W i s1 s2 fs \<and>
              HasArcs i' s = HasArcs i s \<and>
              ComposeFinal W s i' = Some (final_weight W i s1 s2 fs, i')"
      by blast
  qed
  have 3: "HasFinal i s \<longrightarrow> ComposeFinal W s i = Some (cs_final (cache i s), i)"
    by (simp add: ComposeFinal_def)
  have 4: "final_weight W i s1 s2 fs =
       (if MFinal (matcher1 i) s1 = Zero W then Zero W
        else if MFinal (matcher2 i) s2 = Zero W then Zero W
        else (case FilterFinal (cfilter i) (s1, s2, fs)
                     (MFinal (matcher1 i) s1) (MFinal (matcher2 i) s2) of
                (final1, final2) \<Rightarrow> Times W final1 final2))"
    by (simp add: final_weight_def)
  have 5: "MFinal (matcher1 i) s1 = Zero W \<longrightarrow>
        ComputeFinal W s (i\<lparr>matcher2 := m, cfilter := flt\<rparr>) =
          Some (Zero W, i\<lparr>matcher2 := m, cfilter := flt\<rparr>)"
    using t by (simp add: ComputeFinal_def Let_def)
  have 6: "MFinal (matcher2 i) s2 = Zero W \<longrightarrow>
        ComputeFinal W s (i\<lparr>cfilter := flt\<rparr>) = Some (Zero W, i\<lparr>cfilter := flt\<rparr>)"
    using t by (simp add: ComputeFinal_def Let_def)
  from 1 2 3 4 5 6 show ?thesis by blast
qed

text \<open>
  The amended statement at state 1 of the composition of \<open>arcsF\<close> and \<open>arcsG\<close>, whose
  tuple \<open>(1, 1, 0)\<close> is final in both operands: its expansion records no final weight,
  and the first call of \<open>Final\<close> records 1.
\<close>

theorem Final_on_first_call_witness:
  "\<exists>i. Expand K0 W_nat 0 (ex_impl W_nat arcsF arcsG 1 1) = Some i \<and>
     Tuple (state_table i) 1 = Some (1, 1, 0) \<and> \<not> HasFinal i 1 \<and>
     final_weight W_nat i 1 1 0 = 1 \<and>
     (\<exists>i'. Expand K0 W_nat 1 i = Some i' \<and> HasArcs i' 1 \<and> \<not> HasFinal i' 1 \<and>
           cs_final (cache i' 1) = 0) \<and>
     (\<exists>i'. ComposeFinal W_nat 1 i = Some (1, i') \<and> HasFinal i' 1 \<and>
           cs_final (cache i' 1) = 1 \<and> \<not> HasArcs i' 1 \<and>
           ComposeFinal W_nat 1 i' = Some (1, i'))"
proof -
  let ?i0 = "ex_impl W_nat arcsF arcsG 1 1"
  from Expand_groups [OF ex_tuple [of W_nat arcsF arcsG 1 1] refl, of K0 W_nat] obtain i where
    ex: "Expand K0 W_nat 0 ?i0 = Some i" by blast
  with ex_final_step have f: "state_table i = [(0, 0, 0), (1, 1, 0)]" "\<not> HasArcs i 1"
    "\<not> HasFinal i 1" "cs_final (cache i 1) = 0" "MFinal (matcher1 i) 1 = 1"
    "MFinal (matcher2 i) 1 = 1" "cfilter i = null_filter"
    by simp_all
  from f(1) have t: "Tuple (state_table i) 1 = Some (1, 1, 0)" by (simp add: Tuple_def)
  have w: "final_weight W_nat i 1 1 0 = 1"
    by (simp add: final_weight_def f W_nat_def null_filter_def)
  from Final_on_first_call [OF t, of K0 W_nat undefined undefined]
  have a: "\<exists>i'. Expand K0 W_nat 1 i = Some i' \<and> HasArcs i' 1 \<and>
            HasFinal i' 1 = HasFinal i 1 \<and> cs_final (cache i' 1) = cs_final (cache i 1)"
    and b: "\<not> HasFinal i 1 \<longrightarrow>
        (\<exists>i'. ComposeFinal W_nat 1 i = Some (final_weight W_nat i 1 1 0, i') \<and>
              HasFinal i' 1 \<and> cs_final (cache i' 1) = final_weight W_nat i 1 1 0 \<and>
              HasArcs i' 1 = HasArcs i 1 \<and>
              ComposeFinal W_nat 1 i' = Some (final_weight W_nat i 1 1 0, i'))"
    by blast+
  from a have "\<exists>i'. Expand K0 W_nat 1 i = Some i' \<and> HasArcs i' 1 \<and> \<not> HasFinal i' 1 \<and>
           cs_final (cache i' 1) = 0"
    by (simp add: f(3) f(4))
  moreover from b f(3) have "\<exists>i'. ComposeFinal W_nat 1 i = Some (1, i') \<and> HasFinal i' 1 \<and>
           cs_final (cache i' 1) = 1 \<and> \<not> HasArcs i' 1 \<and>
           ComposeFinal W_nat 1 i' = Some (1, i')"
    by (simp only: w f(2) simp_thms)
  ultimately show ?thesis using ex t f(3) w by blast
qed

subsection \<open>C7: the side to match on\<close>

text \<open>
  Claim C7 says that on equal priorities the tie is broken in favour of the first
  matcher. \<open>MatchInput\<close> returns \<open>priority1 <= priority2\<close>, which is \<open>true\<close> on a tie, and
  \<open>Expand\<close> then queries the second matcher while it iterates the arcs of the left
  operand. Here both priorities are 1: the arcs produced are those of the expansion
  through the second matcher, and the expansion through the first matcher would have
  produced them in the other order and with the other identifiers.
\<close>

theorem tie_favours_matcher1_counterexample:
  "match_type (ex_impl W_nat arcsA arcsB 1 1) = MATCH_BOTH \<and>
   Priority (matcher1 (ex_impl W_nat arcsA arcsB 1 1)) 0 =
     Priority (matcher2 (ex_impl W_nat arcsA arcsB 1 1)) 0 \<and>
   fst (MatchInput K0 0 0 (ex_impl W_nat arcsA arcsB 1 1)) \<and>
   map_option fst (InitArcIterator K0 W_nat 0 (ex_impl W_nat arcsA arcsB 1 1)) =
     Some [mk_arc 1 4 14 1, mk_arc 1 5 15 2] \<and>
   cs_arcs (cache (OrderedExpand K0 W_nat 0 (ex_fst W_nat arcsA 0) 0 (ex_fst W_nat arcsB 0) 0
                     (ex_matcher W_nat False 1 arcsA) False (ex_impl W_nat arcsA arcsB 1 1)) 0) =
     [mk_arc 1 5 15 1, mk_arc 1 4 14 2]"
proof -
  let ?i = "ex_impl W_nat arcsA arcsB 1 1"
  have "match_type ?i = MATCH_BOTH" by (simp add: ex_impl_def)
  moreover have "Priority (matcher1 ?i) 0 = Priority (matcher2 ?i) 0" by (simp add: ex_defs)
  moreover have "fst (MatchInput K0 0 0 ?i)" by (simp add: ex_defs MatchInput_def)
  moreover note ex_tie_arcs ex_matcher1_arcs
  ultimately show ?thesis by blast
qed

text \<open>
  Claim C7, amended. When the match type is neither input nor output and neither
  matcher reports the require-match priority, \<open>MatchInput\<close> compares the priority of
  the first matcher at \<open>s1\<close> with that of the second at \<open>s2\<close> and returns whether the
  first is at most the second. On equal priorities it returns \<open>true\<close>: the state is
  expanded by iterating the arcs of the left operand and querying the second matcher.
  The first matcher is queried only when its priority is strictly greater.
\<close>

theorem MatchInput_tie:
  assumes t: "Tuple (state_table i) s = Some (s1, s2, fs)"
    and mt: "match_type i \<noteq> MATCH_INPUT" "match_type i \<noteq> MATCH_OUTPUT"
    and p1: "Priority (matcher1 i) s1 \<noteq> kRequirePriority K"
    and p2: "Priority (matcher2 i) s2 \<noteq> kRequirePriority K"
  shows "MatchInput K s1 s2 i = (Priority (matcher1 i) s1 \<le> Priority (matcher2 i) s2, i) \<and>
     (Priority (matcher1 i) s1 = Priority (matcher2 i) s2 \<longrightarrow>
        Expand K W s i =
          Some (OrderedExpand K W s (fst2 i) s2 (fst1 i) s1 (matcher2 i) True
                  (i\<lparr>filter_pos := (s1, s2, fs)\<rparr>))) \<and>
     (Priority (matcher1 i) s1 > Priority (matcher2 i) s2 \<longrightarrow>
        Expand K W s i =
          Some (OrderedExpand K W s (fst1 i) s1 (fst2 i) s2 (matcher1 i) False
                  (i\<lparr>filter_pos := (s1, s2, fs)\<rparr>)))"
proof -
  let ?i1 = "i\<lparr>filter_pos := (s1, s2, fs)\<rparr>"
  have M: "MatchInput K s1 s2 i = (Priority (matcher1 i) s1 \<le> Priority (matcher2 i) s2, i)"
    using mt p1 p2 by (cases "match_type i") (simp_all add: MatchInput_def)
  have M1: "MatchInput K s1 s2 ?i1 = (Priority (matcher1 i) s1 \<le> Priority (matcher2 i) s2, ?i1)"
    using mt p1 p2 by (cases "match_type i") (simp_all add: MatchInput_def)
  show ?thesis
    using t by (simp add: M Expand_def M1)
qed

text \<open>
  The amended statement at the start state of the composition of \<open>arcsA\<close> and \<open>arcsB\<close>
  with both priorities 1.
\<close>

theorem MatchInput_tie_witness:
  "Tuple (state_table (ex_impl W_nat arcsA arcsB 1 1)) 0 = Some (0, 0, 0) \<and>
   match_type (ex_impl W_nat arcsA arcsB 1 1) = MATCH_BOTH \<and>
   Priority (matcher1 (ex_impl W_nat arcsA arcsB 1 1)) 0 \<noteq> kRequirePriority K0 \<and>
   Priority (matcher2 (ex_impl W_nat arcsA arcsB 1 1)) 0 \<noteq> kRequirePriority K0 \<and>
   Priority (matcher1 (ex_impl W_nat arcsA arcsB 1 1)) 0 =
     Priority (matcher2 (ex_impl W_nat arcsA arcsB 1 1)) 0 \<and>
   fst (MatchInput K0 0 0 (ex_impl W_nat arcsA arcsB 1 1)) \<and>
   Expand K0 W_nat 0 (ex_impl W_nat arcsA arcsB 1 1) =
     Some (OrderedExpand K0 W_nat 0 (fst2 (ex_impl W_nat arcsA arcsB 1 1)) 0
             (fst1 (ex_impl W_nat arcsA arcsB 1 1)) 0 (matcher2 (ex_impl W_nat arcsA arcsB 1 1)) True
             ((ex_impl W_nat arcsA arcsB 1 1)\<lparr>filter_pos := (0, 0, 0)\<rparr>))"
proof -
  let ?i = "ex_impl W_nat arcsA arcsB 1 1"
  have t: "Tuple (state_table ?i) 0 = Some (0, 0, 0)" by (rule ex_tuple)
  have mt: "match_type ?i \<noteq> MATCH_INPUT" "match_type ?i \<noteq> MATCH_OUTPUT"
    by (simp_all add: ex_impl_def)
  have p1: "Priority (matcher1 ?i) 0 \<noteq> kRequirePriority K0" by (simp add: ex_defs)
  have p2: "Priority (matcher2 ?i) 0 \<noteq> kRequirePriority K0" by (simp add: ex_defs)
  have eq: "Priority (matcher1 ?i) 0 = Priority (matcher2 ?i) 0" by (simp add: ex_defs)
  from MatchInput_tie [OF t mt p1 p2, of W_nat] eq
  have "MatchInput K0 0 0 ?i = (True, ?i)"
    and "Expand K0 W_nat 0 ?i =
       Some (OrderedExpand K0 W_nat 0 (fst2 ?i) 0 (fst1 ?i) 0 (matcher2 ?i) True
               (?i\<lparr>filter_pos := (0, 0, 0)\<rparr>))"
    by simp_all
  with t p1 p2 eq show ?thesis by (simp add: ex_impl_def)
qed

subsection \<open>C8: Connect trims the automaton\<close>

text \<open>
  Claim C8. On an automaton whose arcs lead to existing states, \<open>Connect\<close> returns, and
  the automaton it leaves is the one obtained by deleting \<open>dead_states\<close>, the states that
  are not both accessible and co-accessible, and setting the two property bits. Its
  states are the useful states of the original in the order of their ids, numbered from
  0 without gaps, each with its arcs to useful states. In it every state is accessible
  and co-accessible, and every arc leads to one of its states, from an accessible state
  to a co-accessible one, so that every arc lies on a path from the start state to a
  final state.
\<close>

theorem Connect_trims:
  assumes wf: "wf_fst K f"
  shows "\<exists>g. Connect K C W f = Some g \<and>
     g = MSetProperties K (kAccessible K OR kCoAccessible K) (kAccessible K OR kCoAccessible K)
           (DeleteStates K (dead_states W f) f) \<and>
     mstates g = map (\<lambda>s. DeleteStates_state (dead_states W f) f (mstates f ! nat s))
                     (live_states W f) \<and>
     (\<forall>j. 0 \<le> j \<and> j < int (length (mstates g)) \<longrightarrow>
        accessible g j \<and> coaccessible W g j) \<and>
     (\<forall>j a. 0 \<le> j \<and> j < int (length (mstates g)) \<and> a \<in> set (st_arcs (mstates g ! nat j)) \<longrightarrow>
        0 \<le> nextstate a \<and> nextstate a < int (length (mstates g)) \<and>
        accessible g j \<and> coaccessible W g (nextstate a))"
proof -
  let ?g = "DeleteStates K (dead_states W f) f"
  let ?G = "MSetProperties K (kAccessible K OR kCoAccessible K)
              (kAccessible K OR kCoAccessible K) ?g"
  have 1: "Connect K C W f = Some ?G"
    using Connect_result [OF wf, of C W] by (simp add: dead_states_def useful_def)
  have 2: "mstates ?G = map (\<lambda>s. DeleteStates_state (dead_states W f) f (mstates f ! nat s))
                     (live_states W f)"
    by (simp add: MSetProperties_graph DeleteStates_mstates)
  have 3: "\<forall>j. 0 \<le> j \<and> j < int (length (mstates ?G)) \<longrightarrow>
        accessible ?G j \<and> coaccessible W ?G j"
  proof (intro allI impI)
    fix j
    assume "0 \<le> j \<and> j < int (length (mstates ?G))"
    then have j: "0 \<le> j" "j < int (length (mstates ?g))"
      by (simp_all add: MSetProperties_graph)
    from DeleteStates_trim [OF j]
    show "accessible ?G j \<and> coaccessible W ?G j"
      by (simp add: MSetProperties_graph)
  qed
  have 4: "\<forall>j a. 0 \<le> j \<and> j < int (length (mstates ?G)) \<and> a \<in> set (st_arcs (mstates ?G ! nat j)) \<longrightarrow>
        0 \<le> nextstate a \<and> nextstate a < int (length (mstates ?G)) \<and>
        accessible ?G j \<and> coaccessible W ?G (nextstate a)"
  proof (intro allI impI)
    fix j a
    assume "0 \<le> j \<and> j < int (length (mstates ?G)) \<and> a \<in> set (st_arcs (mstates ?G ! nat j))"
    then have j: "0 \<le> j" "j < int (length (mstates ?g))"
      and a: "a \<in> set (st_arcs (mstates ?g ! nat j))"
      by (simp_all add: MSetProperties_graph)
    from DeleteStates_arc_range [OF j a] have t: "0 \<le> nextstate a"
      "nextstate a < int (length (mstates ?g))" by simp_all
    from DeleteStates_trim(1) [OF j] DeleteStates_trim(2) [OF t] t
    show "0 \<le> nextstate a \<and> nextstate a < int (length (mstates ?G)) \<and>
        accessible ?G j \<and> coaccessible W ?G (nextstate a)"
      by (simp add: MSetProperties_graph)
  qed
  from 1 2 3 4 show ?thesis by blast
qed

text \<open>
  The statement of C8 on \<open>ex_mfst\<close>, the four-state automaton with a dead-end branch:
  the dead-end state is deleted, three states remain, all accessible and co-accessible,
  and the two arcs that survive lie on the path from the start state to the final state.
\<close>

theorem Connect_trims_witness:
  "wf_fst K0 ex_mfst \<and>
   (\<exists>g. Connect K0 C0 W_nat ex_mfst = Some g \<and> mstart g = 0 \<and>
      map (\<lambda>st. (st_final st, map nextstate (st_arcs st))) (mstates g) =
        [(0, [1]), (0, [2]), (1, [])] \<and>
      length (live_states W_nat ex_mfst) = 3 \<and> length (dead_states W_nat ex_mfst) = 1 \<and>
      accessible g 0 \<and> coaccessible W_nat g 1 \<and> accessible g 1 \<and> coaccessible W_nat g 2 \<and>
      accessible g 2 \<and> coaccessible W_nat g 0)"
proof -
  from Connect_trims [OF ex_mfst_wf, of C0 W_nat] obtain g where
    g: "Connect K0 C0 W_nat ex_mfst = Some g"
    and st: "mstates g = map (\<lambda>s. DeleteStates_state (dead_states W_nat ex_mfst) ex_mfst
                                      (mstates ex_mfst ! nat s)) (live_states W_nat ex_mfst)"
    and arcs: "\<And>j a. 0 \<le> j \<Longrightarrow> j < int (length (mstates g)) \<Longrightarrow>
                 a \<in> set (st_arcs (mstates g ! nat j)) \<Longrightarrow>
                 accessible g j \<and> coaccessible W_nat g (nextstate a)"
    and sts: "\<And>j. 0 \<le> j \<Longrightarrow> j < int (length (mstates g)) \<Longrightarrow>
                 accessible g j \<and> coaccessible W_nat g j"
    by blast
  from ex_connect g have e: "mstart g = 0"
    "map (\<lambda>st. (st_final st, map nextstate (st_arcs st))) (mstates g) =
       [(0, [1]), (0, [2]), (1, [])]"
    by simp_all
  from arg_cong [OF e(2), of length] have len: "length (mstates g) = 3" by simp
  with st have live: "length (live_states W_nat ex_mfst) = 3" by simp
  have "length (live_states W_nat ex_mfst) + length (dead_states W_nat ex_mfst) =
      length (mstates ex_mfst)"
    using sum_length_filter_compl [of "useful W_nat ex_mfst" "map int [0..<length (mstates ex_mfst)]"]
    by (simp add: live_states_def dead_states_def)
  with live have dead: "length (dead_states W_nat ex_mfst) = 1" by (simp add: ex_mfst_def)
  from arc_of_map [of "mstates g" 0 0 1] e(2) len obtain a0 where
    a0: "a0 \<in> set (st_arcs (mstates g ! nat 0))" "nextstate a0 = 1" by auto
  from arc_of_map [of "mstates g" 1 0 2] e(2) len obtain a1 where
    a1: "a1 \<in> set (st_arcs (mstates g ! nat 1))" "nextstate a1 = 2" by auto
  from arcs [of 0 a0] a0 len have r0: "accessible g 0" "coaccessible W_nat g 1" by simp_all
  from arcs [of 1 a1] a1 len have r1: "accessible g 1" "coaccessible W_nat g 2" by simp_all
  from sts [of 2] sts [of 0] len have r2: "accessible g 2" "coaccessible W_nat g 0" by simp_all
  have "\<exists>g. Connect K0 C0 W_nat ex_mfst = Some g \<and> mstart g = 0 \<and>
      map (\<lambda>st. (st_final st, map nextstate (st_arcs st))) (mstates g) =
        [(0, [1]), (0, [2]), (1, [])] \<and>
      length (live_states W_nat ex_mfst) = 3 \<and> length (dead_states W_nat ex_mfst) = 1 \<and>
      accessible g 0 \<and> coaccessible W_nat g 1 \<and> accessible g 1 \<and> coaccessible W_nat g 2 \<and>
      accessible g 2 \<and> coaccessible W_nat g 0"
    by (rule exI [of _ g])
       (rule conjI [OF g conjI [OF e(1) conjI [OF e(2) conjI [OF live conjI [OF dead
          conjI [OF r0(1) conjI [OF r0(2) conjI [OF r1(1) conjI [OF r1(2) conjI [OF r2(1) r2(2)]]]]]]]]]])
  with ex_mfst_wf show ?thesis by (rule conjI)
qed

subsection \<open>C9: inversion is an involution\<close>

text \<open>
  Claim C9. Inverting an automaton twice gives back its start state, its states with
  their final weights and their arcs, and its input and output symbol tables. On an arc
  the mapper exchanges the two labels and keeps the weight and the next state, so that
  mapping twice is the identity.
\<close>

theorem Invert_involution:
  "mstart (Invert K IP (Invert K IP f)) = mstart f \<and>
   mstates (Invert K IP (Invert K IP f)) = mstates f \<and>
   m_isymbols (Invert K IP (Invert K IP f)) = m_isymbols f \<and>
   m_osymbols (Invert K IP (Invert K IP f)) = m_osymbols f \<and>
   map_arc (InvertMapper IP) (map_arc (InvertMapper IP) arc) = (arc :: 'w Arc) \<and>
   weight (map_arc (InvertMapper IP) arc) = weight arc \<and>
   nextstate (map_arc (InvertMapper IP) arc) = nextstate arc \<and>
   ilabel (map_arc (InvertMapper IP) arc) = olabel arc \<and>
   olabel (map_arc (InvertMapper IP) arc) = ilabel arc"
proof -
  have "map (ArcMap_state K (InvertMapper IP)) (map (ArcMap_state K (InvertMapper IP)) (mstates f)) =
      mstates f"
    by (simp add: ArcMap_state_Invert_twice map_idI)
  then show ?thesis
    by (simp add: Invert_fields InvertMapper_twice) (simp add: InvertMapper_def)
qed

text \<open>
  The statement of C9 on the four-state automaton, with its once-inverted form.
\<close>

theorem Invert_involution_witness:
  "mstates (Invert K0 id (Invert K0 id ex_mfst)) = mstates ex_mfst \<and>
   m_isymbols (Invert K0 id (Invert K0 id ex_mfst)) = Some symtab_ab \<and>
   m_osymbols (Invert K0 id (Invert K0 id ex_mfst)) = None \<and>
   mstates (Invert K0 id ex_mfst) =
     [\<lparr>st_final = 0, st_arcs = [mk_arc 2 1 1 1, mk_arc 4 3 1 2]\<rparr>,
      \<lparr>st_final = 0, st_arcs = [mk_arc 6 5 1 3]\<rparr>,
      \<lparr>st_final = 0, st_arcs = []\<rparr>,
      \<lparr>st_final = 1, st_arcs = []\<rparr>] \<and>
   m_isymbols (Invert K0 id ex_mfst) = None \<and>
   m_osymbols (Invert K0 id ex_mfst) = Some symtab_ab"
proof -
  have "mstates (Invert K0 id ex_mfst) =
     [\<lparr>st_final = 0, st_arcs = [mk_arc 2 1 1 1, mk_arc 4 3 1 2]\<rparr>,
      \<lparr>st_final = 0, st_arcs = [mk_arc 6 5 1 3]\<rparr>,
      \<lparr>st_final = 0, st_arcs = []\<rparr>,
      \<lparr>st_final = 1, st_arcs = []\<rparr>]"
    by (simp add: Invert_fields ex_mfst_def ArcMap_state_def InvertMapper_def map_final_def mk_arc_def)
  moreover have "m_isymbols (Invert K0 id ex_mfst) = None" "m_osymbols (Invert K0 id ex_mfst) = Some symtab_ab"
    by (simp_all add: Invert_fields ex_mfst_def)
  moreover have "m_isymbols ex_mfst = Some symtab_ab" "m_osymbols ex_mfst = None"
    by (simp_all add: ex_mfst_def)
  moreover from Invert_involution [of K0 id ex_mfst "mk_arc 1 2 1 1"]
  have "mstates (Invert K0 id (Invert K0 id ex_mfst)) = mstates ex_mfst"
    "m_isymbols (Invert K0 id (Invert K0 id ex_mfst)) = m_isymbols ex_mfst"
    "m_osymbols (Invert K0 id (Invert K0 id ex_mfst)) = m_osymbols ex_mfst"
    by blast+
  ultimately show ?thesis by (simp only:)
qed

subsection \<open>C10: lookups of absent keys and symbols\<close>

text \<open>
  Claim C10. \<open>Find\<close> of a key that has no symbol (a key that is negative or at or above
  the dense-key limit and absent from the key map, or whose index is outside the
  symbol list) returns the empty string, and \<open>Find\<close> of a symbol that is not in the
  table returns \<open>kNoSymbol\<close>. Both members are \<open>const\<close>: each is a function of the
  table that returns the result alone, so there is no table after the call that could
  differ from the table before it.
\<close>

theorem Find_absent:
  "(((key < 0 \<or> dense_key_limit (impl t) \<le> key) \<and> key_map (impl t) key = None) \<or>
    ((key < 0 \<or> dense_key_limit (impl t) \<le> key) \<and>
       (\<exists>idx. key_map (impl t) key = Some idx \<and> (idx < 0 \<or> dsm_size (symbols (impl t)) \<le> idx))) \<or>
    (0 \<le> key \<and> key < dense_key_limit (impl t) \<and> dsm_size (symbols (impl t)) \<le> key)
      \<longrightarrow> SymbolTable_Find_key t key = '''') \<and>
   (symbol \<notin> set (symbols (impl t)) \<longrightarrow> SymbolTable_Find_symbol t symbol = Some kNoSymbol)"
  by (auto simp: SymbolTable_Find_key_def Find_key_def SymbolTable_Find_symbol_def Find_symbol_def
      dsm_Find_def dsm_Find_from_absent kNoSymbol_def Let_def)

text \<open>
  The statement of C10 on a table with two symbols, together with a key and a symbol
  that are present.
\<close>

theorem Find_absent_witness:
  "(5 < (0::int) \<or> dense_key_limit (impl symtab_ab) \<le> 5) \<and> key_map (impl symtab_ab) 5 = None \<and>
   SymbolTable_Find_key symtab_ab 5 = '''' \<and>
   ''c'' \<notin> set (symbols (impl symtab_ab)) \<and>
   SymbolTable_Find_symbol symtab_ab ''c'' = Some (-1) \<and>
   SymbolTable_Find_key symtab_ab 1 = ''b'' \<and> SymbolTable_Find_symbol symtab_ab ''b'' = Some 1"
proof -
  have h1: "(5 < (0::int) \<or> dense_key_limit (impl symtab_ab) \<le> 5) \<and> key_map (impl symtab_ab) 5 = None"
    by (simp add: symtab_ab_def)
  have h2: "''c'' \<notin> set (symbols (impl symtab_ab))" by (simp add: symtab_ab_def)
  from Find_absent [of 5 symtab_ab "''c''"] h1 h2
  have "SymbolTable_Find_key symtab_ab 5 = ''''"
    "SymbolTable_Find_symbol symtab_ab ''c'' = Some (-1)"
    by (simp_all add: kNoSymbol_def)
  moreover have "SymbolTable_Find_key symtab_ab 1 = ''b''"
    "SymbolTable_Find_symbol symtab_ab ''b'' = Some 1"
    by (simp_all add: SymbolTable_Find_key_def Find_key_def SymbolTable_Find_symbol_def
        Find_symbol_def dsm_Find_def dsm_size_def GetSymbol_def symtab_ab_def)
  ultimately show ?thesis using h1 h2 by simp
qed

end
